(* ===== verification/Sched_Prelude.thy ===== *)
theory Sched_Prelude
  imports Main "HOL-Library.Multiset"
begin

text \<open>
  Shared vocabulary of the scheduler model of \<^verbatim>\<open>src/cpu_scheduling.c\<close>.
  The C program keeps its process control blocks in a singly linked list and its
  two queues as linked lists of pointers into that list. The model addresses a
  block by its position in the process list (type \<open>ptr\<close>), so a pointer is a
  \<open>nat\<close>, a queue is a \<open>ptr list\<close> and a field update through a pointer is
  \<open>modify\<close> on the process list. A C crash (following a NULL pointer, reading a
  field that was never written) is a value of \<open>sched_error\<close>; a loop that does
  not stop is \<open>None\<close> of a \<^theory_text>\<open>partial_function (option)\<close>.
  The collection \<open>sched_simps\<close> gathers the evaluation rules the component
  theories add, \<open>sched_inv\<close> the rules that carry the engine invariant.
\<close>

named_theorems sched_simps "rewrite rules that evaluate the scheduler model"
named_theorems sched_inv "rules that carry the scheduler invariant through a step"

type_synonym time = int
type_synonym ptr = nat

datatype sched_error =
    NullDeref   \<comment> \<open>a NULL pointer is followed: segmentation fault\<close>
  | UninitRead  \<comment> \<open>a malloc'd field is read before it was ever written\<close>

definition modify :: "'a list \<Rightarrow> nat \<Rightarrow> ('a \<Rightarrow> 'a) \<Rightarrow> 'a list" where
  "modify xs i f = xs[i := f (xs ! i)]"

definition opt_list :: "'a option \<Rightarrow> 'a list" where
  "opt_list x = (case x of None \<Rightarrow> [] | Some y \<Rightarrow> [y])"

subsection \<open>Lists updated through a pointer\<close>

lemma length_modify [simp]: "length (modify xs i f) = length xs"
  by (simp add: modify_def)

lemma nth_modify [simp]:
  "j < length xs \<Longrightarrow> modify xs i f ! j = (if i = j then f (xs ! j) else xs ! j)"
  by (simp add: modify_def nth_list_update)

lemma nth_modify_other [simp]: "i \<noteq> j \<Longrightarrow> modify xs i f ! j = xs ! j"
  by (simp add: modify_def)

lemma modify_beyond: "length xs \<le> i \<Longrightarrow> modify xs i f = xs"
  by (simp add: modify_def list_update_beyond)

lemma map_modify_eq:
  "(\<And>x. g (f x) = g x) \<Longrightarrow> map g (modify xs i f) = map g xs"
  unfolding modify_def by (induction xs arbitrary: i) (auto split: nat.split)

lemma modify_Cons_0 [sched_simps]: "modify (x # xs) 0 f = f x # xs"
  by (simp add: modify_def)

lemma modify_Cons_Suc [sched_simps]: "modify (x # xs) (Suc i) f = x # modify xs i f"
  by (simp add: modify_def)

lemma modify_numeral [sched_simps]:
  "modify (x # xs) (numeral n) f = x # modify xs (pred_numeral n) f"
  by (simp add: modify_def numeral_eq_Suc)

subsection \<open>Optional pointers as lists\<close>

lemma opt_list_simps [simp]:
  "opt_list None = []" "opt_list (Some x) = [x]"
  by (simp_all add: opt_list_def)

lemma in_opt_list [simp]: "x \<in> set (opt_list y) \<longleftrightarrow> y = Some x"
  by (cases y) auto

lemma distinct_opt_list [simp]: "distinct (opt_list y)"
  by (cases y) auto

subsection \<open>Queue contents as multisets\<close>

lemma mset_eq_distinct_set:
  "mset xs = mset ys \<Longrightarrow> distinct xs = distinct ys \<and> set xs = set ys"
  by (metis mset_eq_imp_distinct_iff mset_eq_setD)

lemma filter_take_less:
  assumes "i < j" "j \<le> length xs" "P (xs ! i)"
  shows "length (filter P (take i xs)) < length (filter P (take j xs))"
proof -
  have "take j xs = take (Suc i) xs @ drop (Suc i) (take j xs)"
    using assms(1) by (metis append_take_drop_id min.absorb1 Suc_leI take_take)
  moreover have "take (Suc i) xs = take i xs @ [xs ! i]"
    using assms(1,2) by (simp add: take_Suc_conv_app_nth)
  ultimately obtain ys where "take j xs = take i xs @ xs ! i # ys"
    by simp
  with assms(3) show ?thesis
    by simp
qed

end
