(* ===== verification/Process.thy ===== *)
theory Process
  imports Sched_Prelude
begin

text \<open>
  The process control block \<^verbatim>\<open>node\<close> of \<^verbatim>\<open>src/cpu_scheduling.c\<close> (lines 15--28)
  and the loader that builds the process list: \<^verbatim>\<open>insert\<close> (lines 109--136) and
  \<^verbatim>\<open>input\<close> (lines 296--301). The \<^verbatim>\<open>next\<close> field is the order of the HOL list.
  \<^verbatim>\<open>completionTime\<close>, \<^verbatim>\<open>waitingTime\<close> and \<^verbatim>\<open>turnAroundTime\<close> are left
  uninitialised by \<^verbatim>\<open>insert\<close> (the block comes from \<^verbatim>\<open>malloc\<close>), so they are
  \<open>int option\<close> fields, \<open>None\<close> until first written. The C flags
  \<^verbatim>\<open>isTerminated\<close> and \<^verbatim>\<open>firstExecution\<close> only ever hold 0 or 1 and are \<open>bool\<close>.
  A block request and a process share the record; the code tells them apart by the
  identity: a \<^verbatim>\<open>processId\<close> above 1000 is a block request (\<open>is_interrupt\<close>).
  \<^verbatim>\<open>fscanf\<close> parsing is not modelled: \<open>input\<close> takes the already parsed
  triples (arrival, burst, interrupt flag) in file order.
\<close>

record node =
  processId :: int
  arrivalTime :: int
  burstTime :: int
  completionTime :: "int option"
  waitingTime :: "int option"
  turnAroundTime :: "int option"
  remainingTime :: int
  responseTime :: int
  isTerminated :: bool
  firstExecution :: bool
  blockedTime :: int

text \<open>The process list \<^verbatim>\<open>list\<close> (lines 32--34): the chain of blocks from
  \<^verbatim>\<open>l->head\<close> along \<^verbatim>\<open>next\<close>, as a HOL list in that order.\<close>

type_synonym pcb_list = "node list"

text \<open>The global identity counters \<^verbatim>\<open>PROCESS_ID\<close> and \<^verbatim>\<open>INTERRUPT_ID\<close> (lines 5--6).\<close>

record id_counters =
  PROCESS_ID :: int
  INTERRUPT_ID :: int

definition init_counters :: id_counters where
  "init_counters = \<lparr>PROCESS_ID = 1, INTERRUPT_ID = 1001\<rparr>"

definition is_interrupt :: "node \<Rightarrow> bool" where
  "is_interrupt n \<longleftrightarrow> 1000 < processId n"

definition new_node :: "int \<Rightarrow> int \<Rightarrow> int \<Rightarrow> node" where
  "new_node pid arrival burst =
     \<lparr>processId = pid, arrivalTime = arrival, burstTime = burst,
      completionTime = None, waitingTime = None, turnAroundTime = None,
      remainingTime = burst, responseTime = 0, isTerminated = False,
      firstExecution = False, blockedTime = 0\<rparr>"

text \<open>\<^verbatim>\<open>insert\<close>: take the next identity of the right kind and append the block.\<close>

definition insert_pcb ::
  "id_counters \<Rightarrow> pcb_list \<Rightarrow> int \<Rightarrow> int \<Rightarrow> int \<Rightarrow> id_counters \<times> pcb_list" where
  "insert_pcb c l arrival burst isInterrupt =
     (if isInterrupt \<noteq> 0
      then (c\<lparr>INTERRUPT_ID := INTERRUPT_ID c + 1\<rparr>, l @ [new_node (INTERRUPT_ID c) arrival burst])
      else (c\<lparr>PROCESS_ID := PROCESS_ID c + 1\<rparr>, l @ [new_node (PROCESS_ID c) arrival burst]))"

text \<open>\<^verbatim>\<open>input\<close>: one \<^verbatim>\<open>insert\<close> per record, in file order.\<close>

fun input_from :: "id_counters \<Rightarrow> pcb_list \<Rightarrow> (int \<times> int \<times> int) list \<Rightarrow> id_counters \<times> pcb_list" where
  "input_from c l [] = (c, l)"
| "input_from c l ((a, b, i) # rs) =
     (case insert_pcb c l a b i of (c', l') \<Rightarrow> input_from c' l' rs)"

definition input :: "(int \<times> int \<times> int) list \<Rightarrow> pcb_list" where
  "input recs = snd (input_from init_counters [] recs)"

declare input_def [sched_simps] insert_pcb_def [sched_simps] new_node_def [sched_simps]
  init_counters_def [sched_simps]

lemma input_from_fresh:
  "\<forall>n \<in> set l. \<not> isTerminated n \<Longrightarrow> input_from c l recs = (c', l') \<Longrightarrow> \<forall>n \<in> set l'. \<not> isTerminated n"
  by (induction c l recs rule: input_from.induct)
     (auto simp: insert_pcb_def new_node_def split: if_splits prod.splits)

lemma input_fresh: "n \<in> set (input recs) \<Longrightarrow> \<not> isTerminated n"
  using input_from_fresh [of "[]" init_counters recs "fst (input_from init_counters [] recs)"
      "snd (input_from init_counters [] recs)"]
  by (simp add: input_def)

definition next_id :: "id_counters \<Rightarrow> (int \<times> int \<times> int) list \<Rightarrow> int \<Rightarrow> int" where
  "next_id c before flag =
     (if flag \<noteq> 0 then INTERRUPT_ID c + int (length (filter (\<lambda>r. snd (snd r) \<noteq> 0) before))
      else PROCESS_ID c + int (length (filter (\<lambda>r. snd (snd r) = 0) before)))"

lemma input_from_spec:
  "input_from c l recs = (c', l') \<Longrightarrow>
     length l' = length l + length recs \<and>
     (\<forall>i < length l. l' ! i = l ! i) \<and>
     (\<forall>i < length recs. l' ! (length l + i) =
        new_node (next_id c (take i recs) (snd (snd (recs ! i)))) (fst (recs ! i)) (fst (snd (recs ! i))))"
proof (induction c l recs arbitrary: c' l' rule: input_from.induct)
  case (1 c l)
  then show ?case by simp
next
  case (2 c l a b x rs)
  obtain c1 l1 where ins: "insert_pcb c l a b x = (c1, l1)"
    by fastforce
  have l1: "l1 = l @ [new_node (next_id c [] x) a b]"
    and c1: "c1 = (if x \<noteq> 0 then c\<lparr>INTERRUPT_ID := INTERRUPT_ID c + 1\<rparr>
                   else c\<lparr>PROCESS_ID := PROCESS_ID c + 1\<rparr>)"
    using ins by (auto simp: insert_pcb_def next_id_def split: if_splits)
  from "2.prems" ins have rest: "input_from c1 l1 rs = (c', l')"
    by simp
  note IH = "2.IH" [OF ins [symmetric] rest]
  have step: "next_id c1 (take j rs) f = next_id c (take (Suc j) ((a, b, x) # rs)) f" for j f
    using c1 by (auto simp: next_id_def)
  show ?case
  proof (intro conjI allI impI)
    show "length l' = length l + length ((a, b, x) # rs)"
      using IH l1 by simp
  next
    fix i
    assume "i < length l"
    then show "l' ! i = l ! i"
      using IH l1 by (auto simp: nth_append)
  next
    fix i
    assume i: "i < length ((a, b, x) # rs)"
    show "l' ! (length l + i) =
        new_node (next_id c (take i ((a, b, x) # rs)) (snd (snd (((a, b, x) # rs) ! i))))
          (fst (((a, b, x) # rs) ! i)) (fst (snd (((a, b, x) # rs) ! i)))"
    proof (cases i)
      case 0
      then show ?thesis
        using IH l1 by (auto simp: nth_append)
    next
      case (Suc j)
      then have "l' ! (length l + i) = l' ! (length l1 + j)"
        using l1 by simp
      with Suc i IH step show ?thesis
        by simp
    qed
  qed
qed

lemma length_input [simp]: "length (input recs) = length recs"
  using input_from_spec [of init_counters "[]" recs "fst (input_from init_counters [] recs)"
      "snd (input_from init_counters [] recs)"]
  by (simp add: input_def)

lemma input_nth_node:
  "i < length recs \<Longrightarrow>
     input recs ! i = new_node (next_id init_counters (take i recs) (snd (snd (recs ! i))))
                         (fst (recs ! i)) (fst (snd (recs ! i)))"
  using input_from_spec [of init_counters "[]" recs "fst (input_from init_counters [] recs)"
      "snd (input_from init_counters [] recs)"]
  by (simp add: input_def)

subsection \<open>What the loader builds\<close>

text \<open>C22: \<^verbatim>\<open>input\<close> keeps the file order; the block for the record at position
  \<open>i\<close> carries its arrival and burst times, a fresh remaining time equal to the burst,
  and identity 1 + (number of real records before it) for a real process, 1001 + (number of
  block requests before it) for a block request.\<close>

theorem input_builds_blocks:
  assumes "i < length recs"
  shows "processId (input recs ! i) =
           (if snd (snd (recs ! i)) \<noteq> 0
            then 1001 + int (length (filter (\<lambda>r. snd (snd r) \<noteq> 0) (take i recs)))
            else 1 + int (length (filter (\<lambda>r. snd (snd r) = 0) (take i recs)))) \<and>
         arrivalTime (input recs ! i) = fst (recs ! i) \<and>
         burstTime (input recs ! i) = fst (snd (recs ! i)) \<and>
         remainingTime (input recs ! i) = fst (snd (recs ! i)) \<and>
         \<not> isTerminated (input recs ! i) \<and> completionTime (input recs ! i) = None"
  using input_nth_node [OF assms] by (simp add: new_node_def next_id_def init_counters_def)

text \<open>C29: identities are the only thing that tells a process from a block request,
  and real processes count up from 1: a real process with 1000 real processes before it in
  the file gets identity 1001 and every policy treats it as a block request.\<close>

theorem real_process_taken_for_block_request:
  assumes "i < length recs" "snd (snd (recs ! i)) = 0"
    and "1000 \<le> length (filter (\<lambda>r. snd (snd r) = 0) (take i recs))"
  shows "is_interrupt (input recs ! i)"
  using input_nth_node [OF assms(1)] assms(2,3)
  by (simp add: new_node_def next_id_def init_counters_def is_interrupt_def)

text \<open>C23: as long as the file holds at most 1000 real processes, the list \<^verbatim>\<open>input\<close>
  builds is well formed: no two of its blocks share an identity.\<close>

theorem input_ids_distinct:
  assumes "length (filter (\<lambda>r. snd (snd r) = 0) recs) \<le> 1000"
  shows "distinct (map processId (input recs))"
proof -
  let ?R = "\<lambda>r::int \<times> int \<times> int. snd (snd r) = 0"
  let ?I = "\<lambda>r::int \<times> int \<times> int. snd (snd r) \<noteq> 0"
  have pid: "processId (input recs ! k) =
      (if ?I (recs ! k) then 1001 + int (length (filter ?I (take k recs)))
       else 1 + int (length (filter ?R (take k recs))))" if "k < length recs" for k
    using input_nth_node [OF that] by (simp add: new_node_def next_id_def init_counters_def)
  have real_le: "processId (input recs ! k) \<le> 1000" if "k < length recs" "?R (recs ! k)" for k
    using pid [OF that(1)] that filter_take_less [of k "length recs" recs ?R] assms by simp
  have int_gt: "1001 \<le> processId (input recs ! k)" if "k < length recs" "?I (recs ! k)" for k
    using pid [OF that(1)] that by simp
  have ne: "processId (input recs ! i) \<noteq> processId (input recs ! j)"
    if "i < j" "j < length recs" for i j
  proof (cases "?I (recs ! i)"; cases "?I (recs ! j)")
    assume "?I (recs ! i)" "?I (recs ! j)"
    then show ?thesis
      using pid that filter_take_less [of i j recs ?I] by simp
  next
    assume "\<not> ?I (recs ! i)" "\<not> ?I (recs ! j)"
    then show ?thesis
      using pid that filter_take_less [of i j recs ?R] by simp
  next
    assume "?I (recs ! i)" "\<not> ?I (recs ! j)"
    then show ?thesis
      using int_gt [of i] real_le [of j] that by simp
  next
    assume "\<not> ?I (recs ! i)" "?I (recs ! j)"
    then show ?thesis
      using int_gt [of j] real_le [of i] that by simp
  qed
  show ?thesis
    unfolding distinct_conv_nth
  proof (intro allI impI)
    fix i j
    assume "i < length (map processId (input recs))" "j < length (map processId (input recs))" "i \<noteq> j"
    then show "map processId (input recs) ! i \<noteq> map processId (input recs) ! j"
      using ne [of i j] ne [of j i] by (cases "i < j") auto
  qed
qed
end
