(* ===== verification/Queues.thy ===== *)
theory Queues
  imports Process
begin

text \<open>
  The two queues of \<^verbatim>\<open>src/cpu_scheduling.c\<close>. A \<^verbatim>\<open>priorityQueue\<close> (lines 38--47)
  is a linked list of pointers into the process list; here it is a \<open>ptr list\<close>,
  head first. The operations:
  \<^item> \<open>enqueue\<close> (lines 152--166): append at the tail (FCFS and RR ready queue);
  \<^item> \<open>priorityEnqueue\<close> (lines 170--216) and \<open>priorityBlock\<close> (lines 220--265):
    the same ordered scan, keyed by \<^verbatim>\<open>remainingTime\<close> and by \<^verbatim>\<open>blockedTime\<close>;
    both are \<open>prio_insert\<close>, a line-by-line translation of the scan with its head
    test, its single-element test, its loop over \<^verbatim>\<open>ref->next\<close> and its last test;
  \<^item> \<open>deduct\<close> (lines 269--277): one decrement of \<^verbatim>\<open>blockedTime\<close> per entry;
  \<^item> \<open>dequeue\<close> (lines 281--285), which follows the head pointer and so crashes
    (\<open>None\<close>) on an empty queue, and \<open>isEmpty\<close> (lines 289--292).
  The lemmas show that \<open>prio_insert\<close> equals the reference insertion \<open>ins_key\<close>
  (place the new entry before the first entry with a strictly greater key), that it
  keeps a queue sorted, that it is a permutation step and that it is stable, and that
  \<open>deduct\<close> lowers exactly the blocked entries by one.
\<close>

text \<open>\<^verbatim>\<open>queueNode\<close> and \<^verbatim>\<open>priorityQueue\<close> (lines 38--47): the chain of queue
  nodes from the head is the list of the pointers they hold.\<close>

type_synonym priorityQueue = "ptr list"

definition enqueue :: "priorityQueue \<Rightarrow> ptr \<Rightarrow> priorityQueue" where
  "enqueue q d = q @ [d]"

text \<open>The loop of \<^verbatim>\<open>priorityEnqueue\<close> from \<^verbatim>\<open>ref = q->head->next\<close> on; the
  predecessor \<^verbatim>\<open>temp\<close> is the element already emitted.\<close>

fun prio_scan :: "('a \<Rightarrow> int) \<Rightarrow> 'a \<Rightarrow> 'a list \<Rightarrow> 'a list" where
  "prio_scan key d [] = [d]"
| "prio_scan key d [r] = (if key r > key d then [d, r] else [r, d])"
| "prio_scan key d (r # rs) = (if key r > key d then d # r # rs else r # prio_scan key d rs)"

definition prio_insert :: "('a \<Rightarrow> int) \<Rightarrow> 'a list \<Rightarrow> 'a \<Rightarrow> 'a list" where
  "prio_insert key q d =
     (case q of
        [] \<Rightarrow> [d]
      | h # rest \<Rightarrow>
          if key h > key d then d # q
          else if rest = [] then q @ [d]
          else h # prio_scan key d rest)"

definition priorityEnqueue :: "node list \<Rightarrow> priorityQueue \<Rightarrow> ptr \<Rightarrow> priorityQueue" where
  "priorityEnqueue ps q d = prio_insert (\<lambda>i. remainingTime (ps ! i)) q d"

definition priorityBlock :: "node list \<Rightarrow> priorityQueue \<Rightarrow> ptr \<Rightarrow> priorityQueue" where
  "priorityBlock ps bq d = prio_insert (\<lambda>i. blockedTime (ps ! i)) bq d"

definition deduct :: "node list \<Rightarrow> priorityQueue \<Rightarrow> node list" where
  "deduct ps bq = fold (\<lambda>i ps. modify ps i (\<lambda>n. n\<lparr>blockedTime := blockedTime n - 1\<rparr>)) bq ps"

definition dequeue :: "priorityQueue \<Rightarrow> (ptr \<times> priorityQueue) option" where
  "dequeue q = (case q of [] \<Rightarrow> None | x # xs \<Rightarrow> Some (x, xs))"

definition isEmpty :: "priorityQueue \<Rightarrow> bool" where
  "isEmpty q \<longleftrightarrow> q = []"

text \<open>Reference specification of the ordered insertion: before the first entry
  whose key is strictly greater, at the tail if there is none.\<close>

fun ins_key :: "('a \<Rightarrow> int) \<Rightarrow> 'a \<Rightarrow> 'a list \<Rightarrow> 'a list" where
  "ins_key key d [] = [d]"
| "ins_key key d (y # ys) = (if key y > key d then d # y # ys else y # ins_key key d ys)"

text \<open>Abstract specification of a min-priority queue of remaining times: the
  contents as a multiset of keys, insertion adds a key, and taking the head yields the
  least key.\<close>

definition pq_abs :: "node list \<Rightarrow> ptr list \<Rightarrow> int multiset" where
  "pq_abs ps q = image_mset (\<lambda>j. remainingTime (ps ! j)) (mset q)"

definition pq_pop :: "int multiset \<Rightarrow> int \<times> int multiset" where
  "pq_pop M = (Min (set_mset M), M - {#Min (set_mset M)#})"

declare enqueue_def [sched_simps] priorityEnqueue_def [sched_simps] priorityBlock_def [sched_simps]
  prio_insert_def [sched_simps] deduct_def [sched_simps] dequeue_def [sched_simps] isEmpty_def [sched_simps]

subsection \<open>The ordered scan implements the reference insertion\<close>

lemma prio_scan_ins_key: "rs \<noteq> [] \<Longrightarrow> prio_scan key d rs = ins_key key d rs"
  by (induction key d rs rule: prio_scan.induct) auto

lemma ins_key_split:
  "ins_key key d q = takeWhile (\<lambda>y. key y \<le> key d) q @ d # dropWhile (\<lambda>y. key y \<le> key d) q"
  by (induction q) auto

lemma ins_key_not_Nil [simp]: "ins_key key d q \<noteq> []"
  by (cases q) auto

lemma mset_ins_key [simp]: "mset (ins_key key d q) = add_mset d (mset q)"
  by (induction q) auto

lemma set_ins_key [simp]: "set (ins_key key d q) = insert d (set q)"
  by (induction q) auto

lemma sorted_ins_key: "sorted (map key q) \<Longrightarrow> sorted (map key (ins_key key d q))"
  by (induction q) (auto simp: sorted_wrt_append)

lemma filter_ins_key:
  assumes "sorted (map key q)"
  shows "filter (\<lambda>y. key y = k) (ins_key key d q) =
           filter (\<lambda>y. key y = k) q @ (if key d = k then [d] else [])"
proof -
  let ?P = "\<lambda>y. key y \<le> key d"
  have above: "\<forall>y \<in> set (dropWhile ?P q). key d < key y"
    using assms
  proof (induction q)
    case (Cons y ys)
    then show ?case by (auto simp: not_le)
  qed simp
  let ?R = "\<lambda>y. key y = k"
  have split: "filter ?R q = filter ?R (takeWhile ?P q) @ filter ?R (dropWhile ?P q)"
    by (metis filter_append takeWhile_dropWhile_id)
  have "filter ?R (dropWhile ?P q) = []" if "key d = k"
    using above that by (auto simp: filter_empty_conv)
  with split show ?thesis
    by (auto simp: ins_key_split)
qed

lemma prio_insert_ins_key: "prio_insert key q d = ins_key key d q"
  by (auto simp: prio_insert_def prio_scan_ins_key split: list.split)

lemma sorted_head_Min:
  assumes "sorted (map key (h # t))"
  shows "key h = Min (set_mset (image_mset key (mset (h # t))))"
proof -
  have "\<forall>y \<in> set t. key h \<le> key y"
    using assms by simp
  then show ?thesis
    by (intro Min_eqI [symmetric]) auto
qed

subsection \<open>Other queue operations\<close>

lemma mset_enqueue [simp]: "mset (enqueue q d) = add_mset d (mset q)"
  by (simp add: enqueue_def)

lemma mset_priorityEnqueue [simp]: "mset (priorityEnqueue ps q d) = add_mset d (mset q)"
  by (simp add: priorityEnqueue_def prio_insert_ins_key)

lemma mset_priorityBlock [simp]: "mset (priorityBlock ps q d) = add_mset d (mset q)"
  by (simp add: priorityBlock_def prio_insert_ins_key)

lemma dequeue_None_iff [simp]: "dequeue q = None \<longleftrightarrow> isEmpty q"
  by (simp add: dequeue_def isEmpty_def split: list.split)

lemma dequeue_Some_iff [simp]: "dequeue q = Some (x, q') \<longleftrightarrow> q = x # q'"
  by (auto simp: dequeue_def split: list.split)

lemma length_deduct [simp]: "length (deduct ps bq) = length ps"
  unfolding deduct_def by (induction bq arbitrary: ps) auto

lemma nth_deduct:
  "distinct bq \<Longrightarrow> i < length ps \<Longrightarrow>
     deduct ps bq ! i = (if i \<in> set bq then (ps ! i)\<lparr>blockedTime := blockedTime (ps ! i) - 1\<rparr> else ps ! i)"
  unfolding deduct_def by (induction bq arbitrary: ps) auto

lemma map_deduct_eq:
  "(\<And>n. g (n\<lparr>blockedTime := blockedTime n - 1\<rparr>) = g n) \<Longrightarrow> map g (deduct ps bq) = map g ps"
  unfolding deduct_def by (induction bq arbitrary: ps) (auto simp: map_modify_eq)

lemma remainingTime_deduct [simp]:
  assumes "i < length ps"
  shows "remainingTime (deduct ps q ! i) = remainingTime (ps ! i)"
proof -
  have "map remainingTime (deduct ps q) = map remainingTime ps"
    by (rule map_deduct_eq) simp
  then have "map remainingTime (deduct ps q) ! i = map remainingTime ps ! i"
    by (rule arg_cong)
  with assms show ?thesis
    by simp
qed

subsection \<open>Properties of the C queue operations\<close>

text \<open>\<^verbatim>\<open>priorityEnqueue\<close> places the new entry immediately before the first
  entry with a strictly greater remaining time, at the tail if there is none.\<close>

theorem priorityEnqueue_before_greater:
  "priorityEnqueue ps q d =
     takeWhile (\<lambda>j. remainingTime (ps ! j) \<le> remainingTime (ps ! d)) q @ d #
     dropWhile (\<lambda>j. remainingTime (ps ! j) \<le> remainingTime (ps ! d)) q"
  by (simp add: priorityEnqueue_def prio_insert_ins_key ins_key_split)

text \<open>C19: the linked-list scans of \<^verbatim>\<open>priorityEnqueue\<close> and \<^verbatim>\<open>priorityBlock\<close>,
  with their special cases for the head and for a one-element queue, compute exactly the
  reference insertion \<open>ins_key\<close> on their keys.\<close>

theorem priority_scans_equiv:
  "priorityEnqueue ps q d = ins_key (\<lambda>j. remainingTime (ps ! j)) d q \<and>
   priorityBlock ps q d = ins_key (\<lambda>j. blockedTime (ps ! j)) d q"
  by (simp add: priorityEnqueue_def priorityBlock_def prio_insert_ins_key)

text \<open>\<^verbatim>\<open>priorityEnqueue\<close> keeps a ready queue sorted by remaining time.\<close>

theorem priorityEnqueue_sorted:
  assumes "sorted (map (\<lambda>j. remainingTime (ps ! j)) q)"
  shows "sorted (map (\<lambda>j. remainingTime (ps ! j)) (priorityEnqueue ps q d))"
  using sorted_ins_key [OF assms] by (simp add: priorityEnqueue_def prio_insert_ins_key)

text \<open>C20: \<^verbatim>\<open>priorityEnqueue\<close> is stable: among entries with equal remaining time the
  new one comes last, and the others keep their order.\<close>

theorem priorityEnqueue_stable:
  assumes "sorted (map (\<lambda>j. remainingTime (ps ! j)) q)"
  shows "filter (\<lambda>j. remainingTime (ps ! j) = k) (priorityEnqueue ps q d) =
           filter (\<lambda>j. remainingTime (ps ! j) = k) q @ (if remainingTime (ps ! d) = k then [d] else [])"
  using filter_ins_key [OF assms] by (simp add: priorityEnqueue_def prio_insert_ins_key)

text \<open>Aging the blocked queue with \<^verbatim>\<open>deduct\<close> lowers every entry by one and so
  keeps it sorted by blocked time.\<close>

theorem deduct_keeps_order:
  assumes "distinct q" "\<forall>i \<in> set q. i < length ps" "sorted (map (\<lambda>i. blockedTime (ps ! i)) q)"
  shows "sorted (map (\<lambda>i. blockedTime (deduct ps q ! i)) q)"
proof -
  have eq: "map (\<lambda>i. blockedTime (deduct ps q ! i)) q = map (\<lambda>x. x - 1) (map (\<lambda>i. blockedTime (ps ! i)) q)"
    using assms(1,2) by (simp add: nth_deduct)
  have dec: "sorted (map (\<lambda>x. x - 1) L)" if "sorted L" for L :: "int list"
    using that by (induction L) auto
  show ?thesis
    unfolding eq by (rule dec [OF assms(3)])
qed

text \<open>C17: the ready queue of \<^verbatim>\<open>sjf\<close> refines an abstract min-priority queue of
  remaining times: on a sorted queue, \<^verbatim>\<open>priorityEnqueue\<close> followed by \<^verbatim>\<open>dequeue\<close>
  returns a process with the least remaining time and leaves exactly the other keys,
  as the abstract insert followed by the abstract pop.\<close>

theorem priority_queue_refines:
  assumes "sorted (map (\<lambda>j. remainingTime (ps ! j)) q)"
  shows "map_option (\<lambda>(h, t). (remainingTime (ps ! h), pq_abs ps t)) (dequeue (priorityEnqueue ps q d)) =
           Some (pq_pop (add_mset (remainingTime (ps ! d)) (pq_abs ps q)))"
proof -
  let ?key = "\<lambda>j. remainingTime (ps ! j)"
  obtain h t where L: "priorityEnqueue ps q d = h # t"
    by (cases "priorityEnqueue ps q d") (auto simp: priorityEnqueue_def prio_insert_ins_key)
  have srt: "sorted (map ?key (h # t))"
    using sorted_ins_key [OF assms, of d] L by (simp add: priorityEnqueue_def prio_insert_ins_key)
  have abs: "add_mset (?key d) (pq_abs ps q) = image_mset ?key (mset (h # t))"
    using mset_priorityEnqueue [of ps q d] L by (simp add: pq_abs_def)
  show ?thesis
    using sorted_head_Min [OF srt] L abs by (simp add: pq_pop_def pq_abs_def)
qed

end
