(* ===== verification/Engine.thy ===== *)
theory Engine
  imports Queues
begin

text \<open>
  The tick loop shared by the four policy functions \<^verbatim>\<open>fcfs\<close>, \<^verbatim>\<open>sjf\<close>,
  \<^verbatim>\<open>sjfPreempt\<close> and \<^verbatim>\<open>roundRobin\<close> of \<^verbatim>\<open>src/cpu_scheduling.c\<close>, and the two
  non-preemptive policies themselves. The state \<open>sim\<close> collects what the C code
  keeps in globals and locals: the process list \<^verbatim>\<open>l\<close> (\<open>procs\<close>), the cursor
  \<^verbatim>\<open>data\<close> over not yet admitted records (a position; \<open>length procs\<close> is NULL),
  the running process \<^verbatim>\<open>ref\<close>, the queues \<^verbatim>\<open>rq\<close> and \<^verbatim>\<open>bq\<close>, the clock
  \<^verbatim>\<open>SYSTEM_TIME\<close>, the flag \<^verbatim>\<open>IS_CPU_IDLE\<close> and the Round Robin counter
  \<^verbatim>\<open>quantum\<close>. One iteration of the outer \<^verbatim>\<open>while\<close> is composed of the pieces
  in the order of the code: \<open>run_dec\<close>, \<open>age\<close>, \<open>idle_wait\<close>, the arrival loop,
  \<open>complete_running\<close>, \<open>dispatch\<close>, \<open>release_step\<close> and the clock increment.
  \<open>idle_wait\<close> and the outer loop \<open>sched_loop\<close> may run forever and are
  \<^theory_text>\<open>partial_function (option)\<close>; the arrival loop and the release loop
  consume a record or a queue entry per iteration and are total. The iterations of the
  idle wait are also the step relation \<open>idle_reach\<close>, through which its effect on the
  state and its run on a record whose arrival has passed are proved.
\<close>

record sim =
  procs :: "node list"
  data :: nat
  ref :: "ptr option"
  rq :: priorityQueue
  bq :: priorityQueue
  SYSTEM_TIME :: time
  IS_CPU_IDLE :: bool
  quantum :: int

definition init_sim :: "node list \<Rightarrow> int \<Rightarrow> sim" where
  "init_sim ps tq =
     \<lparr>procs = ps, data = 0, ref = None, rq = [], bq = [], SYSTEM_TIME = 0,
      IS_CPU_IDLE = True, quantum = tq\<rparr>"

definition has_data :: "sim \<Rightarrow> bool" where
  "has_data s \<longleftrightarrow> data s < length (procs s)"

definition cur :: "sim \<Rightarrow> node" where
  "cur s = procs s ! data s"

subsection \<open>Pieces of one tick\<close>

text \<open>Line 318: the running process executes for one time unit.\<close>

definition run_dec :: "sim \<Rightarrow> sim" where
  "run_dec s =
     (case ref s of
        None \<Rightarrow> s
      | Some r \<Rightarrow> s\<lparr>procs := modify (procs s) r (\<lambda>n. n\<lparr>remainingTime := remainingTime n - 1\<rparr>)\<rparr>)"

text \<open>Line 320: every blocked process ages by one.\<close>

definition age :: "sim \<Rightarrow> sim" where
  "age s = (if \<not> isEmpty (bq s) then s\<lparr>procs := deduct (procs s) (bq s)\<rparr> else s)"

text \<open>Lines 322--332: with the CPU idle and no process ready, skip block requests,
  start a process that arrives now, or let the clock run. The loop does not age the
  blocked queue and does not stop for a record whose arrival time has passed.\<close>

partial_function (option) idle_wait :: "sim \<Rightarrow> sim option" where
  "idle_wait s =
     (if has_data s \<and> IS_CPU_IDLE s \<and> isEmpty (rq s) then
        (if processId (cur s) > 1000 then idle_wait (s\<lparr>data := Suc (data s)\<rparr>)
         else if arrivalTime (cur s) = SYSTEM_TIME s then
           idle_wait (s\<lparr>IS_CPU_IDLE := False, ref := Some (data s), data := Suc (data s)\<rparr>)
         else idle_wait (s\<lparr>SYSTEM_TIME := SYSTEM_TIME s + 1\<rparr>))
      else Some s)"

declare idle_wait.simps [code]

text \<open>The iterations of the same loop as a step relation: \<open>idle_reach s t\<close> when the
  loop started in \<open>s\<close> passes through \<open>t\<close>, one rule per branch of lines 322--332
  (skip a block request, admit the record, let the clock run). \<open>idle_reach_wait\<close> and
  \<open>idle_wait_reach\<close> below tie it to \<open>idle_wait\<close>.\<close>

inductive idle_reach :: "sim \<Rightarrow> sim \<Rightarrow> bool" where
  start: "idle_reach s s"
| skip: "idle_reach s t \<Longrightarrow> has_data t \<Longrightarrow> IS_CPU_IDLE t \<Longrightarrow> isEmpty (rq t) \<Longrightarrow>
           processId (cur t) > 1000 \<Longrightarrow> idle_reach s (t\<lparr>data := Suc (data t)\<rparr>)"
| admit: "idle_reach s t \<Longrightarrow> has_data t \<Longrightarrow> IS_CPU_IDLE t \<Longrightarrow> isEmpty (rq t) \<Longrightarrow>
           \<not> processId (cur t) > 1000 \<Longrightarrow> arrivalTime (cur t) = SYSTEM_TIME t \<Longrightarrow>
           idle_reach s (t\<lparr>IS_CPU_IDLE := False, ref := Some (data t), data := Suc (data t)\<rparr>)"
| clock: "idle_reach s t \<Longrightarrow> has_data t \<Longrightarrow> IS_CPU_IDLE t \<Longrightarrow> isEmpty (rq t) \<Longrightarrow>
           \<not> processId (cur t) > 1000 \<Longrightarrow> arrivalTime (cur t) \<noteq> SYSTEM_TIME t \<Longrightarrow>
           idle_reach s (t\<lparr>SYSTEM_TIME := SYSTEM_TIME t + 1\<rparr>)"

text \<open>Lines 344--348 and 365--371: the bookkeeping of a completion.\<close>

definition finish :: "node list \<Rightarrow> ptr \<Rightarrow> time \<Rightarrow> node list" where
  "finish ps r t =
     modify ps r (\<lambda>n. n\<lparr>completionTime := Some t, turnAroundTime := Some (t - arrivalTime n),
                         isTerminated := True\<rparr>)"

text \<open>Lines 335--358: a block request reaches the running process. It is blocked
  for the request's duration (or, if it has no time left, it completes) and the head
  of the ready queue, if any, takes the CPU. \<^verbatim>\<open>ref->remainingTime\<close> crashes when
  \<^verbatim>\<open>ref\<close> is NULL.\<close>

definition take_cpu :: "sim \<Rightarrow> sim" where
  "take_cpu s =
     (case dequeue (rq s) of
        None \<Rightarrow> s\<lparr>ref := None, IS_CPU_IDLE := True\<rparr>
      | Some (r, q) \<Rightarrow> s\<lparr>ref := Some r, rq := q, IS_CPU_IDLE := False\<rparr>)"

definition block_request :: "sim \<Rightarrow> sched_error + sim" where
  "block_request s =
     (case ref s of
        None \<Rightarrow> Inl NullDeref
      | Some r \<Rightarrow>
          Inr (take_cpu
            (if remainingTime (procs s ! r) \<noteq> 0 then
               (let ps = modify (procs s) r (\<lambda>n. n\<lparr>blockedTime := burstTime (cur s)\<rparr>)
                in s\<lparr>procs := ps, bq := priorityBlock ps (bq s) r, IS_CPU_IDLE := True\<rparr>)
             else s\<lparr>procs := finish (procs s) r (SYSTEM_TIME s), IS_CPU_IDLE := True, ref := None\<rparr>)))"

lemma length_finish [simp]: "length (finish ps r t) = length ps"
  by (simp add: finish_def)

lemma block_request_frame:
  "block_request s = Inr s' \<Longrightarrow> length (procs s') = length (procs s) \<and> data s' = data s"
  by (auto simp: block_request_def take_cpu_def finish_def Let_def
           split: option.splits if_splits)

text \<open>Lines 334--363 (\<^verbatim>\<open>fcfs\<close>) and 413--442 (\<^verbatim>\<open>sjf\<close>): every record that
  arrives now while the CPU is busy. \<open>enq\<close> is the ready-queue insertion of the
  policy: \<open>enqueue\<close> for FCFS, \<open>priorityEnqueue\<close> for SJF.\<close>

function np_arrivals :: "(node list \<Rightarrow> ptr list \<Rightarrow> ptr \<Rightarrow> ptr list) \<Rightarrow> sim \<Rightarrow> sched_error + sim" where
  "np_arrivals enq s =
     (if has_data s \<and> SYSTEM_TIME s = arrivalTime (cur s) \<and> \<not> IS_CPU_IDLE s then
        (if processId (cur s) > 1000 then
           (case block_request s of
              Inl e \<Rightarrow> Inl e
            | Inr s' \<Rightarrow> np_arrivals enq (s'\<lparr>data := Suc (data s')\<rparr>))
         else np_arrivals enq (s\<lparr>rq := enq (procs s) (rq s) (data s), data := Suc (data s)\<rparr>))
      else Inr s)"
  by pat_completeness auto
termination
  by (relation "measure (\<lambda>(enq, s). length (procs s) - data s)")
     (auto simp: has_data_def dest: block_request_frame)

declare np_arrivals.simps [simp del]

text \<open>Lines 365--372: the running process completes when it has no time left.\<close>

definition complete_running :: "sim \<Rightarrow> sim" where
  "complete_running s =
     (case ref s of
        None \<Rightarrow> s
      | Some r \<Rightarrow>
          if remainingTime (procs s ! r) = 0
          then s\<lparr>procs := finish (procs s) r (SYSTEM_TIME s), IS_CPU_IDLE := True, ref := None\<rparr>
          else s)"

text \<open>Lines 374--377: an idle CPU takes the head of the ready queue.\<close>

definition dispatch :: "sim \<Rightarrow> sim" where
  "dispatch s =
     (if IS_CPU_IDLE s then
        (case dequeue (rq s) of
           None \<Rightarrow> s
         | Some (r, q) \<Rightarrow> s\<lparr>ref := Some r, rq := q, IS_CPU_IDLE := False\<rparr>)
      else s)"

text \<open>Lines 379--383: blocked processes whose time is up move to the ready queue,
  head first, until the head of the blocked queue still has time to wait.\<close>

fun release :: "(node list \<Rightarrow> ptr list \<Rightarrow> ptr \<Rightarrow> ptr list) \<Rightarrow> node list \<Rightarrow> ptr list \<Rightarrow> ptr list
    \<Rightarrow> ptr list \<times> ptr list" where
  "release enq ps [] q = ([], q)"
| "release enq ps (b # bs) q =
     (if blockedTime (ps ! b) = 0 then release enq ps bs (enq ps q b) else (b # bs, q))"

definition release_step :: "(node list \<Rightarrow> ptr list \<Rightarrow> ptr \<Rightarrow> ptr list) \<Rightarrow> sim \<Rightarrow> sim" where
  "release_step enq s =
     (case release enq (procs s) (bq s) (rq s) of (bq', rq') \<Rightarrow> s\<lparr>bq := bq', rq := rq'\<rparr>)"

text \<open>Line 385.\<close>

definition advance :: "sim \<Rightarrow> sim" where
  "advance s = s\<lparr>SYSTEM_TIME := SYSTEM_TIME s + 1\<rparr>"

subsection \<open>The loop and the non-preemptive policies\<close>

text \<open>The condition of the outer \<^verbatim>\<open>while\<close> (line 317, the same in all four).\<close>

definition loop_cond :: "sim \<Rightarrow> bool" where
  "loop_cond s \<longleftrightarrow> has_data s \<or> ref s \<noteq> None \<or> \<not> isEmpty (rq s) \<or> \<not> isEmpty (bq s)"

partial_function (option) sched_loop ::
  "(sim \<Rightarrow> (sched_error + sim) option) \<Rightarrow> sim \<Rightarrow> (sched_error + sim) option" where
  "sched_loop tick s =
     (if loop_cond s then
        (case tick s of
           None \<Rightarrow> None
         | Some (Inl e) \<Rightarrow> Some (Inl e)
         | Some (Inr s') \<Rightarrow> sched_loop tick s')
      else Some (Inr s))"

declare sched_loop.simps [code]

text \<open>One iteration of the loop body of \<^verbatim>\<open>fcfs\<close> (lines 318--385); \<^verbatim>\<open>sjf\<close>
  (lines 397--464) is the same body with \<^verbatim>\<open>priorityEnqueue\<close> for \<^verbatim>\<open>enqueue\<close>.\<close>

definition np_tick :: "(node list \<Rightarrow> ptr list \<Rightarrow> ptr \<Rightarrow> ptr list) \<Rightarrow> sim \<Rightarrow> (sched_error + sim) option" where
  "np_tick enq s =
     (case idle_wait (age (run_dec s)) of
        None \<Rightarrow> None
      | Some s3 \<Rightarrow>
          (case np_arrivals enq s3 of
             Inl e \<Rightarrow> Some (Inl e)
           | Inr s4 \<Rightarrow> Some (Inr (advance (release_step enq (dispatch (complete_running s4)))))))"

subsection \<open>Evaluation rules\<close>

text \<open>\<open>idle_wait.simps\<close> loops in the simplifier when the clock has passed the
  next arrival; these rules cover every case of its guard and let \<open>simp\<close> evaluate
  runs, jumping the clock to the next arrival in one step.\<close>

lemma idle_wait_exit:
  "\<not> (has_data s \<and> IS_CPU_IDLE s \<and> isEmpty (rq s)) \<Longrightarrow> idle_wait s = Some s"
  by (subst idle_wait.simps) (rule if_not_P)

lemma idle_wait_skip:
  "has_data s \<Longrightarrow> IS_CPU_IDLE s \<Longrightarrow> isEmpty (rq s) \<Longrightarrow> processId (cur s) > 1000 \<Longrightarrow>
     idle_wait s = idle_wait (s\<lparr>data := Suc (data s)\<rparr>)"
  by (subst idle_wait.simps) simp

lemma idle_wait_start:
  assumes "has_data s" "IS_CPU_IDLE s" "isEmpty (rq s)" "\<not> processId (cur s) > 1000"
    and "arrivalTime (cur s) = SYSTEM_TIME s"
  shows "idle_wait s = Some (s\<lparr>IS_CPU_IDLE := False, ref := Some (data s), data := Suc (data s)\<rparr>)"
proof -
  have "idle_wait s = idle_wait (s\<lparr>IS_CPU_IDLE := False, ref := Some (data s), data := Suc (data s)\<rparr>)"
    using assms by (subst idle_wait.simps) simp
  also have "\<dots> = Some (s\<lparr>IS_CPU_IDLE := False, ref := Some (data s), data := Suc (data s)\<rparr>)"
    by (rule idle_wait_exit) simp
  finally show ?thesis .
qed

lemma idle_wait_jump:
  "has_data s \<Longrightarrow> IS_CPU_IDLE s \<Longrightarrow> isEmpty (rq s) \<Longrightarrow> \<not> processId (cur s) > 1000 \<Longrightarrow>
     SYSTEM_TIME s \<le> arrivalTime (cur s) \<Longrightarrow>
     idle_wait s = Some (s\<lparr>SYSTEM_TIME := arrivalTime (cur s), IS_CPU_IDLE := False,
                           ref := Some (data s), data := Suc (data s)\<rparr>)"
proof (induction "nat (arrivalTime (cur s) - SYSTEM_TIME s)" arbitrary: s)
  case 0
  then show ?case by (simp add: idle_wait_start)
next
  case (Suc k)
  let ?s = "s\<lparr>SYSTEM_TIME := SYSTEM_TIME s + 1\<rparr>"
  have later: "SYSTEM_TIME s < arrivalTime (cur s)"
    using Suc.hyps(2) by linarith
  have "idle_wait s = idle_wait ?s"
    using Suc.prems later by (subst idle_wait.simps) simp
  also have "\<dots> = Some (?s\<lparr>SYSTEM_TIME := arrivalTime (cur ?s), IS_CPU_IDLE := False,
                           ref := Some (data ?s), data := Suc (data ?s)\<rparr>)"
    using Suc.prems Suc.hyps(2) later by (intro Suc.hyps(1)) (auto simp: has_data_def cur_def)
  finally show ?case by (simp add: cur_def)
qed

text \<open>A real process whose arrival time lies in the past is never admitted: the clock
  runs away from it and the loop does not return.\<close>

lemma idle_wait_stuck:
  assumes "has_data s" "IS_CPU_IDLE s" "isEmpty (rq s)" "\<not> processId (cur s) > 1000"
    and "arrivalTime (cur s) < SYSTEM_TIME s"
  shows "idle_wait s = None"
proof -
  let ?stuck = "\<lambda>s. has_data s \<and> IS_CPU_IDLE s \<and> isEmpty (rq s) \<and> \<not> processId (cur s) > 1000 \<and>
                    arrivalTime (cur s) < SYSTEM_TIME s"
  have "\<not> ?stuck s" if ret: "idle_wait s = Some r" for r
  proof (rule idle_wait.raw_induct [where P = "\<lambda>s r. \<not> ?stuck s", OF _ ret])
    fix f s r
    assume IH: "\<And>s r. f s = Some r \<Longrightarrow> \<not> ?stuck s"
      and eq: "(if has_data s \<and> IS_CPU_IDLE s \<and> isEmpty (rq s) then
                 (if processId (cur s) > 1000 then f (s\<lparr>data := Suc (data s)\<rparr>)
                  else if arrivalTime (cur s) = SYSTEM_TIME s then
                    f (s\<lparr>IS_CPU_IDLE := False, ref := Some (data s), data := Suc (data s)\<rparr>)
                  else f (s\<lparr>SYSTEM_TIME := SYSTEM_TIME s + 1\<rparr>))
               else Some s) = Some r"
    show "\<not> ?stuck s"
    proof
      assume st: "?stuck s"
      with eq have "f (s\<lparr>SYSTEM_TIME := SYSTEM_TIME s + 1\<rparr>) = Some r" by simp
      from IH [OF this] st show False by (simp add: has_data_def cur_def)
    qed
  qed
  with assms show ?thesis by (cases "idle_wait s") auto
qed

lemmas idle_wait_eval [sched_simps] = idle_wait_exit idle_wait_skip idle_wait_jump idle_wait_stuck

subsection \<open>The idle wait as a run of steps\<close>

lemma idle_reach_wait: "idle_reach s t \<Longrightarrow> idle_wait s = idle_wait t"
proof (induction rule: idle_reach.induct)
  case (skip s t)
  then show ?case by (simp add: idle_wait_skip)
next
  case (admit s t)
  then show ?case by (subst (asm) (2) idle_wait.simps) simp
next
  case (clock s t)
  then show ?case by (subst (asm) (2) idle_wait.simps) simp
qed simp

lemma idle_wait_reach:
  assumes ret: "idle_wait s = Some r"
  shows "idle_reach s r \<and> \<not> (has_data r \<and> IS_CPU_IDLE r \<and> isEmpty (rq r))"
proof -
  let ?P = "\<lambda>t r. \<forall>s. idle_reach s t \<longrightarrow> idle_reach s r \<and> \<not> (has_data r \<and> IS_CPU_IDLE r \<and> isEmpty (rq r))"
  have "?P s r"
  proof (rule idle_wait.raw_induct [where P = ?P, OF _ ret])
    fix f t r
    assume IH: "\<And>t r. f t = Some r \<Longrightarrow> ?P t r"
      and eq: "(if has_data t \<and> IS_CPU_IDLE t \<and> isEmpty (rq t) then
                 (if processId (cur t) > 1000 then f (t\<lparr>data := Suc (data t)\<rparr>)
                  else if arrivalTime (cur t) = SYSTEM_TIME t then
                    f (t\<lparr>IS_CPU_IDLE := False, ref := Some (data t), data := Suc (data t)\<rparr>)
                  else f (t\<lparr>SYSTEM_TIME := SYSTEM_TIME t + 1\<rparr>))
               else Some t) = Some r"
    show "?P t r"
    proof (intro allI impI)
      fix s
      assume st: "idle_reach s t"
      show "idle_reach s r \<and> \<not> (has_data r \<and> IS_CPU_IDLE r \<and> isEmpty (rq r))"
      proof (cases "has_data t \<and> IS_CPU_IDLE t \<and> isEmpty (rq t)")
        case g: True
        show ?thesis
        proof (cases "processId (cur t) > 1000")
          case True
          with g eq have "f (t\<lparr>data := Suc (data t)\<rparr>) = Some r" by simp
          with IH idle_reach.skip [OF st] g True show ?thesis by blast
        next
          case np: False
          show ?thesis
          proof (cases "arrivalTime (cur t) = SYSTEM_TIME t")
            case True
            with g np eq have "f (t\<lparr>IS_CPU_IDLE := False, ref := Some (data t), data := Suc (data t)\<rparr>) = Some r"
              by simp
            with IH idle_reach.admit [OF st] g np True show ?thesis by blast
          next
            case False
            with g np eq have "f (t\<lparr>SYSTEM_TIME := SYSTEM_TIME t + 1\<rparr>) = Some r" by simp
            with IH idle_reach.clock [OF st] g np False show ?thesis by blast
          qed
        qed
      next
        case False
        with eq st show ?thesis by simp
      qed
    qed
  qed
  then show ?thesis
    using idle_reach.start by blast
qed

lemma idle_reach_frame:
  "idle_reach s t \<Longrightarrow>
     procs t = procs s \<and> bq t = bq s \<and> rq t = rq s \<and> quantum t = quantum s \<and>
     SYSTEM_TIME s \<le> SYSTEM_TIME t \<and> data s \<le> data t \<and>
     (ref t = ref s \<and> IS_CPU_IDLE t = IS_CPU_IDLE s \<or>
      \<not> IS_CPU_IDLE t \<and> 0 < data t \<and> ref t = Some (data t - 1) \<and>
      arrivalTime (procs t ! (data t - 1)) = SYSTEM_TIME t)"
  by (induction rule: idle_reach.induct) (auto simp: cur_def)

text \<open>C27: the idle wait either returns with the CPU as it was, or starts exactly the
  record under the cursor, whose arrival time is the clock it stops at; the process list,
  and with it every blocked time, and both queues are left as they were while the clock
  only advances: blocked processes do not age while the idle wait lets time pass.\<close>

theorem idle_wait_frozen:
  assumes "idle_wait s = Some s'"
  shows "procs s' = procs s \<and> bq s' = bq s \<and> rq s' = rq s \<and> SYSTEM_TIME s \<le> SYSTEM_TIME s' \<and>
         (ref s' = ref s \<and> IS_CPU_IDLE s' = IS_CPU_IDLE s \<or>
          0 < data s' \<and> ref s' = Some (data s' - 1) \<and> \<not> IS_CPU_IDLE s' \<and>
          arrivalTime (procs s ! (data s' - 1)) = SYSTEM_TIME s')"
  using idle_reach_frame [OF conjunct1 [OF idle_wait_reach [OF assms]]]
    conjunct2 [OF idle_wait_reach [OF assms]] by auto

lemma stale_reach_shape:
  "idle_reach s t \<Longrightarrow> has_data s \<Longrightarrow> \<not> is_interrupt (cur s) \<Longrightarrow>
     arrivalTime (cur s) < SYSTEM_TIME s \<Longrightarrow>
     t = s\<lparr>SYSTEM_TIME := SYSTEM_TIME t\<rparr> \<and> SYSTEM_TIME s \<le> SYSTEM_TIME t"
proof (induction rule: idle_reach.induct)
  case (start s)
  then show ?case by simp
next
  case (skip s t)
  then have E: "t = s\<lparr>SYSTEM_TIME := SYSTEM_TIME t\<rparr>"
    by blast
  have "cur t = cur s"
    using arg_cong [OF E, of procs] arg_cong [OF E, of data] by (simp add: cur_def)
  with skip show ?case by (simp add: is_interrupt_def)
next
  case (admit s t)
  then have E: "t = s\<lparr>SYSTEM_TIME := SYSTEM_TIME t\<rparr>"
    by blast
  have "cur t = cur s"
    using arg_cong [OF E, of procs] arg_cong [OF E, of data] by (simp add: cur_def)
  with admit show ?case by simp
next
  case (clock s t)
  then have E: "t = s\<lparr>SYSTEM_TIME := SYSTEM_TIME t\<rparr>" "SYSTEM_TIME s \<le> SYSTEM_TIME t"
    by blast+
  have "t\<lparr>SYSTEM_TIME := SYSTEM_TIME t + 1\<rparr> = s\<lparr>SYSTEM_TIME := SYSTEM_TIME t + 1\<rparr>"
    using arg_cong [OF E(1), of "\<lambda>u. u\<lparr>SYSTEM_TIME := SYSTEM_TIME t + 1\<rparr>"] by simp
  with E(2) show ?case
    by simp
qed

text \<open>C25: when the CPU is idle, no process is ready, and the record under the cursor is
  a real process whose arrival time has already passed, the idle wait never admits it and
  never ends: it reaches, for every \<open>k\<close>, the state with the clock \<open>k\<close> ticks later,
  and every state it passes through is the start state with another clock. The C loop thus
  increments \<^verbatim>\<open>SYSTEM_TIME\<close> (line 330) past \<open>INT_MAX\<close>: signed overflow, undefined
  behaviour.\<close>

theorem stale_arrival_runs_clock:
  assumes "has_data s" "IS_CPU_IDLE s" "isEmpty (rq s)" "\<not> is_interrupt (cur s)"
    and "arrivalTime (cur s) < SYSTEM_TIME s"
  shows "idle_reach s (s\<lparr>SYSTEM_TIME := SYSTEM_TIME s + int k\<rparr>) \<and>
         (\<forall>t. idle_reach s t \<longrightarrow> t = s\<lparr>SYSTEM_TIME := SYSTEM_TIME t\<rparr>)"
proof
  show "idle_reach s (s\<lparr>SYSTEM_TIME := SYSTEM_TIME s + int k\<rparr>)"
  proof (induction k)
    case 0
    show ?case using idle_reach.start [of s] by simp
  next
    case (Suc k)
    let ?t = "s\<lparr>SYSTEM_TIME := SYSTEM_TIME s + int k\<rparr>"
    have r: "idle_reach s (?t\<lparr>SYSTEM_TIME := SYSTEM_TIME ?t + 1\<rparr>)"
      by (rule idle_reach.clock [OF Suc]) (use assms in \<open>simp_all add: has_data_def cur_def is_interrupt_def\<close>)
    have e: "?t\<lparr>SYSTEM_TIME := SYSTEM_TIME ?t + 1\<rparr> = s\<lparr>SYSTEM_TIME := SYSTEM_TIME s + int (Suc k)\<rparr>"
      by simp
    show ?case
      using r by (rule subst [OF e])
  qed
  show "\<forall>t. idle_reach s t \<longrightarrow> t = s\<lparr>SYSTEM_TIME := SYSTEM_TIME t\<rparr>"
    using stale_reach_shape assms by blast
qed

declare has_data_def [sched_simps] cur_def [sched_simps] init_sim_def [sched_simps]
  run_dec_def [sched_simps] age_def [sched_simps] finish_def [sched_simps] take_cpu_def [sched_simps]
  block_request_def [sched_simps] complete_running_def [sched_simps] dispatch_def [sched_simps]
  release_step_def [sched_simps] advance_def [sched_simps] loop_cond_def [sched_simps]
  np_tick_def [sched_simps] sched_loop.simps [sched_simps] np_arrivals.simps [sched_simps]

definition fcfs :: "node list \<Rightarrow> (sched_error + sim) option" where
  "fcfs ps = sched_loop (np_tick (\<lambda>ps. enqueue)) (init_sim ps 0)"

definition sjf :: "node list \<Rightarrow> (sched_error + sim) option" where
  "sjf ps = sched_loop (np_tick priorityEnqueue) (init_sim ps 0)"

declare fcfs_def [sched_simps] sjf_def [sched_simps]

end
