(* ===== verification/Engine_Inv.thy ===== *)
theory Engine_Inv
  imports Engine
begin

text \<open>
  The invariant of the tick loop of \<^verbatim>\<open>fcfs\<close> and \<^verbatim>\<open>sjf\<close> and its preservation,
  piece by piece, in the order of the loop body. \<open>owned s\<close> lists the processes the
  engine holds: the running one, the ready queue and the blocked queue. The invariant
  says that the cursor stays in the list, that \<^verbatim>\<open>IS_CPU_IDLE\<close> is set exactly when
  \<^verbatim>\<open>ref\<close> is NULL, that every admitted real process is held exactly once or has
  terminated, that nothing is held twice and no block request is ever held, and that a
  terminated process has no time left and carries a completion and a turnaround time
  that agree. The ready-queue insertion is a parameter \<open>enq\<close>; the loop needs of it
  only that it adds its argument to the queue (\<open>enq_ok\<close>), which \<open>enqueue\<close> and
  \<open>priorityEnqueue\<close> both do.
\<close>

definition owned :: "sim \<Rightarrow> ptr list" where
  "owned s = opt_list (ref s) @ rq s @ bq s"

definition finished_ok :: "node \<Rightarrow> bool" where
  "finished_ok n \<longleftrightarrow> remainingTime n = 0 \<and>
     (\<exists>c. completionTime n = Some c \<and> turnAroundTime n = Some (c - arrivalTime n))"

definition sim_inv :: "sim \<Rightarrow> bool" where
  "sim_inv s \<longleftrightarrow>
     data s \<le> length (procs s) \<and>
     (IS_CPU_IDLE s \<longleftrightarrow> ref s = None) \<and>
     distinct (owned s) \<and>
     (\<forall>i \<in> set (owned s). i < data s \<and> \<not> is_interrupt (procs s ! i) \<and> \<not> isTerminated (procs s ! i)) \<and>
     (\<forall>i < data s. \<not> is_interrupt (procs s ! i) \<longrightarrow> isTerminated (procs s ! i) \<or> i \<in> set (owned s)) \<and>
     (\<forall>i < length (procs s). isTerminated (procs s ! i) \<longrightarrow> i < data s \<and> finished_ok (procs s ! i))"

definition enq_ok :: "(node list \<Rightarrow> ptr list \<Rightarrow> ptr \<Rightarrow> ptr list) \<Rightarrow> bool" where
  "enq_ok enq \<longleftrightarrow> (\<forall>ps q d. mset (enq ps q d) = add_mset d (mset q))"

definition static :: "node \<Rightarrow> int \<times> int \<times> int" where
  "static n = (processId n, arrivalTime n, burstTime n)"

subsection \<open>The interface: both insertions add their argument\<close>

lemma enq_ok_enqueue [sched_inv]: "enq_ok (\<lambda>ps. enqueue)"
  by (simp add: enq_ok_def)

lemma enq_ok_priorityEnqueue [sched_inv]: "enq_ok priorityEnqueue"
  by (simp add: enq_ok_def)

lemma release_mset:
  "enq_ok enq \<Longrightarrow> release enq ps b q = (b', q') \<Longrightarrow> mset b' + mset q' = mset b + mset q"
  by (induction enq ps b q rule: release.induct) (auto simp: enq_ok_def split: if_splits)

subsection \<open>Generic preservation rules\<close>

lemma owned_simps [simp]:
  "owned (s\<lparr>procs := ps\<rparr>) = owned s" "owned (s\<lparr>SYSTEM_TIME := t\<rparr>) = owned s"
  "owned (s\<lparr>data := d\<rparr>) = owned s"
  by (simp_all add: owned_def)

lemma sim_inv_perm:
  assumes "sim_inv s" "procs s' = procs s" "data s' = data s"
    and "mset (owned s') = mset (owned s)" "IS_CPU_IDLE s' \<longleftrightarrow> ref s' = None"
  shows "sim_inv s'"
  using assms mset_eq_distinct_set [OF assms(4)] unfolding sim_inv_def by simp

lemma sim_inv_admit:
  assumes "sim_inv s" "has_data s" "\<not> is_interrupt (cur s)" "procs s' = procs s"
    and "data s' = Suc (data s)" "mset (owned s') = add_mset (data s) (mset (owned s))"
    and "IS_CPU_IDLE s' \<longleftrightarrow> ref s' = None"
  shows "sim_inv s'"
proof -
  have set': "set (owned s') = insert (data s) (set (owned s))"
    by (metis assms(6) set_mset_add_mset_insert set_mset_mset)
  have "distinct (owned s') \<longleftrightarrow> distinct (data s # owned s)"
    by (rule mset_eq_imp_distinct_iff) (simp add: assms(6))
  with assms set' show ?thesis
    unfolding sim_inv_def has_data_def cur_def by (auto simp: less_Suc_eq)
qed

lemma sim_inv_skip:
  "sim_inv s \<Longrightarrow> has_data s \<Longrightarrow> is_interrupt (cur s) \<Longrightarrow> sim_inv (s\<lparr>data := Suc (data s)\<rparr>)"
  unfolding sim_inv_def has_data_def cur_def by (auto simp: less_Suc_eq)

text \<open>A field update through a held pointer keeps the invariant when it touches
  neither the identity nor the termination flag: only non-terminated blocks change.\<close>

lemma sim_inv_modify:
  assumes inv: "sim_inv s" and i: "i \<in> set (owned s)"
    and pid: "\<And>n. processId (f n) = processId n" and trm: "\<And>n. isTerminated (f n) = isTerminated n"
  shows "sim_inv (s\<lparr>procs := modify (procs s) i f\<rparr>)"
proof -
  let ?ps = "modify (procs s) i f"
  have len: "data s \<le> length (procs s)" and live: "\<not> isTerminated (procs s ! i)"
    and "i < data s"
    using inv i unfolding sim_inv_def by auto
  then have iL: "i < length (procs s)" by simp
  have int: "is_interrupt (?ps ! j) = is_interrupt (procs s ! j)" for j
    using iL pid by (cases "i = j") (auto simp: is_interrupt_def)
  have tflag: "isTerminated (?ps ! j) = isTerminated (procs s ! j)" for j
    using iL trm by (cases "i = j") auto
  have same: "?ps ! j = procs s ! j" if "isTerminated (procs s ! j)" for j
    using that live by (cases "i = j") auto
  show ?thesis
    using inv unfolding sim_inv_def by (simp del: nth_modify add: int tflag same)
qed

lemma sim_inv_modify_all:
  assumes "sim_inv s" "set xs \<subseteq> set (owned s)"
    and "\<And>n. processId (f n) = processId n" "\<And>n. isTerminated (f n) = isTerminated n"
  shows "sim_inv (s\<lparr>procs := fold (\<lambda>i ps. modify ps i f) xs (procs s)\<rparr>)"
  using assms(1,2)
proof (induction xs arbitrary: s)
  case (Cons x xs)
  let ?s = "s\<lparr>procs := modify (procs s) x f\<rparr>"
  have "sim_inv ?s"
    using Cons.prems by (intro sim_inv_modify assms(3,4)) auto
  then have "sim_inv (?s\<lparr>procs := fold (\<lambda>i ps. modify ps i f) xs (procs ?s)\<rparr>)"
    using Cons.prems by (intro Cons.IH) auto
  then show ?case by simp
qed simp

lemma sim_inv_finish:
  assumes inv: "sim_inv s" and r: "ref s = Some r" and rem: "remainingTime (procs s ! r) = 0"
  shows "sim_inv (s\<lparr>procs := finish (procs s) r t, IS_CPU_IDLE := True, ref := None\<rparr>)"
proof -
  let ?ps = "finish (procs s) r t"
  let ?s = "s\<lparr>procs := ?ps, IS_CPU_IDLE := True, ref := None\<rparr>"
  have rd: "r < data s" and len: "data s \<le> length (procs s)" and rq: "r \<notin> set (rq s @ bq s)"
    and dist: "distinct (rq s @ bq s)" and real: "\<not> is_interrupt (procs s ! r)"
    using inv r unfolding sim_inv_def owned_def by auto
  then have rL: "r < length (procs s)" by simp
  have int: "is_interrupt (?ps ! j) = is_interrupt (procs s ! j)" for j
    using rL by (cases "r = j") (auto simp: is_interrupt_def finish_def)
  have tflag: "isTerminated (?ps ! j) \<longleftrightarrow> j = r \<or> isTerminated (procs s ! j)" if "j < length (procs s)" for j
    using rL that by (cases "r = j") (auto simp: finish_def)
  have other: "?ps ! j = procs s ! j" if "j \<noteq> r" for j
    using that by (simp add: finish_def)
  have done_r: "finished_ok (?ps ! r)"
    using rL rem by (simp add: finish_def finished_ok_def)
  have owned': "owned ?s = rq s @ bq s"
    by (simp add: owned_def)
  have held: "?ps ! i = procs s ! i" if "i \<in> set (rq s @ bq s)" for i
    using that rq other by metis
  have "\<forall>i \<in> set (owned ?s). i < data s \<and> \<not> is_interrupt (?ps ! i) \<and> \<not> isTerminated (?ps ! i)"
    using inv held unfolding owned' sim_inv_def owned_def by auto
  moreover have "\<forall>i < data s. \<not> is_interrupt (?ps ! i) \<longrightarrow> isTerminated (?ps ! i) \<or> i \<in> set (owned ?s)"
    using inv len r unfolding owned' sim_inv_def owned_def by (auto simp: int tflag)
  moreover have "\<forall>i < length (procs s). isTerminated (?ps ! i) \<longrightarrow> i < data s \<and> finished_ok (?ps ! i)"
  proof (intro allI impI)
    fix i
    assume "i < length (procs s)" "isTerminated (?ps ! i)"
    then show "i < data s \<and> finished_ok (?ps ! i)"
      using inv rd done_r other [of i] tflag [of i] by (cases "i = r") (auto simp: sim_inv_def)
  qed
  ultimately show ?thesis
    using inv dist unfolding sim_inv_def owned' by simp
qed

subsection \<open>Each piece of the tick keeps the invariant\<close>

lemma sim_inv_run_dec [sched_inv]: "sim_inv s \<Longrightarrow> sim_inv (run_dec s)"
  by (auto simp: run_dec_def owned_def intro: sim_inv_modify split: option.split)

lemma sim_inv_age [sched_inv]: "sim_inv s \<Longrightarrow> sim_inv (age s)"
  unfolding age_def deduct_def by (auto simp: owned_def intro: sim_inv_modify_all)

lemma sim_inv_idle_wait [sched_inv]:
  assumes ret: "idle_wait s = Some s'" and inv: "sim_inv s"
  shows "sim_inv s'"
proof -
  have "sim_inv s \<longrightarrow> sim_inv s'"
  proof (rule idle_wait.raw_induct [where P = "\<lambda>s s'. sim_inv s \<longrightarrow> sim_inv s'", OF _ ret])
    fix f s s'
    assume IH: "\<And>s s'. f s = Some s' \<Longrightarrow> sim_inv s \<longrightarrow> sim_inv s'"
      and eq: "(if has_data s \<and> IS_CPU_IDLE s \<and> isEmpty (rq s) then
                 (if processId (cur s) > 1000 then f (s\<lparr>data := Suc (data s)\<rparr>)
                  else if arrivalTime (cur s) = SYSTEM_TIME s then
                    f (s\<lparr>IS_CPU_IDLE := False, ref := Some (data s), data := Suc (data s)\<rparr>)
                  else f (s\<lparr>SYSTEM_TIME := SYSTEM_TIME s + 1\<rparr>))
               else Some s) = Some s'"
    show "sim_inv s \<longrightarrow> sim_inv s'"
    proof
      assume si: "sim_inv s"
      show "sim_inv s'"
      proof (cases "has_data s \<and> IS_CPU_IDLE s \<and> isEmpty (rq s)")
        case guard: True
        show ?thesis
        proof (cases "processId (cur s) > 1000")
          case True
          with guard si have "sim_inv (s\<lparr>data := Suc (data s)\<rparr>)"
            by (intro sim_inv_skip) (auto simp: is_interrupt_def)
          moreover have "f (s\<lparr>data := Suc (data s)\<rparr>) = Some s'"
            using guard True eq by simp
          ultimately show ?thesis using IH by blast
        next
          case real: False
          show ?thesis
          proof (cases "arrivalTime (cur s) = SYSTEM_TIME s")
            case True
            have "ref s = None"
              using guard si by (simp add: sim_inv_def)
            then have "sim_inv (s\<lparr>IS_CPU_IDLE := False, ref := Some (data s), data := Suc (data s)\<rparr>)"
              using guard real si
              by (rule_tac sim_inv_admit [of s]) (simp_all add: is_interrupt_def owned_def)
            moreover have "f (s\<lparr>IS_CPU_IDLE := False, ref := Some (data s), data := Suc (data s)\<rparr>) = Some s'"
              using guard real True eq by simp
            ultimately show ?thesis using IH by blast
          next
            case False
            have "sim_inv (s\<lparr>SYSTEM_TIME := SYSTEM_TIME s + 1\<rparr>)"
              using si by (simp add: sim_inv_def owned_def)
            moreover have "f (s\<lparr>SYSTEM_TIME := SYSTEM_TIME s + 1\<rparr>) = Some s'"
              using guard real False eq by simp
            ultimately show ?thesis using IH by blast
          qed
        qed
      next
        case False
        with eq si show ?thesis by simp
      qed
    qed
  qed
  with inv show ?thesis by simp
qed

lemma idle_wait_frame:
  assumes ret: "idle_wait s = Some s'"
  shows "procs s' = procs s \<and> rq s' = rq s \<and> bq s' = bq s"
proof -
  have "procs s' = procs s \<and> rq s' = rq s \<and> bq s' = bq s"
  proof (rule idle_wait.raw_induct [where P = "\<lambda>s s'. procs s' = procs s \<and> rq s' = rq s \<and> bq s' = bq s", OF _ ret])
    fix f s s'
    assume IH: "\<And>s s'. f s = Some s' \<Longrightarrow> procs s' = procs s \<and> rq s' = rq s \<and> bq s' = bq s"
      and eq: "(if has_data s \<and> IS_CPU_IDLE s \<and> isEmpty (rq s) then
                 (if processId (cur s) > 1000 then f (s\<lparr>data := Suc (data s)\<rparr>)
                  else if arrivalTime (cur s) = SYSTEM_TIME s then
                    f (s\<lparr>IS_CPU_IDLE := False, ref := Some (data s), data := Suc (data s)\<rparr>)
                  else f (s\<lparr>SYSTEM_TIME := SYSTEM_TIME s + 1\<rparr>))
               else Some s) = Some s'"
    from eq show "procs s' = procs s \<and> rq s' = rq s \<and> bq s' = bq s"
      by (auto split: if_splits dest: IH)
  qed
  then show ?thesis .
qed

subsection \<open>Fields that no step writes\<close>

lemma static_modify:
  "(\<And>n. static (f n) = static n) \<Longrightarrow> map static (modify ps i f) = map static ps"
  by (rule map_modify_eq)

lemma static_finish [simp]: "map static (finish ps r t) = map static ps"
  unfolding finish_def by (rule static_modify) (simp add: static_def)

lemma static_deduct [simp]: "map static (deduct ps q) = map static ps"
  by (rule map_deduct_eq) (simp add: static_def)

lemma take_cpu_facts [simp]:
  "procs (take_cpu s) = procs s" "data (take_cpu s) = data s"
  "mset (owned (take_cpu s)) = mset (rq s) + mset (bq s)"
  "IS_CPU_IDLE (take_cpu s) \<longleftrightarrow> ref (take_cpu s) = None"
  by (auto simp: take_cpu_def owned_def dequeue_def split: list.split)

lemma sim_inv_block_request [sched_inv]:
  assumes inv: "sim_inv s" and busy: "\<not> IS_CPU_IDLE s"
  shows "\<exists>s'. block_request s = Inr s' \<and> sim_inv s' \<and> data s' = data s \<and>
               map static (procs s') = map static (procs s)"
proof -
  obtain r where r: "ref s = Some r"
    using inv busy by (auto simp: sim_inv_def)
  have rin: "r \<in> set (owned s)"
    using r by (simp add: owned_def)
  show ?thesis
  proof (cases "remainingTime (procs s ! r) = 0")
    case True
    let ?s1 = "s\<lparr>procs := finish (procs s) r (SYSTEM_TIME s), IS_CPU_IDLE := True, ref := None\<rparr>"
    have i1: "sim_inv ?s1"
      by (rule sim_inv_finish [OF inv r True])
    have m1: "mset (owned (take_cpu ?s1)) = mset (owned ?s1)"
      by (simp add: owned_def [of ?s1])
    have "sim_inv (take_cpu ?s1)"
      using sim_inv_perm [OF i1 _ _ m1] by simp
    then show ?thesis
      using r True by (simp add: block_request_def)
  next
    case False
    let ?ps = "modify (procs s) r (\<lambda>n. n\<lparr>blockedTime := burstTime (cur s)\<rparr>)"
    let ?s2 = "s\<lparr>procs := ?ps, bq := priorityBlock ?ps (bq s) r, IS_CPU_IDLE := True\<rparr>"
    have i1: "sim_inv (s\<lparr>procs := ?ps\<rparr>)"
      using inv rin by (rule sim_inv_modify) simp_all
    have m1: "mset (owned (take_cpu ?s2)) = mset (owned (s\<lparr>procs := ?ps\<rparr>))"
      by (simp add: owned_def [of s] r)
    have "sim_inv (take_cpu ?s2)"
      using sim_inv_perm [OF i1 _ _ m1] by simp
    moreover have "map static ?ps = map static (procs s)"
      by (rule static_modify) (simp add: static_def)
    ultimately show ?thesis
      using r False by (simp add: block_request_def Let_def)
  qed
qed

lemma static_nth:
  "map static ps' = map static ps \<Longrightarrow> i < length ps \<Longrightarrow>
     processId (ps' ! i) = processId (ps ! i) \<and> arrivalTime (ps' ! i) = arrivalTime (ps ! i) \<and>
     burstTime (ps' ! i) = burstTime (ps ! i)"
  by (metis (no_types, lifting) length_map nth_map prod.inject static_def)

lemma sim_inv_np_arrivals [sched_inv]:
  "enq_ok enq \<Longrightarrow> sim_inv s \<Longrightarrow> \<exists>s'. np_arrivals enq s = Inr s' \<and> sim_inv s' \<and>
                               map static (procs s') = map static (procs s)"
proof (induction enq s rule: np_arrivals.induct)
  case (1 enq s)
  show ?case
  proof (cases "has_data s \<and> SYSTEM_TIME s = arrivalTime (cur s) \<and> \<not> IS_CPU_IDLE s")
    case guard: True
    show ?thesis
    proof (cases "processId (cur s) > 1000")
      case True
      obtain s' where bs: "block_request s = Inr s'" "sim_inv s'" "data s' = data s"
        and st: "map static (procs s') = map static (procs s)"
        using sim_inv_block_request [OF "1.prems"(2)] guard by blast
      have "processId (cur s') = processId (cur s)"
        using static_nth [OF st] guard bs(3) by (simp add: has_data_def cur_def)
      then have "sim_inv (s'\<lparr>data := Suc (data s')\<rparr>)"
        using bs guard True st
        by (intro sim_inv_skip) (auto simp: is_interrupt_def has_data_def dest: arg_cong [of _ _ length])
      then obtain s'' where "np_arrivals enq (s'\<lparr>data := Suc (data s')\<rparr>) = Inr s''" "sim_inv s''"
          "map static (procs s'') = map static (procs s')"
        using "1.IH"(1) [OF guard True bs(1) "1.prems"(1)] by auto
      then show ?thesis
        using guard True bs st by (subst np_arrivals.simps) simp
    next
      case False
      let ?s = "s\<lparr>rq := enq (procs s) (rq s) (data s), data := Suc (data s)\<rparr>"
      have "mset (owned ?s) = add_mset (data s) (mset (owned s))"
        using "1.prems"(1) by (simp add: owned_def enq_ok_def)
      then have "sim_inv ?s"
        using "1.prems"(2) guard False
        by (rule_tac sim_inv_admit [of s]) (auto simp: is_interrupt_def sim_inv_def)
      then obtain s'' where "np_arrivals enq ?s = Inr s''" "sim_inv s''"
          "map static (procs s'') = map static (procs ?s)"
        using "1.IH"(2) [OF guard False "1.prems"(1)] by auto
      then show ?thesis
        using guard False by (subst np_arrivals.simps) simp
    qed
  next
    case False
    then have "np_arrivals enq s = Inr s"
      by (subst np_arrivals.simps) (rule if_not_P)
    with "1.prems" show ?thesis by simp
  qed
qed

lemma sim_inv_complete_running [sched_inv]:
  "sim_inv s \<Longrightarrow> sim_inv (complete_running s)"
  by (auto simp: complete_running_def intro: sim_inv_finish split: option.split)

lemma sim_inv_dispatch [sched_inv]:
  assumes inv: "sim_inv s"
  shows "sim_inv (dispatch s)"
proof (cases "IS_CPU_IDLE s \<and> rq s \<noteq> []")
  case True
  then obtain h t where q: "rq s = h # t" and idle: "IS_CPU_IDLE s"
    by (cases "rq s") auto
  then have "ref s = None"
    using inv by (simp add: sim_inv_def)
  then have "mset (owned (s\<lparr>ref := Some h, rq := t, IS_CPU_IDLE := False\<rparr>)) = mset (owned s)"
    using q by (simp add: owned_def)
  from sim_inv_perm [OF inv _ _ this] show ?thesis
    using q idle by (simp add: dispatch_def dequeue_def)
next
  case False
  with inv show ?thesis by (auto simp: dispatch_def dequeue_def split: list.split)
qed

lemma sim_inv_release_step [sched_inv]:
  assumes inv: "sim_inv s" and enq: "enq_ok enq"
  shows "sim_inv (release_step enq s)"
proof -
  obtain b' q' where rel: "release enq (procs s) (bq s) (rq s) = (b', q')"
    by fastforce
  have "mset (owned (s\<lparr>bq := b', rq := q'\<rparr>)) = mset (owned s)"
    using release_mset [OF enq rel] by (simp add: owned_def ac_simps)
  from sim_inv_perm [OF inv _ _ this] show ?thesis
    using inv rel by (simp add: release_step_def sim_inv_def)
qed

lemma sim_inv_advance [sched_inv]: "sim_inv s \<Longrightarrow> sim_inv (advance s)"
  by (simp add: advance_def sim_inv_def owned_def)

lemma static_tick_tail:
  "map static (procs (advance (release_step enq (dispatch (complete_running s))))) = map static (procs s)"
  by (auto simp: advance_def release_step_def dispatch_def complete_running_def
           split: option.split prod.split)

lemma static_run_dec_age:
  "map static (procs (age (run_dec s))) = map static (procs s)"
  by (auto simp: age_def run_dec_def static_def intro!: static_modify split: option.split)

text \<open>One tick of \<^verbatim>\<open>fcfs\<close> or \<^verbatim>\<open>sjf\<close> from a state satisfying the invariant
  either does not return (the idle wait runs away) or returns a state satisfying it:
  it never ends in a NULL dereference.\<close>

lemma sim_inv_np_tick [sched_inv]:
  assumes inv: "sim_inv s" and enq: "enq_ok enq" and tick: "np_tick enq s = Some r"
  shows "\<exists>s'. r = Inr s' \<and> sim_inv s' \<and> map static (procs s') = map static (procs s)"
proof -
  obtain s3 where iw: "idle_wait (age (run_dec s)) = Some s3"
    using tick by (auto simp: np_tick_def split: option.splits)
  have i3: "sim_inv s3"
    using iw by (rule sim_inv_idle_wait) (intro sim_inv_age sim_inv_run_dec inv)
  have st3: "map static (procs s3) = map static (procs s)"
    using idle_wait_frame [OF iw] static_run_dec_age by simp
  obtain s4 where ar: "np_arrivals enq s3 = Inr s4" and i4: "sim_inv s4"
    and st4: "map static (procs s4) = map static (procs s3)"
    using sim_inv_np_arrivals [OF enq i3] by blast
  have "r = Inr (advance (release_step enq (dispatch (complete_running s4))))"
    using tick iw ar by (simp add: np_tick_def)
  moreover have "sim_inv (advance (release_step enq (dispatch (complete_running s4))))"
    using i4 enq by (intro sim_inv_advance sim_inv_release_step sim_inv_dispatch sim_inv_complete_running)
  ultimately show ?thesis
    using st3 st4 static_tick_tail by auto
qed

subsection \<open>The whole loop\<close>

text \<open>Any property that every tick keeps holds when the loop returns, and the loop
  condition is then false.\<close>

lemma sched_loop_inv:
  assumes ret: "sched_loop tick s = Some r" and P: "P s"
    and step: "\<And>s r. P s \<Longrightarrow> loop_cond s \<Longrightarrow> tick s = Some r \<Longrightarrow> \<exists>s'. r = Inr s' \<and> P s'"
  shows "\<exists>s'. r = Inr s' \<and> P s' \<and> \<not> loop_cond s'"
proof -
  let ?Q = "\<lambda>tk s r. tk = tick \<longrightarrow> P s \<longrightarrow> (\<exists>s'. r = Inr s' \<and> P s' \<and> \<not> loop_cond s')"
  have "?Q tick s r"
  proof (rule sched_loop.raw_induct [where P = ?Q, OF _ ret])
    fix f tk s r
    assume IH: "\<And>tk s r. f tk s = Some r \<Longrightarrow> ?Q tk s r"
      and eq: "(if loop_cond s then
                 (case tk s of None \<Rightarrow> None | Some (Inl e) \<Rightarrow> Some (Inl e) | Some (Inr s') \<Rightarrow> f tk s')
               else Some (Inr s)) = Some r"
    show "?Q tk s r"
    proof (intro impI)
      assume tk: "tk = tick" and ps: "P s"
      show "\<exists>s'. r = Inr s' \<and> P s' \<and> \<not> loop_cond s'"
      proof (cases "loop_cond s")
        case False
        with eq ps show ?thesis by auto
      next
        case True
        with eq obtain x where tx: "tk s = Some x"
          by (cases "tk s") auto
        with step [OF ps True] tk obtain s' where x: "x = Inr s'" "P s'"
          by blast
        with True eq tx have "f tk s' = Some r"
          by simp
        from IH [OF this] tk x show ?thesis
          by blast
      qed
    qed
  qed
  with P show ?thesis by simp
qed

text \<open>The same for a loop whose ticks may stop with an error: a property kept by
  every tick that returns normally holds when the loop returns normally.\<close>

lemma sched_loop_inv_ok:
  assumes ret: "sched_loop tick s = Some (Inr r)" and P: "P s"
    and step: "\<And>s s'. P s \<Longrightarrow> loop_cond s \<Longrightarrow> tick s = Some (Inr s') \<Longrightarrow> P s'"
  shows "P r \<and> \<not> loop_cond r"
proof -
  let ?Q = "\<lambda>tk s x. tk = tick \<longrightarrow> P s \<longrightarrow> x = (Inr r :: sched_error + sim) \<longrightarrow> P r \<and> \<not> loop_cond r"
  have "?Q tick s (Inr r)"
  proof (rule sched_loop.raw_induct [where P = ?Q, OF _ ret])
    fix f tk s x
    assume IH: "\<And>tk s x. f tk s = Some x \<Longrightarrow> ?Q tk s x"
      and eq: "(if loop_cond s then
                 (case tk s of None \<Rightarrow> None | Some (Inl e) \<Rightarrow> Some (Inl e) | Some (Inr s') \<Rightarrow> f tk s')
               else Some (Inr s)) = Some x"
    show "?Q tk s x"
    proof (intro impI)
      assume tk: "tk = tick" and ps: "P s" and x: "x = Inr r"
      show "P r \<and> \<not> loop_cond r"
      proof (cases "loop_cond s")
        case False
        with eq ps x show ?thesis by auto
      next
        case True
        with eq x obtain s' where tx: "tk s = Some (Inr s')" and fs: "f tk s' = Some x"
          by (auto split: option.splits sum.splits)
        have "P s'"
          using step [OF ps True] tx tk by simp
        with IH [OF fs] tk x show ?thesis
          by blast
      qed
    qed
  qed
  with P show ?thesis by simp
qed

lemma sim_inv_init:
  "(\<forall>n \<in> set ps. \<not> isTerminated n) \<Longrightarrow> sim_inv (init_sim ps tq)"
  by (auto simp: sim_inv_def init_sim_def owned_def)

lemma sim_inv_final:
  assumes "sim_inv s" "\<not> loop_cond s" "i < length (procs s)" "\<not> is_interrupt (procs s ! i)"
  shows "isTerminated (procs s ! i) \<and> finished_ok (procs s ! i)"
  using assms unfolding sim_inv_def loop_cond_def has_data_def isEmpty_def owned_def by auto

lemma np_run:
  assumes enq: "enq_ok enq" and fresh: "\<forall>n \<in> set ps. \<not> isTerminated n"
    and ret: "sched_loop (np_tick enq) (init_sim ps tq) = Some r"
  shows "\<exists>s. r = Inr s \<and> sim_inv s \<and> \<not> loop_cond s \<and> map static (procs s) = map static ps"
proof -
  let ?P = "\<lambda>s. sim_inv s \<and> map static (procs s) = map static ps"
  have "?P (init_sim ps tq)"
    using fresh by (simp add: sim_inv_init) (simp add: init_sim_def)
  from sched_loop_inv [where P = ?P, OF ret this] show ?thesis
    using sim_inv_np_tick [OF _ enq] by fastforce
qed

subsection \<open>Results for the non-preemptive policies\<close>

text \<open>C2: neither \<^verbatim>\<open>fcfs\<close> nor \<^verbatim>\<open>sjf\<close> ever dereferences a NULL pointer: on
  any loaded input each of them either runs forever or returns normally.\<close>

theorem np_no_crash: "fcfs (input recs) \<noteq> Some (Inl e) \<and> sjf (input recs) \<noteq> Some (Inl e)"
  using np_run [OF enq_ok_enqueue, of "input recs" 0] np_run [OF enq_ok_priorityEnqueue, of "input recs" 0]
    input_fresh
  by (auto simp: fcfs_def sjf_def)

text \<open>C1: when \<^verbatim>\<open>fcfs\<close> or \<^verbatim>\<open>sjf\<close> (whose ready queue is kept by
  \<^verbatim>\<open>priorityEnqueue\<close>) returns, every real process of the input has terminated with
  no time left, its completion and turnaround times are set and agree
  (turnaround = completion - arrival), and no identity, arrival or burst time was
  changed.\<close>

theorem np_completes_all:
  assumes "fcfs (input recs) = Some (Inr s) \<or> sjf (input recs) = Some (Inr s)"
  shows "map static (procs s) = map static (input recs) \<and>
         (\<forall>i < length (procs s). \<not> is_interrupt (procs s ! i) \<longrightarrow>
            isTerminated (procs s ! i) \<and> finished_ok (procs s ! i))"
  using assms
proof
  assume r: "fcfs (input recs) = Some (Inr s)"
  show ?thesis
    using np_run [OF enq_ok_enqueue _ r [unfolded fcfs_def]] input_fresh sim_inv_final by blast
next
  assume r: "sjf (input recs) = Some (Inr s)"
  show ?thesis
    using np_run [OF enq_ok_priorityEnqueue _ r [unfolded sjf_def]] input_fresh sim_inv_final by blast
qed

text \<open>One tick of \<^verbatim>\<open>fcfs\<close> or \<^verbatim>\<open>sjf\<close> once the input is exhausted, on a running
  process with no time left: the completion check (remaining time 0) misses it, it runs
  one more unit and the clock advances.\<close>

lemma exhausted_tick:
  assumes q: "\<not> has_data t" "ref t = Some r" "r < length (procs t)"
    "remainingTime (procs t ! r) \<le> 0" "\<not> IS_CPU_IDLE t"
  shows "loop_cond t \<and>
         (\<exists>t'. np_tick enq t = Some (Inr t') \<and> \<not> has_data t' \<and> ref t' = Some r \<and>
            r < length (procs t') \<and> remainingTime (procs t' ! r) = remainingTime (procs t ! r) - 1 \<and>
            \<not> IS_CPU_IDLE t' \<and> SYSTEM_TIME t' = SYSTEM_TIME t + 1)"
proof -
  let ?t1 = "age (run_dec t)"
  have t1: "\<not> has_data ?t1" "ref ?t1 = Some r" "r < length (procs ?t1)" "\<not> IS_CPU_IDLE ?t1"
    "remainingTime (procs ?t1 ! r) = remainingTime (procs t ! r) - 1"
    "SYSTEM_TIME ?t1 = SYSTEM_TIME t"
    using q by (auto simp: run_dec_def age_def has_data_def)
  then have "idle_wait ?t1 = Some ?t1"
    by (simp add: idle_wait_exit)
  moreover have "np_arrivals enq ?t1 = Inr ?t1"
    using t1 by (subst np_arrivals.simps) (simp add: has_data_def)
  moreover have "complete_running ?t1 = ?t1" "dispatch ?t1 = ?t1"
    using t1 q(4) by (simp_all add: complete_running_def dispatch_def)
  ultimately show ?thesis
    using q t1 by (simp add: np_tick_def loop_cond_def advance_def release_step_def has_data_def
      split: prod.split)
qed

end
