(* ===== verification/Srtn.thy ===== *)
theory Srtn
  imports Engine
begin

text \<open>
  \<^verbatim>\<open>sjfPreempt\<close> (lines 470--557 of \<^verbatim>\<open>src/cpu_scheduling.c\<close>), shortest remaining
  time next. Its loop body is the one of \<^verbatim>\<open>sjf\<close> with two changes: an arriving process
  is followed by the preemption check (lines 518--525), and so is every process released
  from the blocked queue (lines 544--553). The check compares the running process with
  the head of the ready queue and, when the running process has strictly more time
  left, puts it back into the ready queue and takes the head. The check reads
  \<^verbatim>\<open>ref->remainingTime\<close> without testing \<^verbatim>\<open>ref\<close>: in the release loop the CPU may be
  idle, and the model returns \<open>NullDeref\<close> there.
\<close>

definition srtn_preempt :: "sim \<Rightarrow> sched_error + sim" where
  "srtn_preempt s =
     (case ref s of
        None \<Rightarrow> Inl NullDeref
      | Some r \<Rightarrow>
          (case rq s of
             [] \<Rightarrow> Inl NullDeref
           | h # _ \<Rightarrow>
               if remainingTime (procs s ! r) > remainingTime (procs s ! h) then
                 (case dequeue (priorityEnqueue (procs s) (rq s) r) of
                    None \<Rightarrow> Inl NullDeref
                  | Some (h', q) \<Rightarrow> Inr (s\<lparr>ref := Some h', rq := q\<rparr>))
               else Inr s))"

lemma srtn_preempt_frame:
  "srtn_preempt s = Inr s' \<Longrightarrow>
     procs s' = procs s \<and> data s' = data s \<and> bq s' = bq s \<and> SYSTEM_TIME s' = SYSTEM_TIME s \<and>
     IS_CPU_IDLE s' = IS_CPU_IDLE s"
  by (auto simp: srtn_preempt_def split: option.splits list.splits if_splits)

text \<open>Lines 492--528: the arrival loop of \<^verbatim>\<open>sjfPreempt\<close>.\<close>

function srtn_arrivals :: "sim \<Rightarrow> sched_error + sim" where
  "srtn_arrivals s =
     (if has_data s \<and> SYSTEM_TIME s = arrivalTime (cur s) \<and> \<not> IS_CPU_IDLE s then
        (if processId (cur s) > 1000 then
           (case block_request s of
              Inl e \<Rightarrow> Inl e
            | Inr s' \<Rightarrow> srtn_arrivals (s'\<lparr>data := Suc (data s')\<rparr>))
         else
           (case srtn_preempt (s\<lparr>rq := priorityEnqueue (procs s) (rq s) (data s)\<rparr>) of
              Inl e \<Rightarrow> Inl e
            | Inr s' \<Rightarrow> srtn_arrivals (s'\<lparr>data := Suc (data s')\<rparr>)))
      else Inr s)"
  by pat_completeness auto
termination
  by (relation "measure (\<lambda>s. length (procs s) - data s)")
     (auto simp: has_data_def dest!: block_request_frame srtn_preempt_frame)

declare srtn_arrivals.simps [simp del]

text \<open>Lines 544--553: the release loop of \<^verbatim>\<open>sjfPreempt\<close>.\<close>

function srtn_release :: "sim \<Rightarrow> sched_error + sim" where
  "srtn_release s =
     (case bq s of
        [] \<Rightarrow> Inr s
      | b # bs \<Rightarrow>
          if blockedTime (procs s ! b) = 0 then
            (case srtn_preempt (s\<lparr>bq := bs, rq := priorityEnqueue (procs s) (rq s) b\<rparr>) of
               Inl e \<Rightarrow> Inl e
             | Inr s' \<Rightarrow> srtn_release s')
          else Inr s)"
  by pat_completeness auto
termination
  by (relation "measure (\<lambda>s. length (bq s))") (auto dest!: srtn_preempt_frame)

declare srtn_release.simps [simp del]

text \<open>One iteration of the loop body of \<^verbatim>\<open>sjfPreempt\<close> (lines 476--555).\<close>

definition srtn_tick :: "sim \<Rightarrow> (sched_error + sim) option" where
  "srtn_tick s =
     (case idle_wait (age (run_dec s)) of
        None \<Rightarrow> None
      | Some s3 \<Rightarrow>
          (case srtn_arrivals s3 of
             Inl e \<Rightarrow> Some (Inl e)
           | Inr s4 \<Rightarrow>
               (case srtn_release (dispatch (complete_running s4)) of
                  Inl e \<Rightarrow> Some (Inl e)
                | Inr s5 \<Rightarrow> Some (Inr (advance s5)))))"

definition sjfPreempt :: "node list \<Rightarrow> (sched_error + sim) option" where
  "sjfPreempt ps = sched_loop srtn_tick (init_sim ps 0)"

declare srtn_preempt_def [sched_simps] srtn_arrivals.simps [sched_simps]
  srtn_release.simps [sched_simps] srtn_tick_def [sched_simps] sjfPreempt_def [sched_simps]

subsection \<open>The preemption rule\<close>

lemma hd_ins_key_ge:
  "(\<forall>j \<in> set q. k \<le> key j) \<Longrightarrow> k \<le> key d \<Longrightarrow> ins_key key d q = h # t \<Longrightarrow> k \<le> key h"
  by (metis list.set_intros(1) insert_iff set_ins_key)

text \<open>C21: when a process \<open>d\<close> has just been inserted into the ready queue of
  \<^verbatim>\<open>sjfPreempt\<close> and the running process \<open>r\<close> has no more time left than any ready
  process, the check preempts exactly when \<open>d\<close> has strictly less time left than
  \<open>r\<close>: \<open>d\<close> takes the CPU and \<open>r\<close> goes back into the ready queue in order;
  an equal remaining time never preempts.\<close>

theorem srtn_preempt_strict:
  assumes r: "ref s = Some r"
    and minimal: "\<forall>j \<in> set (rq s). remainingTime (procs s ! r) \<le> remainingTime (procs s ! j)"
  shows "srtn_preempt (s\<lparr>rq := priorityEnqueue (procs s) (rq s) d\<rparr>) =
           Inr (if remainingTime (procs s ! d) < remainingTime (procs s ! r)
                then s\<lparr>ref := Some d, rq := priorityEnqueue (procs s) (rq s) r\<rparr>
                else s\<lparr>rq := priorityEnqueue (procs s) (rq s) d\<rparr>)"
proof -
  let ?key = "\<lambda>j. remainingTime (procs s ! j)"
  show ?thesis
  proof (cases "?key d < ?key r")
    case True
    then have front: "ins_key ?key d (rq s) = d # rq s"
      using minimal by (cases "rq s") auto
    have "ins_key ?key r (d # rq s) = d # ins_key ?key r (rq s)"
      using True by simp
    with True front r show ?thesis
      by (simp add: srtn_preempt_def priorityEnqueue_def prio_insert_ins_key dequeue_def)
  next
    case False
    obtain h t where q: "ins_key ?key d (rq s) = h # t"
      by (cases "ins_key ?key d (rq s)") auto
    have "?key r \<le> ?key h"
      using hd_ins_key_ge [OF minimal _ q] False by simp
    with False q r show ?thesis
      by (simp add: srtn_preempt_def priorityEnqueue_def prio_insert_ins_key)
  qed
qed

subsection \<open>The release loop on an idle CPU\<close>

text \<open>C26: once every record is admitted, a process blocked while nothing else was
  ready crashes \<^verbatim>\<open>sjfPreempt\<close> when its block ends: in that tick the CPU is idle,
  the release loop moves the process to the ready queue and the preemption check reads
  \<^verbatim>\<open>ref->remainingTime\<close> with \<^verbatim>\<open>ref\<close> NULL (lines 544--553 and 519).\<close>

theorem srtn_idle_release_null:
  assumes "\<not> has_data s" "ref s = None" "IS_CPU_IDLE s" "rq s = []"
    and "bq s = b # bs" "distinct (bq s)" "b < length (procs s)" "blockedTime (procs s ! b) = 1"
  shows "srtn_tick s = Some (Inl NullDeref)"
proof -
  let ?s = "age (run_dec s)"
  have s: "?s = s\<lparr>procs := deduct (procs s) (bq s)\<rparr>"
    using assms(2,5) by (simp add: run_dec_def age_def isEmpty_def)
  have b0: "blockedTime (procs ?s ! b) = 0"
    using s assms(5-8) by (simp add: nth_deduct)
  have "idle_wait ?s = Some ?s"
    using s assms(1) by (intro idle_wait_exit) (simp add: has_data_def)
  moreover have "srtn_arrivals ?s = Inr ?s"
    using s assms(1) by (subst srtn_arrivals.simps) (simp add: has_data_def)
  moreover have "dispatch (complete_running ?s) = ?s"
    using s assms(2-4) by (simp add: complete_running_def dispatch_def dequeue_def)
  moreover have "srtn_release ?s = Inl NullDeref"
    using s assms(2,5) b0 by (subst srtn_release.simps) (simp add: srtn_preempt_def)
  ultimately show ?thesis
    by (simp add: srtn_tick_def)
qed

end
