(* ===== verification/Round_Robin.thy ===== *)
theory Round_Robin
  imports Engine
begin

text \<open>
  \<^verbatim>\<open>roundRobin\<close> (lines 561--665 of \<^verbatim>\<open>src/cpu_scheduling.c\<close>). The ready queue is
  FIFO (\<open>enqueue\<close>); the local \<^verbatim>\<open>quantum\<close> counts down while the CPU is busy
  (line 568) and is reset to \<^verbatim>\<open>TIME_QUANTUM\<close> (the parameter \<open>tq\<close>) when a process
  is taken from the ready queue. Each piece differs from the shared one of
  \<open>Engine\<close> in the response-time bookkeeping: a process taken by the idle wait gets
  response time 0; every record met by the arrival loop is marked
  \<^verbatim>\<open>firstExecution\<close>; a dispatch records the response time of a marked process.
  The dispatch of the block-request branch (lines 606--612) records the response time
  of the new process whether it is marked or not. A process started by the idle wait
  keeps whatever is left of the previous quantum.
\<close>

definition set_response :: "node list \<Rightarrow> ptr \<Rightarrow> time \<Rightarrow> node list" where
  "set_response ps r t =
     modify ps r (\<lambda>n. n\<lparr>responseTime := t - arrivalTime n, firstExecution := False\<rparr>)"

text \<open>Lines 574--585.\<close>

partial_function (option) rr_idle_wait :: "sim \<Rightarrow> sim option" where
  "rr_idle_wait s =
     (if has_data s \<and> IS_CPU_IDLE s \<and> isEmpty (rq s) then
        (if processId (cur s) > 1000 then rr_idle_wait (s\<lparr>data := Suc (data s)\<rparr>)
         else if arrivalTime (cur s) = SYSTEM_TIME s \<and> \<not> isTerminated (cur s) then
           rr_idle_wait (s\<lparr>IS_CPU_IDLE := False, ref := Some (data s),
                           procs := modify (procs s) (data s) (\<lambda>n. n\<lparr>responseTime := 0\<rparr>),
                           data := Suc (data s)\<rparr>)
         else rr_idle_wait (s\<lparr>SYSTEM_TIME := SYSTEM_TIME s + 1\<rparr>))
      else Some s)"

declare rr_idle_wait.simps [code]

text \<open>Lines 590--616: a block request under Round Robin; the process taken from the
  ready queue gets its response time set and a fresh quantum.\<close>

definition rr_take_cpu :: "int \<Rightarrow> sim \<Rightarrow> sim" where
  "rr_take_cpu tq s =
     (case dequeue (rq s) of
        None \<Rightarrow> s\<lparr>ref := None, IS_CPU_IDLE := True\<rparr>
      | Some (r, q) \<Rightarrow>
          s\<lparr>ref := Some r, rq := q, procs := set_response (procs s) r (SYSTEM_TIME s),
            quantum := tq, IS_CPU_IDLE := False\<rparr>)"

definition rr_block_request :: "int \<Rightarrow> sim \<Rightarrow> sched_error + sim" where
  "rr_block_request tq s =
     (case ref s of
        None \<Rightarrow> Inl NullDeref
      | Some r \<Rightarrow>
          Inr (rr_take_cpu tq
            (if remainingTime (procs s ! r) \<noteq> 0 then
               (let ps = modify (procs s) r (\<lambda>n. n\<lparr>blockedTime := burstTime (cur s)\<rparr>)
                in s\<lparr>procs := ps, bq := priorityBlock ps (bq s) r, IS_CPU_IDLE := True\<rparr>)
             else s\<lparr>procs := finish (procs s) r (SYSTEM_TIME s), IS_CPU_IDLE := True, ref := None\<rparr>)))"

lemma rr_block_request_frame:
  "rr_block_request tq s = Inr s' \<Longrightarrow> length (procs s') = length (procs s) \<and> data s' = data s"
  by (auto simp: rr_block_request_def rr_take_cpu_def set_response_def Let_def
           split: option.splits if_splits)

text \<open>Lines 587--621: the arrival loop of \<^verbatim>\<open>roundRobin\<close>; line 588 marks every record
  it meets, block requests included.\<close>

function rr_arrivals :: "int \<Rightarrow> sim \<Rightarrow> sched_error + sim" where
  "rr_arrivals tq s =
     (if has_data s \<and> SYSTEM_TIME s = arrivalTime (cur s) \<and> \<not> IS_CPU_IDLE s then
        (let s1 = s\<lparr>procs := modify (procs s) (data s) (\<lambda>n. n\<lparr>firstExecution := True\<rparr>)\<rparr> in
         if processId (cur s1) > 1000 then
           (case rr_block_request tq s1 of
              Inl e \<Rightarrow> Inl e
            | Inr s' \<Rightarrow> rr_arrivals tq (s'\<lparr>data := Suc (data s')\<rparr>))
         else rr_arrivals tq (s1\<lparr>rq := enqueue (rq s1) (data s1), data := Suc (data s1)\<rparr>))
      else Inr s)"
  by pat_completeness auto
termination
  by (relation "measure (\<lambda>(tq, s). length (procs s) - data s)")
     (auto simp: has_data_def Let_def dest!: rr_block_request_frame)

declare rr_arrivals.simps [simp del]

text \<open>Lines 632--655: dispatch to an idle CPU, or quantum expiry. \<^verbatim>\<open>enqueue(rq, ref)\<close>
  with \<^verbatim>\<open>ref\<close> NULL would queue a NULL pointer; the model stops with \<open>NullDeref\<close>.\<close>

definition rr_first :: "sim \<Rightarrow> ptr \<Rightarrow> node list" where
  "rr_first s r =
     (if firstExecution (procs s ! r) then set_response (procs s) r (SYSTEM_TIME s) else procs s)"

definition rr_dispatch :: "int \<Rightarrow> sim \<Rightarrow> sched_error + sim" where
  "rr_dispatch tq s =
     (if IS_CPU_IDLE s \<and> \<not> isEmpty (rq s) then
        (case dequeue (rq s) of
           None \<Rightarrow> Inl NullDeref
         | Some (r, q) \<Rightarrow>
             Inr (s\<lparr>ref := Some r, rq := q, procs := rr_first s r, IS_CPU_IDLE := False, quantum := tq\<rparr>))
      else if quantum s = 0 \<and> \<not> isEmpty (rq s) then
        (case ref s of
           None \<Rightarrow> Inl NullDeref
         | Some c \<Rightarrow>
             (case dequeue (enqueue (rq s) c) of
                None \<Rightarrow> Inl NullDeref
              | Some (r, q) \<Rightarrow>
                  Inr (s\<lparr>ref := Some r, rq := q, procs := rr_first s r, IS_CPU_IDLE := False,
                         quantum := tq\<rparr>)))
      else if quantum s = 0 \<and> isEmpty (rq s) then Inr (s\<lparr>quantum := tq\<rparr>)
      else Inr s)"

text \<open>Line 568: the quantum runs down while the CPU is busy.\<close>

definition rr_count :: "sim \<Rightarrow> sim" where
  "rr_count s = (if \<not> IS_CPU_IDLE s then s\<lparr>quantum := quantum s - 1\<rparr> else s)"

text \<open>One iteration of the loop body of \<^verbatim>\<open>roundRobin\<close> (lines 568--663).\<close>

definition rr_tick :: "int \<Rightarrow> sim \<Rightarrow> (sched_error + sim) option" where
  "rr_tick tq s =
     (case rr_idle_wait (age (run_dec (rr_count s))) of
        None \<Rightarrow> None
      | Some s3 \<Rightarrow>
          (case rr_arrivals tq s3 of
             Inl e \<Rightarrow> Some (Inl e)
           | Inr s4 \<Rightarrow>
               (case rr_dispatch tq (complete_running s4) of
                  Inl e \<Rightarrow> Some (Inl e)
                | Inr s5 \<Rightarrow> Some (Inr (advance (release_step (\<lambda>ps. enqueue) s5))))))"

definition roundRobin :: "int \<Rightarrow> node list \<Rightarrow> (sched_error + sim) option" where
  "roundRobin tq ps = sched_loop (rr_tick tq) (init_sim ps tq)"

subsection \<open>Evaluation rules\<close>

lemma rr_idle_wait_exit:
  "\<not> (has_data s \<and> IS_CPU_IDLE s \<and> isEmpty (rq s)) \<Longrightarrow> rr_idle_wait s = Some s"
  by (subst rr_idle_wait.simps) (rule if_not_P)

lemma rr_idle_wait_skip:
  "has_data s \<Longrightarrow> IS_CPU_IDLE s \<Longrightarrow> isEmpty (rq s) \<Longrightarrow> processId (cur s) > 1000 \<Longrightarrow>
     rr_idle_wait s = rr_idle_wait (s\<lparr>data := Suc (data s)\<rparr>)"
  by (subst rr_idle_wait.simps) simp

lemma rr_idle_wait_start:
  assumes "has_data s" "IS_CPU_IDLE s" "isEmpty (rq s)" "\<not> processId (cur s) > 1000"
    and "arrivalTime (cur s) = SYSTEM_TIME s" "\<not> isTerminated (cur s)"
  shows "rr_idle_wait s = Some (s\<lparr>IS_CPU_IDLE := False, ref := Some (data s),
                           procs := modify (procs s) (data s) (\<lambda>n. n\<lparr>responseTime := 0\<rparr>),
                           data := Suc (data s)\<rparr>)"
proof -
  have "rr_idle_wait s = rr_idle_wait (s\<lparr>IS_CPU_IDLE := False, ref := Some (data s),
                           procs := modify (procs s) (data s) (\<lambda>n. n\<lparr>responseTime := 0\<rparr>),
                           data := Suc (data s)\<rparr>)"
    using assms by (subst rr_idle_wait.simps) simp
  also have "\<dots> = Some (s\<lparr>IS_CPU_IDLE := False, ref := Some (data s),
                           procs := modify (procs s) (data s) (\<lambda>n. n\<lparr>responseTime := 0\<rparr>),
                           data := Suc (data s)\<rparr>)"
    by (rule rr_idle_wait_exit) simp
  finally show ?thesis .
qed

lemma rr_idle_wait_jump:
  "has_data s \<Longrightarrow> IS_CPU_IDLE s \<Longrightarrow> isEmpty (rq s) \<Longrightarrow> \<not> processId (cur s) > 1000 \<Longrightarrow>
     \<not> isTerminated (cur s) \<Longrightarrow> SYSTEM_TIME s \<le> arrivalTime (cur s) \<Longrightarrow>
     rr_idle_wait s = Some (s\<lparr>SYSTEM_TIME := arrivalTime (cur s), IS_CPU_IDLE := False,
                           ref := Some (data s),
                           procs := modify (procs s) (data s) (\<lambda>n. n\<lparr>responseTime := 0\<rparr>),
                           data := Suc (data s)\<rparr>)"
proof (induction "nat (arrivalTime (cur s) - SYSTEM_TIME s)" arbitrary: s)
  case 0
  then show ?case by (simp add: rr_idle_wait_start)
next
  case (Suc k)
  let ?s = "s\<lparr>SYSTEM_TIME := SYSTEM_TIME s + 1\<rparr>"
  have later: "SYSTEM_TIME s < arrivalTime (cur s)"
    using Suc.hyps(2) by linarith
  have "rr_idle_wait s = rr_idle_wait ?s"
    using Suc.prems later by (subst rr_idle_wait.simps) simp
  also have "\<dots> = Some (?s\<lparr>SYSTEM_TIME := arrivalTime (cur ?s), IS_CPU_IDLE := False,
                           ref := Some (data ?s),
                           procs := modify (procs ?s) (data ?s) (\<lambda>n. n\<lparr>responseTime := 0\<rparr>),
                           data := Suc (data ?s)\<rparr>)"
    using Suc.prems Suc.hyps(2) later by (intro Suc.hyps(1)) (auto simp: has_data_def cur_def)
  finally show ?case by (simp add: cur_def)
qed

lemmas rr_idle_wait_eval [sched_simps] = rr_idle_wait_exit rr_idle_wait_skip rr_idle_wait_jump

declare set_response_def [sched_simps] rr_take_cpu_def [sched_simps] rr_block_request_def [sched_simps]
  rr_arrivals.simps [sched_simps] rr_first_def [sched_simps] rr_dispatch_def [sched_simps]
  rr_count_def [sched_simps] rr_tick_def [sched_simps] roundRobin_def [sched_simps]

subsection \<open>What the idle wait of Round Robin changes\<close>

lemma rr_idle_wait_spec:
  assumes ret: "rr_idle_wait s = Some r"
  shows "quantum r = quantum s \<and> rq r = rq s \<and> bq r = bq s \<and> SYSTEM_TIME s \<le> SYSTEM_TIME r \<and>
         (\<not> IS_CPU_IDLE s \<longrightarrow> r = s) \<and>
         (ref r = ref s \<and> IS_CPU_IDLE r = IS_CPU_IDLE s \<or>
          0 < data r \<and> ref r = Some (data r - 1) \<and> \<not> IS_CPU_IDLE r \<and>
          responseTime (procs r ! (data r - 1)) = 0 \<and> arrivalTime (procs r ! (data r - 1)) = SYSTEM_TIME r)"
  (is "?P s r")
proof (rule rr_idle_wait.raw_induct [where P = "\<lambda>s r. ?P s r", OF _ ret])
  fix f s r
  assume IH: "\<And>s r. f s = Some r \<Longrightarrow> ?P s r"
    and eq: "(if has_data s \<and> IS_CPU_IDLE s \<and> isEmpty (rq s) then
               (if processId (cur s) > 1000 then f (s\<lparr>data := Suc (data s)\<rparr>)
                else if arrivalTime (cur s) = SYSTEM_TIME s \<and> \<not> isTerminated (cur s) then
                  f (s\<lparr>IS_CPU_IDLE := False, ref := Some (data s),
                       procs := modify (procs s) (data s) (\<lambda>n. n\<lparr>responseTime := 0\<rparr>),
                       data := Suc (data s)\<rparr>)
                else f (s\<lparr>SYSTEM_TIME := SYSTEM_TIME s + 1\<rparr>))
             else Some s) = Some r"
  show "?P s r"
  proof (cases "has_data s \<and> IS_CPU_IDLE s \<and> isEmpty (rq s)")
    case g: True
    show ?thesis
    proof (cases "processId (cur s) > 1000")
      case True
      with g eq IH [of "s\<lparr>data := Suc (data s)\<rparr>" r] show ?thesis by auto
    next
      case np: False
      show ?thesis
      proof (cases "arrivalTime (cur s) = SYSTEM_TIME s \<and> \<not> isTerminated (cur s)")
        case True
        let ?t = "s\<lparr>IS_CPU_IDLE := False, ref := Some (data s),
                    procs := modify (procs s) (data s) (\<lambda>n. n\<lparr>responseTime := 0\<rparr>),
                    data := Suc (data s)\<rparr>"
        from g np True eq have "f ?t = Some r" by simp
        then have "r = ?t"
          using IH by fastforce
        with g True show ?thesis
          by (simp add: has_data_def cur_def)
      next
        case False
        with g np eq IH [of "s\<lparr>SYSTEM_TIME := SYSTEM_TIME s + 1\<rparr>" r] show ?thesis by auto
      qed
    qed
  next
    case False
    with eq show ?thesis by auto
  qed
qed

text \<open>C28: the idle wait of \<^verbatim>\<open>roundRobin\<close> either returns with the CPU as it was, or
  starts the record under the cursor, arrived at the clock it stops at, with response
  time 0; it leaves both queues and the quantum counter as they were. A process started
  there runs on the quantum the previous process left, not on a fresh one: only the
  dispatch and the block path reset \<^verbatim>\<open>quantum\<close> (lines 574--585 against 606--616
  and 632--655).\<close>

theorem rr_idle_wait_keeps_quantum:
  assumes "rr_idle_wait s = Some s'"
  shows "quantum s' = quantum s \<and> rq s' = rq s \<and> bq s' = bq s \<and> SYSTEM_TIME s \<le> SYSTEM_TIME s' \<and>
         (ref s' = ref s \<and> IS_CPU_IDLE s' = IS_CPU_IDLE s \<or>
          0 < data s' \<and> ref s' = Some (data s' - 1) \<and> \<not> IS_CPU_IDLE s' \<and>
          responseTime (procs s' ! (data s' - 1)) = 0 \<and> arrivalTime (procs s' ! (data s' - 1)) = SYSTEM_TIME s')"
  using rr_idle_wait_spec [OF assms] by blast

end
