(* ===== verification/Report.thy ===== *)
theory Report
  imports Complex_Main Engine_Inv Srtn Round_Robin
begin

text \<open>
  Policy selection and the report: \<^verbatim>\<open>schedule\<close> (lines 669--691) runs the policy the
  input file names, and \<^verbatim>\<open>output\<close> (lines 695--748) computes, for every real process
  of the list, its waiting time (turnaround minus burst) and the row it prints, and the
  two averages. The text these values are printed as is the theory \<open>Output_Text\<close>;
  the file handling is not modelled. A row reads
  \<^verbatim>\<open>completionTime\<close> and \<^verbatim>\<open>turnAroundTime\<close>, which only a completion ever writes:
  reading one that was never written is \<open>UninitRead\<close>. The averages are
  \<^verbatim>\<open>float\<close> sums divided by the count; the report holds the exact real quotients
  they approximate, \<open>None\<close> standing for the NaN that \<open>0.0f / 0\<close> gives when there is no
  real process. The \<^verbatim>\<open>float\<close> computation itself is \<open>float_average\<close> of theory
  \<open>Float32\<close>, proved to round these quotients once while the sums stay below \<open>2^24\<close>.
\<close>

text \<open>\<^verbatim>\<open>schedule\<close>: an unknown policy number runs nothing.\<close>

definition schedule :: "int \<Rightarrow> int \<Rightarrow> node list \<Rightarrow> (sched_error + node list) option" where
  "schedule policy tq ps =
     map_option (map_sum id procs)
       (if policy = 1 then fcfs ps
        else if policy = 2 then sjf ps
        else if policy = 3 then sjfPreempt ps
        else if policy = 4 then roundRobin tq ps
        else Some (Inr (init_sim ps tq)))"

record row =
  row_id :: int
  row_arrival :: int
  row_burst :: int
  row_completion :: int
  row_waiting :: int
  row_turnaround :: int
  row_response :: int

record report =
  rows :: "row list"
  avgWaiting :: "real option"
  avgTurnAround :: "real option"

text \<open>Lines 729--745: the rows, block requests skipped.\<close>

fun output_rows :: "node list \<Rightarrow> sched_error + row list" where
  "output_rows [] = Inr []"
| "output_rows (n # ns) =
     (if processId n > 1000 then output_rows ns
      else
        (case (completionTime n, turnAroundTime n) of
           (Some c, Some t) \<Rightarrow>
             (case output_rows ns of
                Inl e \<Rightarrow> Inl e
              | Inr rs \<Rightarrow>
                  Inr (\<lparr>row_id = processId n, row_arrival = arrivalTime n, row_burst = burstTime n,
                        row_completion = c, row_waiting = t - burstTime n, row_turnaround = t,
                        row_response = responseTime n\<rparr> # rs))
         | _ \<Rightarrow> Inl UninitRead))"

definition average :: "int list \<Rightarrow> real option" where
  "average xs = (if xs = [] then None else Some (of_int (sum_list xs) / of_nat (length xs)))"

text \<open>\<^verbatim>\<open>output\<close>: the rows and the two averages of line 747.\<close>

definition output_report :: "node list \<Rightarrow> sched_error + report" where
  "output_report ps =
     (case output_rows ps of
        Inl e \<Rightarrow> Inl e
      | Inr rs \<Rightarrow>
          Inr \<lparr>rows = rs, avgWaiting = average (map row_waiting rs),
               avgTurnAround = average (map row_turnaround rs)\<rparr>)"

text \<open>\<^verbatim>\<open>main\<close> (lines 90--96) once the list is loaded: schedule, then report.\<close>

definition schedule_and_output :: "int \<Rightarrow> int \<Rightarrow> node list \<Rightarrow> (sched_error + report) option" where
  "schedule_and_output policy tq ps =
     (case schedule policy tq ps of
        None \<Rightarrow> None
      | Some (Inl e) \<Rightarrow> Some (Inl e)
      | Some (Inr ps') \<Rightarrow> Some (output_report ps'))"

text \<open>\<^verbatim>\<open>main\<close> on the records of a well-read file: load with \<^verbatim>\<open>input\<close>, schedule,
  report. The file layer itself is modelled in theory \<open>Input_File\<close>.\<close>

definition run_main :: "int \<Rightarrow> int \<Rightarrow> (int \<times> int \<times> int) list \<Rightarrow> (sched_error + report) option" where
  "run_main policy tq recs = schedule_and_output policy tq (input recs)"

declare schedule_def [sched_simps] average_def [sched_simps] output_report_def [sched_simps]
  schedule_and_output_def [sched_simps] run_main_def [sched_simps]

subsection \<open>Rows, averages and the error paths of the report\<close>

lemma output_rows_finished:
  "\<forall>n \<in> set ps. \<not> 1000 < processId n \<longrightarrow> finished_ok n \<Longrightarrow>
     \<exists>rs. output_rows ps = Inr rs \<and>
       (\<forall>r \<in> set rs. row_waiting r = row_turnaround r - row_burst r \<and>
                     row_turnaround r = row_completion r - row_arrival r)"
  by (induction ps) (auto simp: finished_ok_def)

lemma output_rows_real:
  "\<forall>n \<in> set ps. \<not> 1000 < processId n \<and> finished_ok n \<Longrightarrow>
     \<exists>rs. output_rows ps = Inr rs \<and>
       map (\<lambda>w. (row_id w, row_arrival w, row_burst w)) rs = map static ps \<and>
       (\<forall>r \<in> set rs. row_waiting r = row_turnaround r - row_burst r \<and>
                     row_turnaround r = row_completion r - row_arrival r)"
  by (induction ps) (auto simp: finished_ok_def static_def)

lemma output_rows_uninit:
  "\<forall>n \<in> set ps. completionTime n = None \<Longrightarrow> \<exists>n \<in> set ps. \<not> 1000 < processId n \<Longrightarrow>
     output_rows ps = Inl UninitRead"
  by (induction ps) auto

lemma output_rows_interrupts:
  "\<forall>n \<in> set ps. 1000 < processId n \<Longrightarrow> output_rows ps = Inr []"
  by (induction ps) auto

text \<open>With no real process (an empty file, or only block requests) \<^verbatim>\<open>output\<close>
  prints no row and divides 0 by a count of 0: both averages are NaN (\<open>None\<close>), the
  division is not guarded.\<close>

theorem output_no_process_nan:
  "\<forall>n \<in> set ps. 1000 < processId n \<Longrightarrow>
     output_report ps = Inr \<lparr>rows = [], avgWaiting = None, avgTurnAround = None\<rparr>"
  by (simp add: output_report_def output_rows_interrupts average_def)

text \<open>With a policy number other than 1 to 4, a report is written only when there is
  no real process, and it then has no row.\<close>

lemma invalid_policy_no_rows:
  assumes "policy \<notin> {1, 2, 3, 4}" and "run_main policy tq recs = Some (Inr rep)"
  shows "rows rep = []"
proof -
  have out: "output_report (input recs) = Inr rep"
    using assms by (simp add: run_main_def schedule_and_output_def schedule_def init_sim_def)
  have fresh: "\<forall>n \<in> set (input recs). completionTime n = None"
    by (auto simp: in_set_conv_nth input_nth_node new_node_def)
  show ?thesis
  proof (cases "\<exists>n \<in> set (input recs). \<not> 1000 < processId n")
    case True
    with out output_rows_uninit [OF fresh True] show ?thesis
      by (simp add: output_report_def)
  next
    case False
    with out output_rows_interrupts [of "input recs"] show ?thesis
      by (auto simp: output_report_def)
  qed
qed

text \<open>C31: with a policy number other than 1 to 4, \<^verbatim>\<open>schedule\<close> only prints a
  message and \<^verbatim>\<open>main\<close> still calls \<^verbatim>\<open>output\<close>, which reads the completion time
  of a process that was never scheduled: the report is built from uninitialised memory.\<close>

theorem invalid_policy_reads_uninitialised:
  assumes "policy \<notin> {1, 2, 3, 4}" and "\<exists>r \<in> set recs. snd (snd r) = 0"
  shows "run_main policy tq recs = Some (Inl UninitRead)"
proof -
  have "\<exists>i. i < length recs \<and> snd (snd (recs ! i)) = 0"
    using assms(2) by (metis in_set_conv_nth)
  then obtain i where i: "i < length recs" "snd (snd (recs ! i)) = 0"
    and least: "\<forall>j < i. \<not> (j < length recs \<and> snd (snd (recs ! j)) = 0)"
    by (auto simp: exists_least_iff [of "\<lambda>i. i < length recs \<and> snd (snd (recs ! i)) = 0"])
  have "filter (\<lambda>r. snd (snd r) = 0) (take i recs) = []"
    using least i by (auto simp: filter_empty_conv in_set_conv_nth) (metis snd_conv)
  then have "processId (input recs ! i) = 1"
    using input_nth_node [OF i(1)] i(2) by (simp add: new_node_def next_id_def init_counters_def)
  moreover have "input recs ! i \<in> set (input recs)"
    using i(1) by simp
  ultimately have real: "\<exists>n \<in> set (input recs). \<not> 1000 < processId n"
    by force
  have fresh: "\<forall>n \<in> set (input recs). completionTime n = None"
    by (auto simp: in_set_conv_nth input_nth_node new_node_def)
  show ?thesis
    using assms(1) output_rows_uninit [OF fresh real]
    by (simp add: run_main_def schedule_and_output_def schedule_def output_report_def init_sim_def)
qed

end
