(* ===== verification/Srtn_Inv.thy ===== *)
theory Srtn_Inv
  imports Engine_Inv Srtn
begin

text \<open>
  The invariant \<open>sim_inv\<close> of \<open>Engine_Inv\<close> carried through the loop of
  \<^verbatim>\<open>sjfPreempt\<close>. The preemption check only exchanges the running process with the
  head of the ready queue, so it keeps the multiset of held processes; a run that
  returns normally has completed every real process, as for FCFS and SJF. A run may
  also stop with \<open>NullDeref\<close> (the release loop's check with the CPU idle).
\<close>

lemma srtn_preempt_data:
  "srtn_preempt (s\<lparr>data := d\<rparr>) = map_sum id (\<lambda>s. s\<lparr>data := d\<rparr>) (srtn_preempt s)"
  by (auto simp: srtn_preempt_def dequeue_def split: option.split list.split)

lemma sim_inv_srtn_preempt:
  assumes inv: "sim_inv s" and pre: "srtn_preempt s = Inr s'"
  shows "sim_inv s'"
proof (cases "s' = s")
  case False
  obtain r where r: "ref s = Some r"
    using pre by (cases "ref s") (auto simp: srtn_preempt_def)
  obtain h' q where pq: "priorityEnqueue (procs s) (rq s) r = h' # q"
    by (cases "priorityEnqueue (procs s) (rq s) r") (auto simp: priorityEnqueue_def prio_insert_ins_key)
  have s': "s' = s\<lparr>ref := Some h', rq := q\<rparr>"
    using pre r pq False by (auto simp: srtn_preempt_def dequeue_def split: list.splits if_splits)
  from pq have "mset (priorityEnqueue (procs s) (rq s) r) = mset (h' # q)"
    by (rule arg_cong)
  then have "mset (priorityEnqueue (procs s) (rq s) r) = mset (h' # q)"
    by (rule arg_cong)
  then have "mset (owned s') = mset (owned s)"
    using r s' by (simp add: owned_def)
  moreover have "\<not> IS_CPU_IDLE s"
    using inv r by (simp add: sim_inv_def)
  ultimately show ?thesis
    using sim_inv_perm [OF inv, of s'] s' by simp
qed (use inv in simp)

lemma sim_inv_srtn_arrivals:
  "sim_inv s \<Longrightarrow> srtn_arrivals s = Inr s' \<Longrightarrow>
     sim_inv s' \<and> map static (procs s') = map static (procs s)"
proof (induction s rule: srtn_arrivals.induct)
  case (1 s)
  show ?case
  proof (cases "has_data s \<and> SYSTEM_TIME s = arrivalTime (cur s) \<and> \<not> IS_CPU_IDLE s")
    case guard: True
    show ?thesis
    proof (cases "processId (cur s) > 1000")
      case True
      obtain s1 where bs: "block_request s = Inr s1" "sim_inv s1" "data s1 = data s"
        and st: "map static (procs s1) = map static (procs s)"
        using sim_inv_block_request [OF "1.prems"(1)] guard by blast
      have "processId (cur s1) = processId (cur s)"
        using static_nth [OF st] guard bs(3) by (simp add: has_data_def cur_def)
      then have i2: "sim_inv (s1\<lparr>data := Suc (data s1)\<rparr>)"
        using bs guard True st
        by (intro sim_inv_skip) (auto simp: is_interrupt_def has_data_def dest: arg_cong [of _ _ length])
      have "srtn_arrivals (s1\<lparr>data := Suc (data s1)\<rparr>) = Inr s'"
        using "1.prems"(2) guard True bs(1) by (subst (asm) srtn_arrivals.simps) simp
      from "1.IH"(1) [OF guard True bs(1) i2 this] st show ?thesis
        by simp
    next
      case False
      let ?s1 = "s\<lparr>rq := priorityEnqueue (procs s) (rq s) (data s)\<rparr>"
      obtain s2 where pre: "srtn_preempt ?s1 = Inr s2"
        and rec: "srtn_arrivals (s2\<lparr>data := Suc (data s2)\<rparr>) = Inr s'"
        using "1.prems"(2) guard False by (subst (asm) srtn_arrivals.simps) (auto split: sum.splits)
      have fr: "procs s2 = procs s" "data s2 = data s"
        using srtn_preempt_frame [OF pre] by simp_all
      have "sim_inv (?s1\<lparr>data := Suc (data s)\<rparr>)"
        using "1.prems"(1) guard False
        by (rule_tac sim_inv_admit [of s]) (auto simp: is_interrupt_def sim_inv_def owned_def)
      moreover have "srtn_preempt (?s1\<lparr>data := Suc (data s)\<rparr>) = Inr (s2\<lparr>data := Suc (data s)\<rparr>)"
        using pre by (simp add: srtn_preempt_data)
      ultimately have "sim_inv (s2\<lparr>data := Suc (data s2)\<rparr>)"
        using fr by (simp add: sim_inv_srtn_preempt)
      from "1.IH"(2) [OF guard False pre this rec] fr show ?thesis
        by simp
    qed
  next
    case False
    then have "srtn_arrivals s = Inr s"
      by (subst srtn_arrivals.simps) (rule if_not_P)
    with "1.prems" show ?thesis by simp
  qed
qed

lemma sim_inv_srtn_release:
  "sim_inv s \<Longrightarrow> srtn_release s = Inr s' \<Longrightarrow> sim_inv s' \<and> procs s' = procs s \<and> data s' = data s"
proof (induction s rule: srtn_release.induct)
  case (1 s)
  show ?case
  proof (cases "bq s")
    case Nil
    with "1.prems" show ?thesis
      by (subst (asm) srtn_release.simps) simp
  next
    case (Cons b bs)
    show ?thesis
    proof (cases "blockedTime (procs s ! b) = 0")
      case True
      let ?s1 = "s\<lparr>bq := bs, rq := priorityEnqueue (procs s) (rq s) b\<rparr>"
      obtain s2 where pre: "srtn_preempt ?s1 = Inr s2" and rec: "srtn_release s2 = Inr s'"
        using "1.prems"(2) Cons True by (subst (asm) srtn_release.simps) (auto split: sum.splits)
      have "mset (owned ?s1) = mset (owned s)"
        using Cons by (simp add: owned_def)
      moreover have "IS_CPU_IDLE s \<longleftrightarrow> ref s = None"
        using "1.prems"(1) by (simp add: sim_inv_def)
      ultimately have "sim_inv ?s1"
        using sim_inv_perm [OF "1.prems"(1), of ?s1] by simp
      then have "sim_inv s2"
        using pre by (rule sim_inv_srtn_preempt)
      from "1.IH" [OF Cons True pre this rec] srtn_preempt_frame [OF pre] show ?thesis
        by simp
    next
      case False
      with "1.prems" Cons show ?thesis
        by (subst (asm) srtn_release.simps) simp
    qed
  qed
qed

lemma static_dispatch_complete:
  "map static (procs (dispatch (complete_running s))) = map static (procs s)"
  by (auto simp: dispatch_def complete_running_def split: option.split)

lemma sim_inv_srtn_tick:
  assumes inv: "sim_inv s" and tick: "srtn_tick s = Some (Inr s')"
  shows "sim_inv s' \<and> map static (procs s') = map static (procs s)"
proof -
  obtain s3 where iw: "idle_wait (age (run_dec s)) = Some s3"
    using tick by (auto simp: srtn_tick_def split: option.splits)
  have i3: "sim_inv s3"
    using iw by (rule sim_inv_idle_wait) (intro sim_inv_age sim_inv_run_dec inv)
  have st3: "map static (procs s3) = map static (procs s)"
    using idle_wait_frame [OF iw] static_run_dec_age by simp
  obtain s4 where ar: "srtn_arrivals s3 = Inr s4"
    using tick iw by (auto simp: srtn_tick_def split: sum.splits)
  have i4: "sim_inv s4" and st4: "map static (procs s4) = map static (procs s3)"
    using sim_inv_srtn_arrivals [OF i3 ar] by simp_all
  obtain s5 where rl: "srtn_release (dispatch (complete_running s4)) = Inr s5"
    and s': "s' = advance s5"
    using tick iw ar by (auto simp: srtn_tick_def split: sum.splits)
  have "sim_inv (dispatch (complete_running s4))"
    using i4 by (intro sim_inv_dispatch sim_inv_complete_running)
  from sim_inv_srtn_release [OF this rl] have i5: "sim_inv s5"
    and "map static (procs s5) = map static (procs s4)"
    using static_dispatch_complete by simp_all
  moreover have "sim_inv (advance s5)"
    using i5 by (rule sim_inv_advance)
  ultimately show ?thesis
    using s' st3 st4 by (simp add: advance_def)
qed

lemma srtn_run:
  assumes fresh: "\<forall>n \<in> set ps. \<not> isTerminated n" and ret: "sjfPreempt ps = Some (Inr s)"
  shows "sim_inv s \<and> \<not> loop_cond s \<and> map static (procs s) = map static ps"
proof -
  let ?P = "\<lambda>t. sim_inv t \<and> map static (procs t) = map static ps"
  have "?P (init_sim ps 0)"
    using fresh by (simp add: sim_inv_init) (simp add: init_sim_def)
  from sched_loop_inv_ok [where P = ?P, OF ret [unfolded sjfPreempt_def] this] show ?thesis
    using sim_inv_srtn_tick by fastforce
qed

text \<open>C3: when \<^verbatim>\<open>sjfPreempt\<close> returns normally, every real process of the input has
  terminated with no time left and consistent completion and turnaround times, and no
  identity, arrival or burst time was changed: the preemption check never loses or
  duplicates a process.\<close>

theorem sjfPreempt_completes_all:
  assumes "sjfPreempt (input recs) = Some (Inr s)"
  shows "map static (procs s) = map static (input recs) \<and>
         (\<forall>i < length (procs s). \<not> is_interrupt (procs s ! i) \<longrightarrow>
            isTerminated (procs s ! i) \<and> finished_ok (procs s ! i))"
  using srtn_run [OF _ assms] input_fresh sim_inv_final by blast

end
