(* ===== verification/Rr_Inv.thy ===== *)
theory Rr_Inv
  imports Engine_Inv Round_Robin
begin

text \<open>
  The invariant \<open>sim_inv\<close> of \<open>Engine_Inv\<close> carried through the loop of
  \<^verbatim>\<open>roundRobin\<close>. Its pieces also write the response time and the
  \<^verbatim>\<open>firstExecution\<close> flag, of held processes and of the record the arrival loop
  is looking at; neither field is one the invariant reads. Round Robin never
  dereferences NULL, and a run that returns has completed every real process.
\<close>

text \<open>What \<open>rr_take_cpu\<close> adds to \<open>take_cpu\<close>: the process that took the CPU gets
  its response time and a fresh quantum.\<close>

definition rr_fix :: "int \<Rightarrow> sim \<Rightarrow> sim" where
  "rr_fix tq s =
     (case ref s of
        None \<Rightarrow> s
      | Some r \<Rightarrow> s\<lparr>procs := set_response (procs s) r (SYSTEM_TIME s), quantum := tq\<rparr>)"

lemma sim_inv_modify_live:
  assumes inv: "sim_inv s" and live: "i < length (procs s) \<Longrightarrow> \<not> isTerminated (procs s ! i)"
    and pid: "\<And>n. processId (f n) = processId n" and trm: "\<And>n. isTerminated (f n) = isTerminated n"
  shows "sim_inv (s\<lparr>procs := modify (procs s) i f\<rparr>)"
proof (cases "i < length (procs s)")
  case iL: True
  let ?ps = "modify (procs s) i f"
  have int: "is_interrupt (?ps ! j) = is_interrupt (procs s ! j)" for j
    using iL pid by (cases "i = j") (auto simp: is_interrupt_def)
  have tflag: "isTerminated (?ps ! j) = isTerminated (procs s ! j)" for j
    using iL trm by (cases "i = j") auto
  have same: "?ps ! j = procs s ! j" if "isTerminated (procs s ! j)" for j
    using that live iL by (cases "i = j") auto
  show ?thesis
    using inv unfolding sim_inv_def by (simp del: nth_modify add: int tflag same)
next
  case False
  with inv show ?thesis by (simp add: modify_beyond)
qed

lemma sim_inv_pending:
  "sim_inv s \<Longrightarrow> data s \<le> i \<Longrightarrow> i < length (procs s) \<Longrightarrow> \<not> isTerminated (procs s ! i)"
  unfolding sim_inv_def by auto

lemma sim_inv_held:
  "sim_inv s \<Longrightarrow> i \<in> set (owned s) \<Longrightarrow> \<not> isTerminated (procs s ! i)"
  unfolding sim_inv_def by auto

lemma sim_inv_quantum [simp]: "sim_inv (s\<lparr>quantum := k\<rparr>) = sim_inv s"
  by (simp add: sim_inv_def owned_def)

lemma sim_inv_rr_count: "sim_inv s \<Longrightarrow> sim_inv (rr_count s)"
  by (simp add: rr_count_def)

lemma sim_inv_set_response:
  "sim_inv s \<Longrightarrow> r \<in> set (owned s) \<Longrightarrow> sim_inv (s\<lparr>procs := set_response (procs s) r t\<rparr>)"
  unfolding set_response_def by (rule sim_inv_modify_live) (simp_all add: sim_inv_held)

lemma static_set_response [simp]: "map static (set_response ps r t) = map static ps"
  unfolding set_response_def by (rule static_modify) (simp add: static_def)

lemma sim_inv_rr_idle_wait:
  assumes ret: "rr_idle_wait s = Some s'" and inv: "sim_inv s"
  shows "sim_inv s' \<and> map static (procs s') = map static (procs s)"
proof -
  let ?P = "\<lambda>s s'. sim_inv s \<longrightarrow> sim_inv s' \<and> map static (procs s') = map static (procs s)"
  have "?P s s'"
  proof (rule rr_idle_wait.raw_induct [where P = ?P, OF _ ret])
    fix f s s'
    assume IH: "\<And>s s'. f s = Some s' \<Longrightarrow> ?P s s'"
      and eq: "(if has_data s \<and> IS_CPU_IDLE s \<and> isEmpty (rq s) then
                 (if processId (cur s) > 1000 then f (s\<lparr>data := Suc (data s)\<rparr>)
                  else if arrivalTime (cur s) = SYSTEM_TIME s \<and> \<not> isTerminated (cur s) then
                    f (s\<lparr>IS_CPU_IDLE := False, ref := Some (data s),
                         procs := modify (procs s) (data s) (\<lambda>n. n\<lparr>responseTime := 0\<rparr>),
                         data := Suc (data s)\<rparr>)
                  else f (s\<lparr>SYSTEM_TIME := SYSTEM_TIME s + 1\<rparr>))
               else Some s) = Some s'"
    show "?P s s'"
    proof
      assume si: "sim_inv s"
      show "sim_inv s' \<and> map static (procs s') = map static (procs s)"
      proof (cases "has_data s \<and> IS_CPU_IDLE s \<and> isEmpty (rq s)")
        case guard: True
        show ?thesis
        proof (cases "processId (cur s) > 1000")
          case True
          with guard si have "sim_inv (s\<lparr>data := Suc (data s)\<rparr>)"
            by (intro sim_inv_skip) (auto simp: is_interrupt_def)
          moreover have "f (s\<lparr>data := Suc (data s)\<rparr>) = Some s'"
            using guard True eq by simp
          ultimately show ?thesis using IH by fastforce
        next
          case real: False
          show ?thesis
          proof (cases "arrivalTime (cur s) = SYSTEM_TIME s \<and> \<not> isTerminated (cur s)")
            case True
            let ?a = "s\<lparr>IS_CPU_IDLE := False, ref := Some (data s), data := Suc (data s)\<rparr>"
            let ?b = "s\<lparr>IS_CPU_IDLE := False, ref := Some (data s),
                procs := modify (procs s) (data s) (\<lambda>n. n\<lparr>responseTime := 0\<rparr>), data := Suc (data s)\<rparr>"
            have "ref s = None"
              using guard si by (simp add: sim_inv_def)
            then have "sim_inv ?a"
              using guard real si
              by (rule_tac sim_inv_admit [of s]) (simp_all add: is_interrupt_def owned_def)
            then have "sim_inv (?a\<lparr>procs := modify (procs ?a) (data s) (\<lambda>n. n\<lparr>responseTime := 0\<rparr>)\<rparr>)"
              by (rule sim_inv_modify) (simp_all add: owned_def)
            moreover have "?a\<lparr>procs := modify (procs ?a) (data s) (\<lambda>n. n\<lparr>responseTime := 0\<rparr>)\<rparr> = ?b"
              by (cases s) simp
            ultimately have ib: "sim_inv ?b"
              by metis
            have "f ?b = Some s'"
              using guard real True eq by simp
            from IH [OF this] ib have "sim_inv s' \<and> map static (procs s') = map static (procs ?b)"
              by blast
            moreover have "map static (procs ?b) = map static (procs s)"
              by simp (rule static_modify, simp add: static_def)
            ultimately show ?thesis
              by simp
          next
            case False
            have "sim_inv (s\<lparr>SYSTEM_TIME := SYSTEM_TIME s + 1\<rparr>)"
              using si by (simp add: sim_inv_def owned_def)
            moreover have "f (s\<lparr>SYSTEM_TIME := SYSTEM_TIME s + 1\<rparr>) = Some s'"
              using eq by (simp only: if_P [OF guard] if_not_P [OF real] if_not_P [OF False])
            ultimately show ?thesis using IH by fastforce
          qed
        qed
      next
        case False
        with eq si show ?thesis by simp
      qed
    qed
  qed
  with inv show ?thesis by simp
qed

lemma rr_block_request_fix:
  "rr_block_request tq s = map_sum id (rr_fix tq) (block_request s)"
  by (auto simp: rr_block_request_def block_request_def rr_take_cpu_def take_cpu_def rr_fix_def
           Let_def dequeue_def split: option.splits list.splits)

lemma sim_inv_rr_fix:
  assumes "sim_inv s"
  shows "sim_inv (rr_fix tq s) \<and> map static (procs (rr_fix tq s)) = map static (procs s) \<and>
         data (rr_fix tq s) = data s"
proof (cases "ref s")
  case (Some r)
  then have "sim_inv (s\<lparr>procs := set_response (procs s) r (SYSTEM_TIME s)\<rparr>)"
    using assms by (intro sim_inv_set_response) (simp_all add: owned_def)
  with Some show ?thesis
    by (simp add: rr_fix_def)
qed (use assms in \<open>simp add: rr_fix_def\<close>)

lemma sim_inv_rr_block_request:
  assumes inv: "sim_inv s" and busy: "\<not> IS_CPU_IDLE s"
  shows "\<exists>s'. rr_block_request tq s = Inr s' \<and> sim_inv s' \<and> data s' = data s \<and>
               map static (procs s') = map static (procs s)"
  using sim_inv_block_request [OF inv busy] sim_inv_rr_fix by (fastforce simp: rr_block_request_fix)

lemma sim_inv_rr_arrivals:
  "sim_inv s \<Longrightarrow> \<exists>s'. rr_arrivals tq s = Inr s' \<and> sim_inv s' \<and>
                      map static (procs s') = map static (procs s)"
proof (induction tq s rule: rr_arrivals.induct)
  case (1 tq s)
  show ?case
  proof (cases "has_data s \<and> SYSTEM_TIME s = arrivalTime (cur s) \<and> \<not> IS_CPU_IDLE s")
    case guard: True
    let ?s1 = "s\<lparr>procs := modify (procs s) (data s) (\<lambda>n. n\<lparr>firstExecution := True\<rparr>)\<rparr>"
    have i1: "sim_inv ?s1"
      using "1.prems" guard by (intro sim_inv_modify_live) (simp_all add: sim_inv_pending has_data_def)
    have st1: "map static (procs ?s1) = map static (procs s)"
      by simp (rule static_modify, simp add: static_def)
    have c1: "processId (cur ?s1) = processId (cur s)"
      using guard by (simp add: cur_def has_data_def)
    show ?thesis
    proof (cases "processId (cur ?s1) > 1000")
      case True
      obtain s2 where bs: "rr_block_request tq ?s1 = Inr s2" "sim_inv s2" "data s2 = data s"
        and st2: "map static (procs s2) = map static (procs ?s1)"
        using sim_inv_rr_block_request [OF i1] guard by fastforce
      have "processId (cur s2) = processId (cur s)"
        using static_nth [OF st2] guard bs(3) c1 by (simp add: has_data_def cur_def)
      then have "sim_inv (s2\<lparr>data := Suc (data s2)\<rparr>)"
        using bs guard True c1 st2
        by (intro sim_inv_skip) (auto simp: is_interrupt_def has_data_def dest: arg_cong [of _ _ length])
      then obtain s3 where "rr_arrivals tq (s2\<lparr>data := Suc (data s2)\<rparr>) = Inr s3" "sim_inv s3"
          "map static (procs s3) = map static (procs s2)"
        using "1.IH"(1) [OF guard refl True bs(1)] by auto
      then show ?thesis
        using guard True bs st1 st2 by (subst rr_arrivals.simps) (simp add: Let_def)
    next
      case False
      let ?s2 = "?s1\<lparr>rq := enqueue (rq ?s1) (data ?s1), data := Suc (data ?s1)\<rparr>"
      have "sim_inv ?s2"
        using i1 guard False c1
        by (rule_tac sim_inv_admit [of ?s1]) (auto simp: is_interrupt_def sim_inv_def owned_def enqueue_def has_data_def)
      then obtain s3 where "rr_arrivals tq ?s2 = Inr s3" "sim_inv s3"
          "map static (procs s3) = map static (procs ?s2)"
        using "1.IH"(2) [OF guard refl False] by auto
      then show ?thesis
        using guard False st1 by (subst rr_arrivals.simps) (simp add: Let_def)
    qed
  next
    case False
    then have "rr_arrivals tq s = Inr s"
      by (subst rr_arrivals.simps) (rule if_not_P)
    with "1.prems" show ?thesis by simp
  qed
qed

lemma sim_inv_rr_take:
  assumes inv: "sim_inv (s\<lparr>ref := Some r, rq := q, IS_CPU_IDLE := False\<rparr>)"
  shows "sim_inv (s\<lparr>ref := Some r, rq := q, procs := rr_first s r, IS_CPU_IDLE := False, quantum := tq\<rparr>) \<and>
         map static (rr_first s r) = map static (procs s)"
proof -
  let ?x = "s\<lparr>ref := Some r, rq := q, IS_CPU_IDLE := False\<rparr>"
  have "sim_inv (?x\<lparr>procs := rr_first s r\<rparr>)"
  proof (cases "firstExecution (procs s ! r)")
    case True
    have "sim_inv (?x\<lparr>procs := set_response (procs ?x) r (SYSTEM_TIME ?x)\<rparr>)"
      using inv by (rule sim_inv_set_response) (simp add: owned_def)
    with True show ?thesis by (simp add: rr_first_def)
  next
    case False
    with inv show ?thesis by (simp add: rr_first_def)
  qed
  moreover have "?x\<lparr>procs := rr_first s r, quantum := tq\<rparr> =
      s\<lparr>ref := Some r, rq := q, procs := rr_first s r, IS_CPU_IDLE := False, quantum := tq\<rparr>"
    by (cases s) simp
  ultimately show ?thesis
    by (metis sim_inv_quantum rr_first_def static_set_response)
qed

lemma sim_inv_rr_dispatch:
  assumes inv: "sim_inv s"
  shows "\<exists>s'. rr_dispatch tq s = Inr s' \<and> sim_inv s' \<and> map static (procs s') = map static (procs s)"
proof (cases "IS_CPU_IDLE s \<and> \<not> isEmpty (rq s)")
  case True
  then obtain r q where q: "rq s = r # q" and idle: "IS_CPU_IDLE s"
    by (cases "rq s") (auto simp: isEmpty_def)
  then have "ref s = None"
    using inv by (simp add: sim_inv_def)
  then have "mset (owned (s\<lparr>ref := Some r, rq := q, IS_CPU_IDLE := False\<rparr>)) = mset (owned s)"
    using q by (simp add: owned_def)
  from sim_inv_perm [OF inv _ _ this] have "sim_inv (s\<lparr>ref := Some r, rq := q, IS_CPU_IDLE := False\<rparr>)"
    by simp
  from sim_inv_rr_take [OF this, of tq] show ?thesis
    using q idle by (simp add: rr_dispatch_def dequeue_def isEmpty_def)
next
  case notidle: False
  show ?thesis
  proof (cases "quantum s = 0 \<and> \<not> isEmpty (rq s)")
    case True
    then obtain r q where q: "rq s = r # q" and busy: "\<not> IS_CPU_IDLE s" and z: "quantum s = 0"
      using notidle by (cases "rq s") (auto simp: isEmpty_def)
    then obtain c where c: "ref s = Some c"
      using inv by (cases "ref s") (auto simp: sim_inv_def)
    have "mset (owned (s\<lparr>ref := Some r, rq := q @ [c], IS_CPU_IDLE := False\<rparr>)) = mset (owned s)"
      using q c by (simp add: owned_def)
    from sim_inv_perm [OF inv _ _ this] have "sim_inv (s\<lparr>ref := Some r, rq := q @ [c], IS_CPU_IDLE := False\<rparr>)"
      by simp
    from sim_inv_rr_take [OF this, of tq] show ?thesis
      using q busy z c by (simp add: rr_dispatch_def dequeue_def isEmpty_def enqueue_def)
  next
    case False
    with notidle inv show ?thesis
      by (auto simp: rr_dispatch_def)
  qed
qed

lemma sim_inv_rr_tick:
  assumes inv: "sim_inv s" and tick: "rr_tick tq s = Some r"
  shows "\<exists>s'. r = Inr s' \<and> sim_inv s' \<and> map static (procs s') = map static (procs s)"
proof -
  obtain s3 where iw: "rr_idle_wait (age (run_dec (rr_count s))) = Some s3"
    using tick by (auto simp: rr_tick_def split: option.splits)
  have "sim_inv (age (run_dec (rr_count s)))"
    using inv by (intro sim_inv_age sim_inv_run_dec sim_inv_rr_count)
  from sim_inv_rr_idle_wait [OF iw this] have i3: "sim_inv s3"
    and st3: "map static (procs s3) = map static (procs s)"
    using static_run_dec_age [of "rr_count s"] by (simp_all add: rr_count_def)
  obtain s4 where ar: "rr_arrivals tq s3 = Inr s4" and i4: "sim_inv s4"
    and st4: "map static (procs s4) = map static (procs s3)"
    using sim_inv_rr_arrivals [OF i3] by blast
  have "sim_inv (complete_running s4)"
    using i4 by (rule sim_inv_complete_running)
  then obtain s5 where ds: "rr_dispatch tq (complete_running s4) = Inr s5" and i5: "sim_inv s5"
    and st5: "map static (procs s5) = map static (procs (complete_running s4))"
    using sim_inv_rr_dispatch by blast
  have "r = Inr (advance (release_step (\<lambda>ps. enqueue) s5))"
    using tick iw ar ds by (simp add: rr_tick_def)
  moreover have "sim_inv (advance (release_step (\<lambda>ps. enqueue) s5))"
    using i5 by (intro sim_inv_advance sim_inv_release_step enq_ok_enqueue)
  moreover have "map static (procs (complete_running s4)) = map static (procs s4)"
    by (auto simp: complete_running_def split: option.split)
  ultimately show ?thesis
    using st3 st4 st5 by (auto simp: advance_def release_step_def split: prod.split)
qed

lemma rr_run:
  assumes fresh: "\<forall>n \<in> set ps. \<not> isTerminated n" and ret: "roundRobin tq ps = Some r"
  shows "\<exists>s. r = Inr s \<and> sim_inv s \<and> \<not> loop_cond s \<and> map static (procs s) = map static ps"
proof -
  let ?P = "\<lambda>s. sim_inv s \<and> map static (procs s) = map static ps"
  have "?P (init_sim ps tq)"
    using fresh by (simp add: sim_inv_init) (simp add: init_sim_def)
  from sched_loop_inv [where P = ?P, OF ret [unfolded roundRobin_def] this] show ?thesis
    using sim_inv_rr_tick by fastforce
qed

text \<open>C5: \<^verbatim>\<open>roundRobin\<close> never dereferences a NULL pointer: on any loaded input and
  any quantum it runs forever or returns normally.\<close>

theorem rr_no_crash: "roundRobin tq (input recs) \<noteq> Some (Inl e)"
  using rr_run [of "input recs" tq] input_fresh by auto

text \<open>C4: when \<^verbatim>\<open>roundRobin\<close> returns, every real process of the input has terminated
  with no time left and consistent completion and turnaround times, and no identity,
  arrival or burst time was changed.\<close>

theorem rr_completes_all:
  assumes "roundRobin tq (input recs) = Some (Inr s)"
  shows "map static (procs s) = map static (input recs) \<and>
         (\<forall>i < length (procs s). \<not> is_interrupt (procs s ! i) \<longrightarrow>
            isTerminated (procs s ! i) \<and> finished_ok (procs s ! i))"
  using rr_run [OF _ assms] input_fresh sim_inv_final by blast

end
