(* ===== verification/Reachable.thy ===== *)
theory Reachable
  imports Engine_Inv
begin

text \<open>
  The states a scheduling loop passes through, as an inductive relation: \<open>reach tick s t\<close>
  holds when the loop started in \<open>s\<close> reaches \<open>t\<close> after some ticks, each taken with
  the loop condition true and returning normally. Invariants of every reachable state are
  proved by rule induction; the state in which \<open>sched_loop\<close> returns is reachable. For
  \<^verbatim>\<open>sjf\<close> the ready queue stays sorted by remaining time: the queued processes
  never run, so their keys do not change while they wait. A reachable state has the
  loop result of the start; a running process with no time left keeps the loop going
  through states with every later clock value.
\<close>

inductive reach :: "(sim \<Rightarrow> (sched_error + sim) option) \<Rightarrow> sim \<Rightarrow> sim \<Rightarrow> bool"
  for tick :: "sim \<Rightarrow> (sched_error + sim) option" where
  start: "reach tick s s"
| step: "reach tick s t \<Longrightarrow> loop_cond t \<Longrightarrow> tick t = Some (Inr u) \<Longrightarrow> reach tick s u"

lemma reach_inv:
  assumes "reach tick s t" and "I s"
    and "\<And>t u. I t \<Longrightarrow> loop_cond t \<Longrightarrow> tick t = Some (Inr u) \<Longrightarrow> I u"
  shows "I t"
  using assms by (induction rule: reach.induct) blast+

lemma sched_loop_reach:
  assumes ret: "sched_loop tick s = Some (Inr r)"
  shows "reach tick s r \<and> \<not> loop_cond r"
proof -
  let ?Q = "\<lambda>tk t x. tk = tick \<longrightarrow> reach tick s t \<longrightarrow> x = (Inr r :: sched_error + sim) \<longrightarrow>
                      reach tick s r \<and> \<not> loop_cond r"
  have "?Q tick s (Inr r)"
  proof (rule sched_loop.raw_induct [where P = ?Q, OF _ ret])
    fix f tk t x
    assume IH: "\<And>tk t x. f tk t = Some x \<Longrightarrow> ?Q tk t x"
      and eq: "(if loop_cond t then
                 (case tk t of None \<Rightarrow> None | Some (Inl e) \<Rightarrow> Some (Inl e) | Some (Inr t') \<Rightarrow> f tk t')
               else Some (Inr t)) = Some x"
    show "?Q tk t x"
    proof (intro impI)
      assume tk: "tk = tick" and rt: "reach tick s t" and x: "x = Inr r"
      show "reach tick s r \<and> \<not> loop_cond r"
      proof (cases "loop_cond t")
        case False
        with eq rt x show ?thesis by auto
      next
        case True
        with eq x obtain u where tu: "tk t = Some (Inr u)" and fu: "f tk u = Some x"
          by (auto split: option.splits sum.splits)
        have "reach tick s u"
          using reach.step [OF rt True] tu tk by simp
        with IH [OF fu] tk x show ?thesis
          by blast
      qed

    qed
  qed
  then show ?thesis by (simp add: reach.start)
qed

lemma reach_sched_loop: "reach tick s t \<Longrightarrow> sched_loop tick s = sched_loop tick t"
proof (induction rule: reach.induct)
  case (step s t u)
  have "sched_loop tick t = sched_loop tick u"
    using step.hyps(2,3) by (subst sched_loop.simps) simp
  with step.IH show ?case
    by simp
qed simp

subsection \<open>Ready-queue keys under writes to other processes\<close>

abbreviation rkeys :: "node list \<Rightarrow> ptr list \<Rightarrow> int list" where
  "rkeys ps q \<equiv> map (\<lambda>j. remainingTime (ps ! j)) q"

lemma rkeys_modify_other: "i \<notin> set q \<Longrightarrow> rkeys (modify ps i f) q = rkeys ps q"
  by (induction q) auto

lemma rkeys_finish: "r \<notin> set q \<Longrightarrow> rkeys (finish ps r t) q = rkeys ps q"
  unfolding finish_def by (rule rkeys_modify_other)

lemma rkeys_deduct: "\<forall>j \<in> set q. j < length ps \<Longrightarrow> rkeys (deduct ps b) q = rkeys ps q"
  by (induction q) simp_all

lemma sorted_tl_rkeys: "sorted (rkeys ps q) \<Longrightarrow> sorted (rkeys ps (tl q))"
  by (cases q) auto

lemma sim_inv_ref_not_queued:
  assumes "sim_inv s" "ref s = Some r"
  shows "r \<notin> set (rq s) \<and> r \<notin> set (bq s)"
proof -
  have "distinct (r # rq s @ bq s)"
    using assms by (simp add: sim_inv_def owned_def)
  then show ?thesis by simp
qed

lemma sim_inv_rq_bound:
  assumes "sim_inv s"
  shows "\<forall>j \<in> set (rq s). j < length (procs s)"
proof
  fix j
  assume "j \<in> set (rq s)"
  then have "j \<in> set (owned s)"
    by (simp add: owned_def)
  with assms have "j < data s" "data s \<le> length (procs s)"
    unfolding sim_inv_def by blast+
  then show "j < length (procs s)"
    by simp
qed

definition ord_enq :: "(node list \<Rightarrow> ptr list \<Rightarrow> ptr \<Rightarrow> ptr list) \<Rightarrow> bool" where
  "ord_enq enq \<longleftrightarrow> (\<forall>ps q d. sorted (rkeys ps q) \<longrightarrow> sorted (rkeys ps (enq ps q d)))"

lemma ord_enq_priorityEnqueue: "ord_enq priorityEnqueue"
  unfolding ord_enq_def by (simp add: priorityEnqueue_def prio_insert_ins_key sorted_ins_key)

lemma rq_take_cpu [simp]: "rq (take_cpu s) = tl (rq s)"
  by (simp add: take_cpu_def dequeue_def split: list.split)

subsection \<open>Each piece of the \<^verbatim>\<open>sjf\<close> tick keeps the ready queue sorted\<close>

lemma ord_run_dec:
  "sim_inv s \<Longrightarrow> sorted (rkeys (procs s) (rq s)) \<Longrightarrow> sorted (rkeys (procs (run_dec s)) (rq (run_dec s)))"
  by (auto simp: run_dec_def rkeys_modify_other sim_inv_ref_not_queued split: option.split)

lemma ord_age:
  "sim_inv s \<Longrightarrow> sorted (rkeys (procs s) (rq s)) \<Longrightarrow> sorted (rkeys (procs (age s)) (rq (age s)))"
  by (simp add: age_def rkeys_deduct sim_inv_rq_bound)

lemma ord_idle_wait:
  "idle_wait s = Some s' \<Longrightarrow> sorted (rkeys (procs s) (rq s)) \<Longrightarrow> sorted (rkeys (procs s') (rq s'))"
  using idle_wait_frame by metis

lemma ord_block_request:
  assumes inv: "sim_inv s" and ord: "sorted (rkeys (procs s) (rq s))" and br: "block_request s = Inr s'"
  shows "sorted (rkeys (procs s') (rq s'))"
proof -
  obtain r where r: "ref s = Some r"
    using br by (cases "ref s") (auto simp: block_request_def)
  have out: "r \<notin> set (rq s)"
    using sim_inv_ref_not_queued [OF inv r] by simp
  have keys: "rkeys (procs s') (rq s) = rkeys (procs s) (rq s)" and q: "rq s' = tl (rq s)"
    using br r out
    by (auto simp: block_request_def Let_def rkeys_modify_other rkeys_finish simp del: map_eq_conv
             split: if_splits)
  have "sorted (rkeys (procs s') (rq s))"
    using ord by (simp only: keys)
  then show ?thesis
    unfolding q by (rule sorted_tl_rkeys)
qed

lemma ord_np_arrivals:
  "enq_ok enq \<Longrightarrow> ord_enq enq \<Longrightarrow> sim_inv s \<Longrightarrow> sorted (rkeys (procs s) (rq s)) \<Longrightarrow>
     np_arrivals enq s = Inr s' \<Longrightarrow> sorted (rkeys (procs s') (rq s'))"
proof (induction enq s rule: np_arrivals.induct)
  case (1 enq s)
  show ?case
  proof (cases "has_data s \<and> SYSTEM_TIME s = arrivalTime (cur s) \<and> \<not> IS_CPU_IDLE s")
    case guard: True
    show ?thesis
    proof (cases "processId (cur s) > 1000")
      case True
      obtain s1 where bs: "block_request s = Inr s1" "sim_inv s1" "data s1 = data s"
        and st: "map static (procs s1) = map static (procs s)"
        using sim_inv_block_request [OF "1.prems"(3)] guard by blast
      have "processId (cur s1) = processId (cur s)"
        using static_nth [OF st] guard bs(3) by (simp add: has_data_def cur_def)
      then have i2: "sim_inv (s1\<lparr>data := Suc (data s1)\<rparr>)"
        using bs guard True st
        by (intro sim_inv_skip) (auto simp: is_interrupt_def has_data_def dest: arg_cong [of _ _ length])
      have o2: "sorted (rkeys (procs (s1\<lparr>data := Suc (data s1)\<rparr>)) (rq (s1\<lparr>data := Suc (data s1)\<rparr>)))"
        using ord_block_request [OF "1.prems"(3,4) bs(1)] by simp
      have "np_arrivals enq (s1\<lparr>data := Suc (data s1)\<rparr>) = Inr s'"
        using "1.prems"(5) guard True bs(1) by (subst (asm) np_arrivals.simps) simp
      from "1.IH"(1) [OF guard True bs(1) "1.prems"(1,2) i2 o2 this] show ?thesis .
    next
      case False
      let ?s = "s\<lparr>rq := enq (procs s) (rq s) (data s), data := Suc (data s)\<rparr>"
      have "mset (owned ?s) = add_mset (data s) (mset (owned s))"
        using "1.prems"(1) by (simp add: owned_def enq_ok_def)
      then have i2: "sim_inv ?s"
        using "1.prems"(3) guard False
        by (rule_tac sim_inv_admit [of s]) (auto simp: is_interrupt_def sim_inv_def)
      have o2: "sorted (rkeys (procs ?s) (rq ?s))"
        using "1.prems"(2,4) by (simp add: ord_enq_def)
      have "np_arrivals enq ?s = Inr s'"
        using "1.prems"(5) guard False by (subst (asm) np_arrivals.simps) simp
      from "1.IH"(2) [OF guard False "1.prems"(1,2) i2 o2 this] show ?thesis .
    qed
  next
    case False
    then have "np_arrivals enq s = Inr s"
      by (subst np_arrivals.simps) (rule if_not_P)
    with "1.prems" show ?thesis by simp
  qed
qed

lemma ord_complete_running:
  "sim_inv s \<Longrightarrow> sorted (rkeys (procs s) (rq s)) \<Longrightarrow>
     sorted (rkeys (procs (complete_running s)) (rq (complete_running s)))"
  by (auto simp: complete_running_def rkeys_finish sim_inv_ref_not_queued split: option.split)

lemma ord_dispatch:
  "sorted (rkeys (procs s) (rq s)) \<Longrightarrow> sorted (rkeys (procs (dispatch s)) (rq (dispatch s)))"
  by (auto simp: dispatch_def dequeue_def split: list.split)

lemma ord_release:
  "ord_enq enq \<Longrightarrow> sorted (rkeys ps q) \<Longrightarrow> release enq ps b q = (b', q') \<Longrightarrow> sorted (rkeys ps q')"
proof (induction enq ps b q rule: release.induct)
  case (2 enq ps b bs q)
  have "sorted (rkeys ps (enq ps q b))"
    using "2.prems"(1,2) by (simp add: ord_enq_def)
  with 2 show ?case
    by (auto split: if_splits)
qed simp

lemma ord_release_step:
  "ord_enq enq \<Longrightarrow> sorted (rkeys (procs s) (rq s)) \<Longrightarrow>
     sorted (rkeys (procs (release_step enq s)) (rq (release_step enq s)))"
  by (auto simp: release_step_def dest: ord_release split: prod.split)

lemma ord_np_tick:
  assumes enq: "enq_ok enq" "ord_enq enq" and inv: "sim_inv s" and ord: "sorted (rkeys (procs s) (rq s))"
    and tick: "np_tick enq s = Some (Inr u)"
  shows "sorted (rkeys (procs u) (rq u))"
proof -
  obtain s3 where iw: "idle_wait (age (run_dec s)) = Some s3"
    using tick by (auto simp: np_tick_def split: option.splits)
  have i1: "sim_inv (age (run_dec s))"
    using inv by (intro sim_inv_age sim_inv_run_dec)
  have o1: "sorted (rkeys (procs (age (run_dec s))) (rq (age (run_dec s))))"
    using ord_age [OF sim_inv_run_dec [OF inv] ord_run_dec [OF inv ord]] .
  have i3: "sim_inv s3" and o3: "sorted (rkeys (procs s3) (rq s3))"
    using sim_inv_idle_wait [OF iw i1] ord_idle_wait [OF iw o1] by simp_all
  obtain s4 where ar: "np_arrivals enq s3 = Inr s4" and i4: "sim_inv s4"
    using sim_inv_np_arrivals [OF enq(1) i3] by blast
  have o4: "sorted (rkeys (procs s4) (rq s4))"
    using ord_np_arrivals [OF enq i3 o3 ar] .
  have u: "u = advance (release_step enq (dispatch (complete_running s4)))"
    using tick iw ar by (simp add: np_tick_def)
  have "sorted (rkeys (procs (release_step enq (dispatch (complete_running s4))))
                  (rq (release_step enq (dispatch (complete_running s4)))))"
    using ord_release_step [OF enq(2) ord_dispatch [OF ord_complete_running [OF i4 o4]]] .
  then show ?thesis
    unfolding u by (simp add: advance_def)
qed

subsection \<open>Invariants of every reachable state\<close>

text \<open>C15: every state that the loop of \<^verbatim>\<open>fcfs\<close> or \<^verbatim>\<open>sjf\<close> reaches from a loaded
  input satisfies the engine invariant: \<^verbatim>\<open>IS_CPU_IDLE\<close> exactly when \<^verbatim>\<open>ref\<close> is
  NULL, the running, ready and blocked processes are distinct admitted real processes
  that have not terminated, every admitted real process is held or terminated, every
  terminated one has consistent times; and no identity, arrival or burst time changed.\<close>

theorem reachable_sim_inv:
  assumes "enq_ok enq" and "reach (np_tick enq) (init_sim (input recs) tq) s"
  shows "sim_inv s \<and> map static (procs s) = map static (input recs)"
proof (rule reach_inv [OF assms(2)])
  show "sim_inv (init_sim (input recs) tq) \<and>
        map static (procs (init_sim (input recs) tq)) = map static (input recs)"
    using input_fresh by (simp add: sim_inv_init) (simp add: init_sim_def)
next
  fix t u
  assume "sim_inv t \<and> map static (procs t) = map static (input recs)" "np_tick enq t = Some (Inr u)"
  then show "sim_inv u \<and> map static (procs u) = map static (input recs)"
    using sim_inv_np_tick [OF _ assms(1)] by fastforce
qed

text \<open>C16: in every state that the loop of \<^verbatim>\<open>sjf\<close> reaches, the ready queue is sorted by
  remaining time, so the process \<^verbatim>\<open>dequeue\<close> hands to the CPU has the least remaining
  time of all ready processes.\<close>

theorem sjf_ready_queue_sorted:
  assumes "reach (np_tick priorityEnqueue) (init_sim (input recs) tq) s"
  shows "sorted (map (\<lambda>j. remainingTime (procs s ! j)) (rq s))"
proof -
  have "sim_inv s \<and> sorted (rkeys (procs s) (rq s))"
  proof (rule reach_inv [OF assms])
    show "sim_inv (init_sim (input recs) tq) \<and>
          sorted (rkeys (procs (init_sim (input recs) tq)) (rq (init_sim (input recs) tq)))"
      using input_fresh by (simp add: sim_inv_init) (simp add: init_sim_def)
  next
    fix t u
    assume "sim_inv t \<and> sorted (rkeys (procs t) (rq t))" "np_tick priorityEnqueue t = Some (Inr u)"
    then show "sim_inv u \<and> sorted (rkeys (procs u) (rq u))"
      using sim_inv_np_tick [OF _ enq_ok_priorityEnqueue]
        ord_np_tick [OF enq_ok_priorityEnqueue ord_enq_priorityEnqueue] by fastforce
  qed
  then show ?thesis by simp
qed

text \<open>C24: a running process that has no time left after the completion check (a
  burst of 0 taken from the ready queue) is never completed once the input is exhausted:
  for every \<open>k\<close> the run passes, still looping and with the same result, through the
  state \<open>k\<close> ticks later, in which the process still runs, the clock has advanced by
  \<open>k\<close> and \<^verbatim>\<open>remainingTime\<close> has dropped by \<open>k\<close>. The C run thus cannot end before
  \<^verbatim>\<open>SYSTEM_TIME++\<close> (line 385) passes \<open>INT_MAX\<close> and \<^verbatim>\<open>remainingTime--\<close>
  (line 318) passes \<open>INT_MIN\<close>: signed overflow, undefined behaviour.\<close>

theorem exhausted_process_runs_clock:
  assumes "\<not> has_data s" "ref s = Some r" "r < length (procs s)"
    and "remainingTime (procs s ! r) \<le> 0" "\<not> IS_CPU_IDLE s"
  shows "\<exists>t. reach (np_tick enq) s t \<and> loop_cond t \<and> sched_loop (np_tick enq) s = sched_loop (np_tick enq) t \<and>
             ref t = Some r \<and> SYSTEM_TIME t = SYSTEM_TIME s + int k \<and>
             remainingTime (procs t ! r) = remainingTime (procs s ! r) - int k"
proof -
  have "\<exists>t. reach (np_tick enq) s t \<and> \<not> has_data t \<and> ref t = Some r \<and> r < length (procs t) \<and>
            \<not> IS_CPU_IDLE t \<and> SYSTEM_TIME t = SYSTEM_TIME s + int k \<and>
            remainingTime (procs t ! r) = remainingTime (procs s ! r) - int k"
  proof (induction k)
    case 0
    show ?case
      using assms by (auto intro: reach.start)
  next
    case (Suc k)
    then obtain t where t: "reach (np_tick enq) s t" "\<not> has_data t" "ref t = Some r"
      "r < length (procs t)" "\<not> IS_CPU_IDLE t" "SYSTEM_TIME t = SYSTEM_TIME s + int k"
      "remainingTime (procs t ! r) = remainingTime (procs s ! r) - int k"
      by blast
    have "remainingTime (procs t ! r) \<le> 0"
      using t(7) assms(4) by simp
    then obtain t' where "loop_cond t" "np_tick enq t = Some (Inr t')" "\<not> has_data t'"
      "ref t' = Some r" "r < length (procs t')" "\<not> IS_CPU_IDLE t'"
      "remainingTime (procs t' ! r) = remainingTime (procs t ! r) - 1"
      "SYSTEM_TIME t' = SYSTEM_TIME t + 1"
      using exhausted_tick [OF t(2-4) _ t(5), of enq] by blast
    with t show ?case
      by (intro exI [of _ t']) (auto intro: reach.step)
  qed
  then obtain t where t: "reach (np_tick enq) s t" "ref t = Some r"
    "SYSTEM_TIME t = SYSTEM_TIME s + int k"
    "remainingTime (procs t ! r) = remainingTime (procs s ! r) - int k"
    by blast
  then show ?thesis
    using reach_sched_loop [OF t(1)] by (auto simp: loop_cond_def)
qed

end
