(* ===== verification/Np_Termination.thy ===== *)
theory Np_Termination
  imports Engine_Inv
begin

text \<open>
  Termination of \<^verbatim>\<open>fcfs\<close> and \<^verbatim>\<open>sjf\<close> on well-formed inputs: no block requests,
  at most 1000 processes (so that no identity crosses the block-request threshold),
  positive bursts and arrival times that are non-negative and in file order. The
  argument is a measure on the loop state: twice the remaining work of all held and
  not yet admitted processes, plus one while the CPU is idle. A busy tick runs the
  process for one unit; an idle tick starts the next arrival. Both lower the measure.
\<close>

definition wf_input :: "(int \<times> int \<times> int) list \<Rightarrow> bool" where
  "wf_input recs \<longleftrightarrow> length recs \<le> 1000 \<and> sorted (map fst recs) \<and>
     (\<forall>r \<in> set recs. snd (snd r) = 0 \<and> 0 < fst (snd r) \<and> 0 \<le> fst r)"

text \<open>The processes that still need the CPU: the held ones and those not yet admitted.\<close>

definition pool :: "sim \<Rightarrow> ptr multiset" where
  "pool s = mset (owned s) + mset [data s..<length (procs s)]"

definition work :: "sim \<Rightarrow> int" where
  "work s = sum_mset (image_mset (\<lambda>j. remainingTime (procs s ! j)) (pool s))"

definition mu :: "sim \<Rightarrow> nat" where
  "mu s = nat (2 * work s + (if IS_CPU_IDLE s then 1 else 0))"

text \<open>The invariant of a run from a well-formed input: the engine invariant, no blocked
  process, an idle CPU has nothing ready, every held process has time left, records not
  yet admitted are untouched, and the next record has not arrived in the past.\<close>

definition tinv :: "(int \<times> int \<times> int) list \<Rightarrow> sim \<Rightarrow> bool" where
  "tinv recs s \<longleftrightarrow> sim_inv s \<and> map static (procs s) = map static (input recs) \<and> bq s = [] \<and>
     (IS_CPU_IDLE s \<longrightarrow> rq s = []) \<and> (\<forall>j \<in> set (owned s). 0 < remainingTime (procs s ! j)) \<and>
     (\<forall>j. data s \<le> j \<longrightarrow> j < length (procs s) \<longrightarrow> procs s ! j = input recs ! j) \<and>
     (has_data s \<longrightarrow> SYSTEM_TIME s \<le> arrivalTime (cur s))"

text \<open>What the dispatch step at the end of a tick may do, for the measure: keep the
  held processes, their remaining times and the records not yet admitted, keep the clock,
  leave an idle CPU only with nothing ready, and never idle a busy CPU.\<close>

definition dispatch_like :: "sim \<Rightarrow> sim \<Rightarrow> bool" where
  "dispatch_like s s' \<longleftrightarrow> pool s' = pool s \<and> length (procs s') = length (procs s) \<and>
     (\<forall>j < length (procs s). remainingTime (procs s' ! j) = remainingTime (procs s ! j)) \<and>
     (\<forall>j. data s \<le> j \<longrightarrow> j < length (procs s) \<longrightarrow> procs s' ! j = procs s ! j) \<and>
     data s' = data s \<and> SYSTEM_TIME s' = SYSTEM_TIME s \<and> bq s' = bq s \<and>
     (IS_CPU_IDLE s' \<longrightarrow> rq s' = []) \<and> (\<not> IS_CPU_IDLE s \<longrightarrow> \<not> IS_CPU_IDLE s')"

lemma sched_loop_terminates:
  fixes mu :: "sim \<Rightarrow> nat"
  assumes "I s"
    and step: "\<And>t. I t \<Longrightarrow> loop_cond t \<Longrightarrow> \<exists>u. tick t = Some (Inr u) \<and> I u \<and> mu u < mu t"
  shows "\<exists>r. sched_loop tick s = Some (Inr r)"
  using assms(1)
proof (induction "mu s" arbitrary: s rule: less_induct)
  case less
  show ?case
  proof (cases "loop_cond s")
    case True
    then obtain u where u: "tick s = Some (Inr u)" "I u" "mu u < mu s"
      using step [OF less.prems] by blast
    then obtain r where "sched_loop tick u = Some (Inr r)"
      using less.hyps by blast
    with True u show ?thesis
      by (subst sched_loop.simps) simp
  next
    case False
    then show ?thesis
      by (subst sched_loop.simps) simp
  qed
qed

lemma wf_input_nth:
  assumes "wf_input recs" "j < length recs"
  shows "processId (input recs ! j) = 1 + int j \<and> arrivalTime (input recs ! j) = fst (recs ! j) \<and>
         burstTime (input recs ! j) = fst (snd (recs ! j)) \<and> 0 < fst (snd (recs ! j)) \<and>
         0 \<le> fst (recs ! j)"
proof -
  have flags: "\<forall>r \<in> set (take j recs). snd (snd r) = 0"
    using assms(1) by (auto simp: wf_input_def dest: in_set_takeD)
  then have "filter (\<lambda>r. snd (snd r) = 0) (take j recs) = take j recs"
    by (simp add: filter_id_conv)
  moreover have "recs ! j \<in> set recs"
    using assms(2) by simp
  ultimately show ?thesis
    using input_nth_node [OF assms(2)] assms
    by (auto simp: new_node_def next_id_def init_counters_def wf_input_def)
qed

text \<open>The arrival loop on a busy CPU with no block request pending admits exactly the
  records arriving now, in order.\<close>

lemma np_arrivals_plain:
  assumes "enq_ok enq" "data s \<le> length (procs s)" "\<not> IS_CPU_IDLE s"
    and "\<forall>j. data s \<le> j \<longrightarrow> j < length (procs s) \<longrightarrow> \<not> 1000 < processId (procs s ! j)"
  shows "\<exists>k q. np_arrivals enq s = Inr (s\<lparr>rq := q, data := k\<rparr>) \<and> data s \<le> k \<and> k \<le> length (procs s) \<and>
           mset q = mset (rq s) + mset [data s..<k] \<and>
           (\<forall>j. data s \<le> j \<longrightarrow> j < k \<longrightarrow> arrivalTime (procs s ! j) = SYSTEM_TIME s) \<and>
           (k < length (procs s) \<longrightarrow> arrivalTime (procs s ! k) \<noteq> SYSTEM_TIME s)"
  using assms
proof (induction enq s rule: np_arrivals.induct)
  case (1 enq s)
  show ?case
  proof (cases "has_data s \<and> SYSTEM_TIME s = arrivalTime (cur s) \<and> \<not> IS_CPU_IDLE s")
    case guard: True
    have real: "\<not> processId (cur s) > 1000"
      using "1.prems"(4) guard by (simp add: has_data_def cur_def)
    let ?s = "s\<lparr>rq := enq (procs s) (rq s) (data s), data := Suc (data s)\<rparr>"
    obtain k q where r: "np_arrivals enq ?s = Inr (?s\<lparr>rq := q, data := k\<rparr>)" "Suc (data s) \<le> k"
      "k \<le> length (procs s)" "mset q = mset (enq (procs s) (rq s) (data s)) + mset [Suc (data s)..<k]"
      "\<forall>j. Suc (data s) \<le> j \<longrightarrow> j < k \<longrightarrow> arrivalTime (procs s ! j) = SYSTEM_TIME s"
      "k < length (procs s) \<longrightarrow> arrivalTime (procs s ! k) \<noteq> SYSTEM_TIME s"
      using "1.IH"(2) [OF guard real "1.prems"(1)] "1.prems"(3,4) guard by (auto simp: has_data_def)
    have "np_arrivals enq s = Inr (s\<lparr>rq := q, data := k\<rparr>)"
      using guard real r(1) by (subst np_arrivals.simps) simp
    moreover have "mset q = mset (rq s) + mset [data s..<k]"
      using r(2,4) "1.prems"(1) by (simp add: enq_ok_def upt_conv_Cons)
    moreover have "\<forall>j. data s \<le> j \<longrightarrow> j < k \<longrightarrow> arrivalTime (procs s ! j) = SYSTEM_TIME s"
    proof (intro allI impI)
      fix j
      assume j: "data s \<le> j" "j < k"
      show "arrivalTime (procs s ! j) = SYSTEM_TIME s"
      proof (cases "j = data s")
        case True
        with guard show ?thesis by (simp add: cur_def)
      next
        case False
        with j r(5) show ?thesis by simp
      qed
    qed
    ultimately show ?thesis
      using r(2,3,6) by (intro exI [of _ k] exI [of _ q]) simp
  next
    case False
    then have "np_arrivals enq s = Inr s"
      by (subst np_arrivals.simps) (rule if_not_P)
    moreover have "data s < length (procs s) \<longrightarrow> arrivalTime (procs s ! data s) \<noteq> SYSTEM_TIME s"
      using False "1.prems"(3) by (auto simp: has_data_def cur_def)
    ultimately show ?thesis
      using "1.prems"(2) by (intro exI [of _ "data s"] exI [of _ "rq s"]) simp
  qed
qed

subsection \<open>The measure\<close>

lemma sum_image_mset_change:
  fixes f g :: "'a \<Rightarrow> int"
  assumes "count M r = 1" and "\<And>j. j \<in># M \<Longrightarrow> j \<noteq> r \<Longrightarrow> g j = f j"
  shows "sum_mset (image_mset g M) = sum_mset (image_mset f M) + (g r - f r)"
proof -
  let ?M' = "M - {#r#}"
  have "0 < count M r"
    using assms(1) by simp
  then have M: "M = add_mset r ?M'"
    by (simp add: count_greater_zero_iff)
  have "count ?M' r = 0"
    using assms(1) by simp
  then have out: "r \<notin># ?M'"
    by (simp add: not_in_iff)
  have "image_mset g ?M' = image_mset f ?M'"
    using out by (intro image_mset_cong assms(2)) (auto dest: in_diffD)
  then show ?thesis
    by (subst (1 2) M) simp
qed

lemma pool_distinct:
  assumes "sim_inv s"
  shows "distinct (owned s @ [data s..<length (procs s)])"
proof -
  have "\<forall>i \<in> set (owned s). i < data s"
    using assms by (simp add: sim_inv_def)
  then show ?thesis
    using assms by (auto simp: sim_inv_def)
qed

lemma pool_bound: "sim_inv s \<Longrightarrow> j \<in># pool s \<Longrightarrow> j < length (procs s)"
  by (auto simp: pool_def sim_inv_def)

lemma count_pool_owned:
  assumes "sim_inv s" "j \<in> set (owned s)"
  shows "count (pool s) j = 1"
proof -
  have "count (mset (owned s @ [data s..<length (procs s)])) j = 1"
    using pool_distinct [OF assms(1)] assms(2) by (simp add: distinct_count_atmost_1)
  then show ?thesis
    by (simp add: pool_def)
qed

lemma remainingTime_modify:
  "(\<And>n. remainingTime (f n) = remainingTime n) \<Longrightarrow> remainingTime (modify ps i f ! j) = remainingTime (ps ! j)"
  by (cases "i = j"; cases "i < length ps") (simp_all add: modify_beyond)

lemma arrivalTime_modify:
  "(\<And>n. arrivalTime (f n) = arrivalTime n) \<Longrightarrow> arrivalTime (modify ps i f ! j) = arrivalTime (ps ! j)"
  by (cases "i = j"; cases "i < length ps") (simp_all add: modify_beyond)

lemma remainingTime_finish [simp]: "remainingTime (finish ps r t ! j) = remainingTime (ps ! j)"
  unfolding finish_def by (rule remainingTime_modify) simp

lemma sum_image_mset_nonneg:
  fixes f :: "ptr \<Rightarrow> int"
  shows "\<forall>j \<in># N. 0 < f j \<Longrightarrow> 0 \<le> sum_mset (image_mset f N)"
  by (induction N) auto

lemma pool_pos_sum:
  fixes f :: "ptr \<Rightarrow> int"
  assumes "\<forall>j \<in># M. 0 < f j" "r \<in># M"
  shows "f r \<le> sum_mset (image_mset f M)"
proof -
  have M: "M = add_mset r (M - {#r#})"
    using assms(2) by simp
  have "0 \<le> sum_mset (image_mset f (M - {#r#}))"
    using assms(1) by (intro sum_image_mset_nonneg) (auto dest: in_diffD)
  then show ?thesis
    by (subst M) simp
qed

lemma release_step_Nil: "bq s = [] \<Longrightarrow> release_step enq s = s"
  by (simp add: release_step_def)

lemma dispatch_idle: "IS_CPU_IDLE (dispatch s) \<Longrightarrow> rq (dispatch s) = []"
  by (auto simp: dispatch_def dequeue_def split: list.splits if_splits)

lemma dispatch_frame [simp]:
  "procs (dispatch s) = procs s" "data (dispatch s) = data s" "bq (dispatch s) = bq s"
  "SYSTEM_TIME (dispatch s) = SYSTEM_TIME s"
  by (auto simp: dispatch_def dequeue_def split: list.splits)

lemma pool_dispatch: "sim_inv s \<Longrightarrow> pool (dispatch s) = pool s"
  by (auto simp: dispatch_def dequeue_def pool_def owned_def sim_inv_def split: list.splits)

lemma complete_running_frame [simp]:
  "data (complete_running s) = data s" "bq (complete_running s) = bq s" "rq (complete_running s) = rq s"
  "SYSTEM_TIME (complete_running s) = SYSTEM_TIME s" "length (procs (complete_running s)) = length (procs s)"
  by (auto simp: complete_running_def split: option.splits)

lemma work_complete_running:
  assumes "ref s = Some r" "remainingTime (procs s ! r) = 0" "sim_inv s"
  shows "work (complete_running s) = work s"
proof -
  have "count (pool s) r = 1"
    using count_pool_owned [OF assms(3)] assms(1) by (simp add: owned_def)
  then have P: "pool s = add_mset r (pool (complete_running s))"
    using assms(1,2) by (simp add: complete_running_def pool_def owned_def)
  show ?thesis
    using assms(1,2) by (subst (2) work_def, subst P) (simp add: work_def complete_running_def)
qed

subsection \<open>What the invariant gives\<close>

lemma tinv_length: "tinv recs s \<Longrightarrow> length (procs s) = length recs"
  unfolding tinv_def by (metis length_input length_map)

lemma tinv_node:
  assumes "wf_input recs" "tinv recs s" "j < length (procs s)"
  shows "\<not> 1000 < processId (procs s ! j) \<and> arrivalTime (procs s ! j) = fst (recs ! j) \<and>
         0 < burstTime (procs s ! j) \<and> 0 \<le> arrivalTime (procs s ! j)"
proof -
  have st: "map static (procs s) = map static (input recs)" and L: "length (procs s) = length recs"
    using assms(2) tinv_length by (auto simp: tinv_def)
  have "j < length (input recs)"
    using assms(3) L by simp
  from static_nth [OF st this] wf_input_nth [OF assms(1)] assms(1,3) L show ?thesis
    by (auto simp: wf_input_def)
qed

lemma tinv_sorted:
  assumes "wf_input recs" "tinv recs s" "i \<le> j" "j < length (procs s)"
  shows "arrivalTime (procs s ! i) \<le> arrivalTime (procs s ! j)"
proof -
  have "sorted (map fst recs)" "length (procs s) = length recs"
    using assms(1,2) tinv_length by (auto simp: wf_input_def)
  with assms show ?thesis
    using tinv_node [OF assms(1,2)] by (auto simp: sorted_iff_nth_mono)
qed

lemma tinv_pool_pos:
  assumes "wf_input recs" "tinv recs s"
  shows "\<forall>j \<in># pool s. 0 < remainingTime (procs s ! j)"
proof
  fix j
  assume "j \<in># pool s"
  then consider "j \<in> set (owned s)" | "data s \<le> j" "j < length (procs s)"
    by (auto simp: pool_def)
  then show "0 < remainingTime (procs s ! j)"
  proof cases
    case 1
    with assms(2) show ?thesis by (simp add: tinv_def)
  next
    case 2
    then have "procs s ! j = input recs ! j" "j < length recs"
      using assms(2) tinv_length by (auto simp: tinv_def)
    with wf_input_nth [OF assms(1)] show ?thesis
      by (simp add: new_node_def input_nth_node)
  qed
qed

lemma mset_upt_split: "a \<le> b \<Longrightarrow> b \<le> c \<Longrightarrow> mset [a..<c] = mset [a..<b] + mset [b..<c]"
  by (metis mset_append upt_add_eq_append le_Suc_ex)

subsection \<open>The end of a tick\<close>

lemma complete_running_other:
  assumes "sim_inv s" "data s \<le> j"
  shows "procs (complete_running s) ! j = procs s ! j"
proof (cases "ref s")
  case (Some r)
  then have "r < data s"
    using assms(1) by (simp add: sim_inv_def owned_def)
  with Some assms(2) show ?thesis
    by (simp add: complete_running_def finish_def)
qed (simp add: complete_running_def)

lemma pool_advance [simp]: "pool (advance s) = pool s"
  by (simp add: pool_def owned_def advance_def)

lemma remainingTime_complete_running [simp]:
  "remainingTime (procs (complete_running s) ! j) = remainingTime (procs s ! j)"
  by (simp add: complete_running_def split: option.split)

lemma dispatch_like_dispatch:
  assumes "sim_inv s"
  shows "dispatch_like s (dispatch s)"
proof -
  have "\<not> IS_CPU_IDLE s \<longrightarrow> \<not> IS_CPU_IDLE (dispatch s)"
    by (simp add: dispatch_def)
  then show ?thesis
    using pool_dispatch [OF assms] dispatch_idle [of s] by (simp add: dispatch_like_def)
qed

subsection \<open>An idle tick starts the next arrival\<close>

text \<open>What follows the arrival loop of a tick that began idle: the records arriving
  at the jumped-to time are held (one of them running), nothing completes, and the tail of
  the tick only advances the clock. Stated for any arrival loop and dispatch with that
  outcome, so that the preemptive and the Round Robin loops can use it.\<close>

lemma idle_tail:
  assumes wf: "wf_input recs" and T: "tinv recs s" and idle: "IS_CPU_IDLE s"
    and s4: "length (procs s4) = length (procs s)"
      "\<forall>j < length (procs s). remainingTime (procs s4 ! j) = remainingTime (procs s ! j)"
      "\<forall>j. k \<le> j \<longrightarrow> j < length (procs s) \<longrightarrow> procs s4 ! j = procs s ! j"
      "bq s4 = []" "SYSTEM_TIME s4 = arrivalTime (cur s)" "\<not> IS_CPU_IDLE s4" "data s4 = k" "sim_inv s4"
    and k: "Suc (data s) \<le> k" "k \<le> length (procs s)"
    and own: "mset (owned s4) = mset [data s..<k]"
    and later: "k < length (procs s) \<longrightarrow> arrivalTime (procs s ! k) \<noteq> arrivalTime (cur s)"
    and d5: "dispatch_like (complete_running s4) s5"
    and iu: "sim_inv (advance s5)" "map static (procs (advance s5)) = map static (procs s)"
  shows "tinv recs (advance s5) \<and> mu (advance s5) < mu s"
proof -
  have st: "map static (procs s) = map static (input recs)" and b: "bq s = []"
    and q0: "rq s = []" and pend: "\<forall>j. data s \<le> j \<longrightarrow> j < length (procs s) \<longrightarrow> procs s ! j = input recs ! j"
    using T idle by (auto simp: tinv_def)
  have r0: "ref s = None"
    using T idle by (simp add: tinv_def sim_inv_def)
  have inpool: "j \<in># pool s" if "j \<in> set (owned s4)" for j
  proof -
    have "j \<in> set [data s..<k]"
      using that own by (metis set_mset_mset)
    then show ?thesis
      using k by (auto simp: pool_def)
  qed
  have pos: "0 < remainingTime (procs s4 ! j)" if "j \<in> set (owned s4)" for j
  proof -
    have "j < length (procs s)"
      using inpool [OF that] q0 r0 b by (auto simp: pool_def owned_def)
    then show ?thesis
      using tinv_pool_pos [OF wf T] inpool [OF that] s4(2) by auto
  qed
  obtain r' where r': "ref s4 = Some r'"
    using s4(6,8) by (cases "ref s4") (simp_all add: sim_inv_def)
  have "0 < remainingTime (procs s4 ! r')"
    using pos [of r'] r' by (simp add: owned_def)
  then have cr: "complete_running s4 = s4"
    using r' by (simp add: complete_running_def)
  note D = d5 [unfolded cr dispatch_like_def]
  let ?u = "advance s5"
  have sp: "mset [data s..<length (procs s)] = mset [data s..<k] + mset [k..<length (procs s)]"
    using k by (intro mset_upt_split) simp_all
  have pool_eq: "pool ?u = pool s"
  proof -
    have "pool ?u = pool s4"
      using D by simp
    also have "\<dots> = pool s"
      using own sp s4(1,7) q0 r0 b by (simp add: pool_def owned_def)
    finally show ?thesis .
  qed
  have rem_u: "remainingTime (procs ?u ! j) = remainingTime (procs s ! j)" if "j < length (procs s)" for j
    using D s4(1,2) that by (simp add: advance_def)
  have work_eq: "work ?u = work s"
  proof -
    have "\<forall>j \<in># pool s. j < length (procs s)"
      using T pool_bound by (auto simp: tinv_def)
    then have "image_mset (\<lambda>j. remainingTime (procs ?u ! j)) (pool s) =
               image_mset (\<lambda>j. remainingTime (procs s ! j)) (pool s)"
      using rem_u by (intro image_mset_cong) blast
    then show ?thesis
      unfolding work_def pool_eq by simp
  qed
  have same_u: "procs ?u ! j = procs s ! j" if "k \<le> j" "j < length (procs s)" for j
    using D s4(1,3,7) that by (simp add: advance_def)
  have du: "data ?u = k" and lu: "length (procs ?u) = length (procs s)"
    using D s4(1,7) by (simp_all add: advance_def)
  have "tinv recs ?u"
    unfolding tinv_def
  proof (intro conjI)
    show "sim_inv ?u" "map static (procs ?u) = map static (input recs)"
      using iu st by simp_all
    show "bq ?u = []" "IS_CPU_IDLE ?u \<longrightarrow> rq ?u = []"
      using D s4(4) by (simp_all add: advance_def)
    show "\<forall>j \<in> set (owned ?u). 0 < remainingTime (procs ?u ! j)"
    proof
      fix j
      assume "j \<in> set (owned ?u)"
      then have "j \<in># pool s"
        using pool_eq unfolding pool_def by (metis union_iff in_multiset_in_set)
      then show "0 < remainingTime (procs ?u ! j)"
        using tinv_pool_pos [OF wf T] rem_u pool_bound [of s j] T by (auto simp: tinv_def)
    qed
    show "\<forall>j. data ?u \<le> j \<longrightarrow> j < length (procs ?u) \<longrightarrow> procs ?u ! j = input recs ! j"
      using pend k same_u du lu by simp
    show "has_data ?u \<longrightarrow> SYSTEM_TIME ?u \<le> arrivalTime (cur ?u)"
    proof
      assume "has_data ?u"
      then have kL: "k < length (procs s)"
        using du lu by (simp add: has_data_def)
      have "arrivalTime (cur s) \<le> arrivalTime (procs s ! k)"
        using tinv_sorted [OF wf T _ kL, of "data s"] k by (simp add: cur_def)
      moreover have "SYSTEM_TIME ?u = arrivalTime (cur s) + 1"
        using D s4(5) by (simp add: advance_def)
      moreover have "cur ?u = procs s ! k"
        using du same_u [OF _ kL] by (simp add: cur_def)
      ultimately show "SYSTEM_TIME ?u \<le> arrivalTime (cur ?u)"
        using later kL by simp
    qed
  qed
  moreover have "mu ?u < mu s"
  proof -
    have "0 \<le> work s"
      unfolding work_def using tinv_pool_pos [OF wf T] by (rule sum_image_mset_nonneg)
    then show ?thesis
      using work_eq idle D s4(6) by (simp add: mu_def advance_def)
  qed
  ultimately show ?thesis
    by blast
qed

text \<open>The idle wait of a tick that begins idle jumps the clock to the next arrival and
  starts that record.\<close>

lemma idle_start:
  assumes wf: "wf_input recs" and T: "tinv recs s" and lc: "loop_cond s" and idle: "IS_CPU_IDLE s"
  shows "has_data s \<and> age (run_dec s) = s \<and>
         idle_wait s = Some (s\<lparr>SYSTEM_TIME := arrivalTime (cur s), IS_CPU_IDLE := False,
                                ref := Some (data s), data := Suc (data s)\<rparr>)"
proof -
  have b: "bq s = []" and q0: "rq s = []" and early: "has_data s \<longrightarrow> SYSTEM_TIME s \<le> arrivalTime (cur s)"
    and r0: "ref s = None"
    using T idle by (auto simp: tinv_def sim_inv_def)
  have hd: "has_data s"
    using lc r0 q0 b by (simp add: loop_cond_def isEmpty_def)
  then have "data s < length (procs s)"
    by (simp add: has_data_def)
  note nd = tinv_node [OF wf T this]
  have "idle_wait s = Some (s\<lparr>SYSTEM_TIME := arrivalTime (cur s), IS_CPU_IDLE := False,
                                ref := Some (data s), data := Suc (data s)\<rparr>)"
    using hd idle q0 nd early by (intro idle_wait_jump) (simp_all add: isEmpty_def cur_def)
  moreover have "age (run_dec s) = s"
    using r0 b by (simp add: run_dec_def age_def isEmpty_def)
  ultimately show ?thesis
    using hd by simp
qed

lemma idle_tick:
  assumes wf: "wf_input recs" and enq: "enq_ok enq" and T: "tinv recs s"
    and lc: "loop_cond s" and idle: "IS_CPU_IDLE s"
  shows "\<exists>u. np_tick enq s = Some (Inr u) \<and> tinv recs u \<and> mu u < mu s"
proof -
  have inv: "sim_inv s" and b: "bq s = []" and q0: "rq s = []"
    using T idle by (auto simp: tinv_def)
  note start = idle_start [OF wf T lc idle]
  let ?d = "data s"
  let ?s2 = "s\<lparr>SYSTEM_TIME := arrivalTime (cur s), IS_CPU_IDLE := False, ref := Some ?d, data := Suc ?d\<rparr>"
  have dL: "?d < length (procs s)"
    using start by (simp add: has_data_def)
  have noint: "\<forall>j. data ?s2 \<le> j \<longrightarrow> j < length (procs ?s2) \<longrightarrow> \<not> 1000 < processId (procs ?s2 ! j)"
    using tinv_node [OF wf T] by simp
  obtain k q where ar: "np_arrivals enq ?s2 = Inr (?s2\<lparr>rq := q, data := k\<rparr>)" and k: "Suc ?d \<le> k" "k \<le> length (procs s)"
    and mq: "mset q = mset [Suc ?d..<k]"
    and later: "k < length (procs s) \<longrightarrow> arrivalTime (procs s ! k) \<noteq> arrivalTime (cur s)"
    using np_arrivals_plain [OF enq _ _ noint] dL q0 by auto
  let ?s4 = "?s2\<lparr>rq := q, data := k\<rparr>"
  have "idle_wait s = Some ?s2"
    using start by simp
  from sim_inv_idle_wait [OF this inv] have i2: "sim_inv ?s2" .
  have i4: "sim_inv ?s4"
    using sim_inv_np_arrivals [OF enq i2] ar by auto
  have tick: "np_tick enq s = Some (Inr (advance (dispatch (complete_running ?s4))))"
    using start ar b by (simp add: np_tick_def release_step_Nil)
  have iu: "sim_inv (advance (dispatch (complete_running ?s4))) \<and>
      map static (procs (advance (dispatch (complete_running ?s4)))) = map static (procs s)"
    using sim_inv_np_tick [OF inv enq tick] by simp
  have own: "mset (owned ?s4) = mset [?d..<k]"
    using mq b k by (simp add: owned_def upt_conv_Cons)
  have d5: "dispatch_like (complete_running ?s4) (dispatch (complete_running ?s4))"
    using i4 by (intro dispatch_like_dispatch sim_inv_complete_running)
  have "tinv recs (advance (dispatch (complete_running ?s4))) \<and>
      mu (advance (dispatch (complete_running ?s4))) < mu s"
    using iu by (intro idle_tail [OF wf T idle _ _ _ _ _ _ _ i4 k own later d5]) (simp_all add: b)
  with tick show ?thesis
    by blast
qed

subsection \<open>A busy tick runs the process for one unit\<close>

text \<open>What follows the arrival loop of a tick that began with \<open>r\<close> running: \<open>r\<close>
  has lost one unit, the arrivals of this time are held, and the running process \<open>r'\<close>
  is \<open>r\<close> or one with time left. Stated for any arrival loop and dispatch with that
  outcome.\<close>

lemma busy_tail:
  assumes wf: "wf_input recs" and T: "tinv recs s" and r: "ref s = Some r"
    and s4: "length (procs s4) = length (procs s)"
      "\<forall>j < length (procs s). remainingTime (procs s4 ! j) =
          remainingTime (procs s ! j) - (if j = r then 1 else 0)"
      "\<forall>j. k \<le> j \<longrightarrow> j < length (procs s) \<longrightarrow> procs s4 ! j = procs s ! j"
      "bq s4 = []" "SYSTEM_TIME s4 = SYSTEM_TIME s" "data s4 = k" "ref s4 = Some r'" "sim_inv s4"
    and k: "data s \<le> k" "k \<le> length (procs s)"
    and own: "mset (owned s4) = mset (owned s) + mset [data s..<k]"
    and posq: "\<forall>j \<in> set (rq s4). 0 < remainingTime (procs s4 ! j)"
    and posr: "r' \<noteq> r \<longrightarrow> 0 < remainingTime (procs s4 ! r')"
    and now: "\<forall>j. data s \<le> j \<longrightarrow> j < k \<longrightarrow> arrivalTime (procs s ! j) = SYSTEM_TIME s"
    and later: "k < length (procs s) \<longrightarrow> arrivalTime (procs s ! k) \<noteq> SYSTEM_TIME s"
    and d5: "dispatch_like (complete_running s4) s5"
    and iu: "sim_inv (advance s5)" "map static (procs (advance s5)) = map static (procs s)"
  shows "tinv recs (advance s5) \<and> mu (advance s5) < mu s"
proof -
  have inv: "sim_inv s" and st: "map static (procs s) = map static (input recs)" and b: "bq s = []"
    and pend: "\<forall>j. data s \<le> j \<longrightarrow> j < length (procs s) \<longrightarrow> procs s ! j = input recs ! j"
    and early: "has_data s \<longrightarrow> SYSTEM_TIME s \<le> arrivalTime (cur s)"
    using T by (auto simp: tinv_def)
  have busy: "\<not> IS_CPU_IDLE s"
    using inv r by (simp add: sim_inv_def)
  have rown: "r \<in> set (owned s)"
    using r by (simp add: owned_def)
  have rd: "r < data s" and dL: "data s \<le> length (procs s)"
    using inv rown by (auto simp: sim_inv_def)
  have cnt: "count (pool s) r = 1"
    using count_pool_owned [OF inv rown] .
  have rin: "r \<in># pool s"
    using rown by (simp add: pool_def)
  have pos0: "0 < remainingTime (procs s ! r)"
    using tinv_pool_pos [OF wf T] rin by blast
  have rL: "r < length (procs s)"
    using rd dL by simp
  have rem4: "remainingTime (procs s4 ! r) = remainingTime (procs s ! r) - 1"
    using s4(2) rL by simp
  let ?s5 = "complete_running s4"
  let ?u = "advance s5"
  note D = d5 [unfolded dispatch_like_def]
  have i5: "sim_inv ?s5"
    using s4(8) by (rule sim_inv_complete_running)
  have sp: "mset [data s..<length (procs s)] = mset [data s..<k] + mset [k..<length (procs s)]"
    using k by (rule mset_upt_split)
  have pool4: "pool s4 = pool s"
    using own sp s4(1,6) by (simp add: pool_def)
  have pool_u: "pool ?u = pool ?s5"
    using D by simp
  have lu: "length (procs ?u) = length (procs s)" and du: "data ?u = k"
    using D s4(1,6) by (simp_all add: advance_def)
  have rem_u: "remainingTime (procs ?u ! j) = remainingTime (procs s4 ! j)" if "j < length (procs s)" for j
    using D s4(1) that by (simp add: advance_def)
  have same_u: "procs ?u ! j = procs s ! j" if "k \<le> j" "j < length (procs s)" for j
  proof -
    have "procs ?u ! j = procs ?s5 ! j"
      using D s4(1,6) that by (simp add: advance_def)
    also have "\<dots> = procs s4 ! j"
      using complete_running_other [OF s4(8)] s4(6) that by simp
    finally show ?thesis
      using s4(3) that by simp
  qed
  have zero_r: "r' = r" if "remainingTime (procs s4 ! r') = 0"
    using that posr by auto
  have sub: "pool ?s5 \<subseteq># pool s4"
    by (auto simp: complete_running_def pool_def owned_def split: option.splits)
  have gone: "r \<notin># pool ?s5" if "remainingTime (procs s4 ! r) = 0"
  proof -
    have "r \<in># mset (owned s4)"
      using own rown by simp
    then have r4: "r \<in> set (owned s4)"
      by simp
    have rr: "r' = r"
    proof (rule ccontr)
      assume "r' \<noteq> r"
      then have "r \<in> set (rq s4)"
        using r4 s4(4,7) by (simp add: owned_def)
      with posq that show False
        by auto
    qed
    have "count (pool s4) r = 1"
      using count_pool_owned [OF s4(8)] s4(7) rr by (simp add: owned_def)
    moreover have "pool s4 = add_mset r (pool ?s5)"
      using that s4(7) rr by (simp add: complete_running_def pool_def owned_def)
    ultimately show ?thesis
      by (simp add: not_in_iff)
  qed
  have "tinv recs ?u"
    unfolding tinv_def
  proof (intro conjI)
    show "sim_inv ?u" "map static (procs ?u) = map static (input recs)"
      using iu st by simp_all
    show "bq ?u = []"
      using D s4(4) by (simp add: advance_def complete_running_def split: option.split)
    show "IS_CPU_IDLE ?u \<longrightarrow> rq ?u = []"
      using D by (simp add: advance_def)
    show "\<forall>j \<in> set (owned ?u). 0 < remainingTime (procs ?u ! j)"
    proof
      fix j
      assume "j \<in> set (owned ?u)"
      then have "j \<in># pool ?u"
        unfolding pool_def by simp
      then have ju: "j \<in># pool ?s5"
        by (simp only: pool_u)
      then have j4: "j \<in># pool s"
        using sub pool4 by (metis mset_subset_eqD)
      then have jL: "j < length (procs s)"
        by (rule pool_bound [OF inv])
      show "0 < remainingTime (procs ?u ! j)"
      proof (cases "j = r")
        case True
        then have "remainingTime (procs s4 ! r) \<noteq> 0"
          using gone ju by blast
        with True rem_u [OF jL] rem4 pos0 show ?thesis by simp
      next
        case False
        with j4 jL s4(2) rem_u tinv_pool_pos [OF wf T] show ?thesis by simp
      qed
    qed
    show "\<forall>j. data ?u \<le> j \<longrightarrow> j < length (procs ?u) \<longrightarrow> procs ?u ! j = input recs ! j"
      using pend k same_u du lu by simp
    show "has_data ?u \<longrightarrow> SYSTEM_TIME ?u \<le> arrivalTime (cur ?u)"
    proof
      assume "has_data ?u"
      then have kL: "k < length (procs s)"
        using du lu by (simp add: has_data_def)
      have "SYSTEM_TIME s \<le> arrivalTime (procs s ! k)"
      proof (cases "k = data s")
        case True
        with early kL show ?thesis by (simp add: has_data_def cur_def)
      next
        case False
        then have "arrivalTime (procs s ! (k - 1)) = SYSTEM_TIME s"
          using now k by auto
        moreover have "arrivalTime (procs s ! (k - 1)) \<le> arrivalTime (procs s ! k)"
          using tinv_sorted [OF wf T _ kL] by simp
        ultimately show ?thesis by simp
      qed
      moreover have "SYSTEM_TIME ?u = SYSTEM_TIME s + 1"
        using D s4(5) by (simp add: advance_def complete_running_def split: option.split)
      moreover have "cur ?u = procs s ! k"
        using du same_u [OF _ kL] by (simp add: cur_def)
      ultimately show "SYSTEM_TIME ?u \<le> arrivalTime (cur ?u)"
        using later kL by simp
    qed
  qed
  moreover have "mu ?u < mu s"
  proof -
    have w1: "work s4 = work s - 1"
    proof -
      have "work s4 = sum_mset (image_mset (\<lambda>j. remainingTime (procs s4 ! j)) (pool s))"
        using pool4 by (simp add: work_def)
      also have "\<dots> = work s + (remainingTime (procs s4 ! r) - remainingTime (procs s ! r))"
        unfolding work_def using cnt
      proof (rule sum_image_mset_change)
        fix j
        assume "j \<in># pool s" "j \<noteq> r"
        then show "remainingTime (procs s4 ! j) = remainingTime (procs s ! j)"
          using s4(2) pool_bound [OF inv] by auto
      qed
      finally show ?thesis
        using rem4 by simp
    qed
    have w5: "work ?s5 = work s4"
    proof (cases "remainingTime (procs s4 ! r') = 0")
      case True
      with s4(7,8) show ?thesis by (intro work_complete_running) simp_all
    next
      case False
      with s4(7) show ?thesis by (simp add: complete_running_def)
    qed
    have wu: "work ?u = work ?s5"
    proof -
      have "\<forall>j \<in># pool ?s5. j < length (procs s)"
        using sub pool4 pool_bound [OF inv] by (metis mset_subset_eqD)
      then have "image_mset (\<lambda>j. remainingTime (procs ?u ! j)) (pool ?s5) =
                 image_mset (\<lambda>j. remainingTime (procs ?s5 ! j)) (pool ?s5)"
        using rem_u by (intro image_mset_cong) simp
      then show ?thesis
        unfolding work_def pool_u by simp
    qed
    have "remainingTime (procs s ! r) \<le> work s"
      unfolding work_def using tinv_pool_pos [OF wf T] rin by (rule pool_pos_sum)
    then show ?thesis
      using w1 w5 wu pos0 busy by (simp add: mu_def)
  qed
  ultimately show ?thesis
    by blast
qed

text \<open>The first pieces of a busy tick: the decrement, no aging, no idle wait.\<close>

lemma busy_start:
  assumes T: "tinv recs s" and r: "ref s = Some r"
  shows "age (run_dec s) = s\<lparr>procs := modify (procs s) r (\<lambda>n. n\<lparr>remainingTime := remainingTime n - 1\<rparr>)\<rparr> \<and>
         idle_wait (s\<lparr>procs := modify (procs s) r (\<lambda>n. n\<lparr>remainingTime := remainingTime n - 1\<rparr>)\<rparr>) =
           Some (s\<lparr>procs := modify (procs s) r (\<lambda>n. n\<lparr>remainingTime := remainingTime n - 1\<rparr>)\<rparr>)"
proof -
  have b: "bq s = []" and busy: "\<not> IS_CPU_IDLE s"
    using T r by (auto simp: tinv_def sim_inv_def)
  then show ?thesis
    using r by (simp add: run_dec_def age_def isEmpty_def idle_wait_exit)
qed

text \<open>The decrement of the running process, as the tails need it.\<close>

lemma dec_facts:
  "length (modify ps r (\<lambda>n. n\<lparr>remainingTime := remainingTime n - 1\<rparr>)) = length ps \<and>
   (\<forall>j < length ps. remainingTime (modify ps r (\<lambda>n. n\<lparr>remainingTime := remainingTime n - 1\<rparr>) ! j) =
      remainingTime (ps ! j) - (if j = r then 1 else 0)) \<and>
   (\<forall>j. r < j \<longrightarrow> j < length ps \<longrightarrow> modify ps r (\<lambda>n. n\<lparr>remainingTime := remainingTime n - 1\<rparr>) ! j = ps ! j)"
  by simp

lemma busy_tick:
  assumes wf: "wf_input recs" and enq: "enq_ok enq" and T: "tinv recs s" and r: "ref s = Some r"
  shows "\<exists>u. np_tick enq s = Some (Inr u) \<and> tinv recs u \<and> mu u < mu s"
proof -
  have inv: "sim_inv s" and b: "bq s = []"
    using T by (auto simp: tinv_def)
  have busy: "\<not> IS_CPU_IDLE s"
    using inv r by (simp add: sim_inv_def)
  have rd: "r < data s" and dL: "data s \<le> length (procs s)" and rq_out: "r \<notin> set (rq s)"
    using inv r by (auto simp: sim_inv_def owned_def)
  let ?s1 = "s\<lparr>procs := modify (procs s) r (\<lambda>n. n\<lparr>remainingTime := remainingTime n - 1\<rparr>)\<rparr>"
  note start = busy_start [OF T r]
  have i1: "sim_inv ?s1"
    using sim_inv_age [OF sim_inv_run_dec [OF inv]] start by simp
  have other: "procs ?s1 ! j = procs s ! j" if "j \<noteq> r" for j
    using that by simp
  have noint: "\<forall>j. data ?s1 \<le> j \<longrightarrow> j < length (procs ?s1) \<longrightarrow> \<not> 1000 < processId (procs ?s1 ! j)"
    using tinv_node [OF wf T] rd other by auto
  obtain k q where ar: "np_arrivals enq ?s1 = Inr (?s1\<lparr>rq := q, data := k\<rparr>)" and k: "data s \<le> k" "k \<le> length (procs s)"
    and mq: "mset q = mset (rq s) + mset [data s..<k]"
    and now: "\<forall>j. data s \<le> j \<longrightarrow> j < k \<longrightarrow> arrivalTime (procs ?s1 ! j) = SYSTEM_TIME s"
    and later: "k < length (procs s) \<longrightarrow> arrivalTime (procs ?s1 ! k) \<noteq> SYSTEM_TIME s"
    using np_arrivals_plain [OF enq _ _ noint] dL busy by auto
  let ?s4 = "?s1\<lparr>rq := q, data := k\<rparr>"
  have i4: "sim_inv ?s4"
    using sim_inv_np_arrivals [OF enq i1] ar by auto
  have tick: "np_tick enq s = Some (Inr (advance (dispatch (complete_running ?s4))))"
    using start ar b by (simp add: np_tick_def release_step_Nil)
  have iu: "sim_inv (advance (dispatch (complete_running ?s4))) \<and>
      map static (procs (advance (dispatch (complete_running ?s4)))) = map static (procs s)"
    using sim_inv_np_tick [OF inv enq tick] by simp
  have own: "mset (owned ?s4) = mset (owned s) + mset [data s..<k]"
    using mq r b by (simp add: owned_def)
  have posq: "\<forall>j \<in> set (rq ?s4). 0 < remainingTime (procs ?s4 ! j)"
  proof
    fix j
    assume "j \<in> set (rq ?s4)"
    then have "j \<in># mset q"
      by simp
    then have "j \<in># mset (rq s) + mset [data s..<k]"
      using mq by simp
    then have jr: "j \<noteq> r" and "j \<in># pool s"
      using rq_out rd k by (auto simp: pool_def owned_def)
    with tinv_pool_pos [OF wf T] other show "0 < remainingTime (procs ?s4 ! j)"
      by simp
  qed
  have now': "\<forall>j. data s \<le> j \<longrightarrow> j < k \<longrightarrow> arrivalTime (procs s ! j) = SYSTEM_TIME s"
    and later': "k < length (procs s) \<longrightarrow> arrivalTime (procs s ! k) \<noteq> SYSTEM_TIME s"
    using now later by (simp_all add: arrivalTime_modify split: if_splits)
  have d5: "dispatch_like (complete_running ?s4) (dispatch (complete_running ?s4))"
    using i4 by (intro dispatch_like_dispatch sim_inv_complete_running)
  have "tinv recs (advance (dispatch (complete_running ?s4))) \<and>
      mu (advance (dispatch (complete_running ?s4))) < mu s"
    using iu dec_facts [of "procs s" r] rd k
    by (intro busy_tail [where r' = r, OF wf T r _ _ _ _ _ _ _ i4 k own posq _ now' later' d5])
       (simp_all add: b r)
  with tick show ?thesis
    by blast
qed

subsection \<open>Termination\<close>

lemma tinv_init:
  assumes "wf_input recs"
  shows "tinv recs (init_sim (input recs) tq)"
proof -
  have "sim_inv (init_sim (input recs) tq)"
    using input_fresh by (intro sim_inv_init) blast
  moreover have "0 \<le> arrivalTime (input recs ! 0)" if "0 < length recs"
    using wf_input_nth [OF assms that] by simp
  ultimately show ?thesis
    by (simp add: tinv_def init_sim_def owned_def has_data_def cur_def)
qed

lemma wf_no_interrupt:
  assumes "wf_input recs" "map static ps = map static (input recs)" "i < length ps"
  shows "\<not> is_interrupt (ps ! i)"
proof -
  have L: "length ps = length recs"
    using assms(2) by (metis length_input length_map)
  then have "processId (ps ! i) = processId (input recs ! i)"
    using static_nth [OF assms(2)] assms(3) by simp
  with wf_input_nth [OF assms(1)] assms(1,3) L show ?thesis
    by (simp add: is_interrupt_def wf_input_def)
qed

lemma np_terminates:
  assumes wf: "wf_input recs" and enq: "enq_ok enq"
  shows "\<exists>s. sched_loop (np_tick enq) (init_sim (input recs) tq) = Some (Inr s) \<and>
           (\<forall>i < length (procs s). isTerminated (procs s ! i) \<and> finished_ok (procs s ! i)) \<and>
           map static (procs s) = map static (input recs)"
proof -
  have step: "\<exists>u. np_tick enq t = Some (Inr u) \<and> tinv recs u \<and> mu u < mu t"
    if T: "tinv recs t" and lc: "loop_cond t" for t
  proof (cases "IS_CPU_IDLE t")
    case True
    with T lc show ?thesis by (rule idle_tick [OF wf enq])
  next
    case False
    have "sim_inv t"
      using T by (simp add: tinv_def)
    with False obtain r where "ref t = Some r"
      by (cases "ref t") (simp_all add: sim_inv_def)
    with T show ?thesis by (rule busy_tick [OF wf enq])
  qed
  obtain s where s: "sched_loop (np_tick enq) (init_sim (input recs) tq) = Some (Inr s)"
    using sched_loop_terminates [where I = "tinv recs" and mu = mu, OF tinv_init [OF wf] step] by blast
  obtain s' where s': "Inr s = (Inr s' :: sched_error + sim)" "sim_inv s'" "\<not> loop_cond s'"
    "map static (procs s') = map static (input recs)"
    using np_run [OF enq _ s] input_fresh by blast
  have "isTerminated (procs s ! i) \<and> finished_ok (procs s ! i)" if "i < length (procs s)" for i
    using sim_inv_final [OF s'(2,3)] wf_no_interrupt [OF wf s'(4)] s'(1) that by simp
  moreover have "map static (procs s) = map static (input recs)"
    using s'(1,4) by simp
  ultimately show ?thesis
    using s by blast
qed

text \<open>The identity, arrival and burst of every block of a well-formed input.\<close>

lemma wf_input_static:
  assumes "wf_input recs"
  shows "map static (input recs) =
           map (\<lambda>i. (int i + 1, fst (recs ! i), fst (snd (recs ! i)))) [0..<length recs]"
  using wf_input_nth [OF assms] by (intro nth_equalityI) (simp_all add: static_def)

text \<open>C6: \<^verbatim>\<open>fcfs\<close> and \<^verbatim>\<open>sjf\<close> terminate on every well-formed input (no block
  requests, at most 1000 processes, positive bursts, arrival times non-negative and in file
  order) and then every process has completed with consistent completion and turnaround
  times.\<close>

theorem fcfs_sjf_terminate:
  assumes "wf_input recs"
  shows "(\<exists>s. fcfs (input recs) = Some (Inr s) \<and>
            (\<forall>i < length (procs s). isTerminated (procs s ! i) \<and> finished_ok (procs s ! i))) \<and>
         (\<exists>s. sjf (input recs) = Some (Inr s) \<and>
            (\<forall>i < length (procs s). isTerminated (procs s ! i) \<and> finished_ok (procs s ! i)))"
  using np_terminates [OF assms enq_ok_enqueue] np_terminates [OF assms enq_ok_priorityEnqueue]
  unfolding fcfs_def sjf_def by blast

end
