(* ===== verification/Srtn_Termination.thy ===== *)
theory Srtn_Termination
  imports Np_Termination Srtn_Inv
begin

text \<open>
  Termination of \<^verbatim>\<open>sjfPreempt\<close> on well-formed inputs, by the measure of
  \<open>Np_Termination\<close>. Without block requests the release loop never runs, so the
  preemption check is only reached from the arrival loop, always with a running process
  and a non-empty ready queue: it cannot crash. A preemption exchanges the running
  process with the head of the ready queue, which keeps the held processes and their
  remaining times, so the tails of the non-preemptive ticks apply unchanged.
\<close>

subsection \<open>The preemption check on a busy CPU\<close>

lemma srtn_preempt_busy:
  assumes r: "ref s = Some r" and ne: "rq s \<noteq> []"
    and pos: "\<forall>j \<in> set (rq s). 0 < remainingTime (procs s ! j)"
  shows "\<exists>r' q. srtn_preempt s = Inr (s\<lparr>ref := Some r', rq := q\<rparr>) \<and>
           mset (r' # q) = mset (r # rq s) \<and>
           (\<forall>j \<in> set q. 0 < remainingTime (procs s ! j)) \<and>
           (r' \<noteq> r \<longrightarrow> 0 < remainingTime (procs s ! r'))"
proof -
  obtain h t where q: "rq s = h # t"
    using ne by (cases "rq s") auto
  show ?thesis
  proof (cases "remainingTime (procs s ! r) > remainingTime (procs s ! h)")
    case True
    have "0 < remainingTime (procs s ! h)"
      using pos q by simp
    with True have allpos: "\<forall>j \<in> set (r # rq s). 0 < remainingTime (procs s ! j)"
      using pos by auto
    have m: "mset (priorityEnqueue (procs s) (rq s) r) = mset (r # rq s)"
      using enq_ok_priorityEnqueue by (simp add: enq_ok_def)
    then obtain h' q' where pq: "priorityEnqueue (procs s) (rq s) r = h' # q'"
      by (cases "priorityEnqueue (procs s) (rq s) r") auto
    have pre: "srtn_preempt s = Inr (s\<lparr>ref := Some h', rq := q'\<rparr>)"
      using r q True pq by (simp add: srtn_preempt_def dequeue_def)
    have mm: "mset (h' # q') = mset (r # rq s)"
      using m pq by simp
    then have "set (h' # q') = set (r # rq s)"
      by (metis set_mset_mset)
    with allpos have "\<forall>j \<in> set (h' # q'). 0 < remainingTime (procs s ! j)"
      by simp
    with pre mm show ?thesis
      by auto
  next
    case False
    then have "srtn_preempt s = Inr (s\<lparr>ref := Some r, rq := rq s\<rparr>)"
      using r q by (simp add: srtn_preempt_def)
    with pos show ?thesis
      by blast
  qed
qed

subsection \<open>The arrival loop\<close>

text \<open>On a busy CPU with no block request pending, the arrival loop of
  \<^verbatim>\<open>sjfPreempt\<close> admits exactly the records arriving now; the running process and the
  ready queue together gain them, and whatever is ready, or newly running, has time left.\<close>

lemma srtn_arrivals_plain:
  assumes "data s \<le> length (procs s)" "\<not> IS_CPU_IDLE s" "ref s = Some r"
    and "\<forall>j. data s \<le> j \<longrightarrow> j < length (procs s) \<longrightarrow>
           \<not> 1000 < processId (procs s ! j) \<and> 0 < remainingTime (procs s ! j)"
    and "\<forall>j \<in> set (rq s). 0 < remainingTime (procs s ! j)"
  shows "\<exists>k q r'. srtn_arrivals s = Inr (s\<lparr>ref := Some r', rq := q, data := k\<rparr>) \<and>
           data s \<le> k \<and> k \<le> length (procs s) \<and>
           mset (r' # q) = mset (r # rq s) + mset [data s..<k] \<and>
           (\<forall>j \<in> set q. 0 < remainingTime (procs s ! j)) \<and>
           (r' \<noteq> r \<longrightarrow> 0 < remainingTime (procs s ! r')) \<and>
           (\<forall>j. data s \<le> j \<longrightarrow> j < k \<longrightarrow> arrivalTime (procs s ! j) = SYSTEM_TIME s) \<and>
           (k < length (procs s) \<longrightarrow> arrivalTime (procs s ! k) \<noteq> SYSTEM_TIME s)"
  using assms
proof (induction s arbitrary: r rule: srtn_arrivals.induct)
  case (1 s)
  show ?case
  proof (cases "has_data s \<and> SYSTEM_TIME s = arrivalTime (cur s) \<and> \<not> IS_CPU_IDLE s")
    case guard: True
    have dL: "data s < length (procs s)"
      using guard by (simp add: has_data_def)
    have real: "\<not> processId (cur s) > 1000" and posd: "0 < remainingTime (procs s ! data s)"
      using "1.prems"(4) dL by (simp_all add: cur_def)
    let ?Q = "priorityEnqueue (procs s) (rq s) (data s)"
    have mQ: "mset ?Q = mset (data s # rq s)"
      using enq_ok_priorityEnqueue by (simp add: enq_ok_def)
    then have sQ: "set ?Q = set (data s # rq s)"
      by (metis set_mset_mset)
    have posQ: "\<forall>j \<in> set ?Q. 0 < remainingTime (procs s ! j)"
      using sQ posd "1.prems"(5) by simp
    have neQ: "?Q \<noteq> []"
    proof
      assume "?Q = []"
      with mQ show False
        by simp
    qed
    obtain r1 q1 where pre: "srtn_preempt (s\<lparr>rq := ?Q\<rparr>) = Inr (s\<lparr>rq := ?Q, ref := Some r1, rq := q1\<rparr>)"
      and m1: "mset (r1 # q1) = mset (r # ?Q)"
      and pos1: "\<forall>j \<in> set q1. 0 < remainingTime (procs s ! j)"
      and posr1: "r1 \<noteq> r \<longrightarrow> 0 < remainingTime (procs s ! r1)"
      using srtn_preempt_busy [of "s\<lparr>rq := ?Q\<rparr>" r] "1.prems"(3) neQ posQ by auto
    let ?s' = "s\<lparr>ref := Some r1, rq := q1\<rparr>"
    have eq': "s\<lparr>rq := ?Q, ref := Some r1, rq := q1\<rparr> = ?s'"
      by simp
    have step: "srtn_arrivals s = srtn_arrivals (?s'\<lparr>data := Suc (data ?s')\<rparr>)"
      using guard real pre eq' by (subst srtn_arrivals.simps) simp
    obtain k q r' where r: "srtn_arrivals (?s'\<lparr>data := Suc (data ?s')\<rparr>) =
          Inr (?s'\<lparr>data := Suc (data ?s'), ref := Some r', rq := q, data := k\<rparr>)"
      "Suc (data s) \<le> k" "k \<le> length (procs s)"
      "mset (r' # q) = mset (r1 # q1) + mset [Suc (data s)..<k]"
      "\<forall>j \<in> set q. 0 < remainingTime (procs s ! j)"
      "r' \<noteq> r1 \<longrightarrow> 0 < remainingTime (procs s ! r')"
      "\<forall>j. Suc (data s) \<le> j \<longrightarrow> j < k \<longrightarrow> arrivalTime (procs s ! j) = SYSTEM_TIME s"
      "k < length (procs s) \<longrightarrow> arrivalTime (procs s ! k) \<noteq> SYSTEM_TIME s"
      using "1.IH"(2) [OF guard real pre [unfolded eq'], of r1] "1.prems"(4) guard dL pos1
      by (auto simp: has_data_def)
    have res: "srtn_arrivals s = Inr (s\<lparr>ref := Some r', rq := q, data := k\<rparr>)"
      using step r(1) by simp
    have "mset (r' # q) = mset (r # rq s) + mset [data s..<k]"
      using r(2,4) m1 mQ by (simp add: upt_conv_Cons)
    moreover have "r' \<noteq> r \<longrightarrow> 0 < remainingTime (procs s ! r')"
      using r(6) posr1 by auto
    moreover have "\<forall>j. data s \<le> j \<longrightarrow> j < k \<longrightarrow> arrivalTime (procs s ! j) = SYSTEM_TIME s"
    proof (intro allI impI)
      fix j
      assume "data s \<le> j" "j < k"
      then show "arrivalTime (procs s ! j) = SYSTEM_TIME s"
        using guard r(7) by (cases "j = data s") (simp_all add: cur_def)
    qed
    moreover have "data s \<le> k"
      using r(2) by simp
    ultimately show ?thesis
      using res r(3,5,8) by blast
  next
    case False
    then have "srtn_arrivals s = Inr s"
      by (subst srtn_arrivals.simps) (rule if_not_P)
    moreover have "s\<lparr>ref := Some r, rq := rq s, data := data s\<rparr> = s"
      using "1.prems"(3) by simp
    moreover have "data s < length (procs s) \<longrightarrow> arrivalTime (procs s ! data s) \<noteq> SYSTEM_TIME s"
      using False "1.prems"(2) by (auto simp: has_data_def cur_def)
    ultimately show ?thesis
      using "1.prems"(1,5) by (intro exI [of _ "data s"] exI [of _ "rq s"] exI [of _ r]) simp
  qed
qed

subsection \<open>One tick of \<^verbatim>\<open>sjfPreempt\<close> lowers the measure\<close>

lemma srtn_release_Nil: "bq s = [] \<Longrightarrow> srtn_release s = Inr s"
  by (subst srtn_release.simps) simp

lemma srtn_tick_tail:
  assumes "idle_wait (age (run_dec s)) = Some s3" "srtn_arrivals s3 = Inr s4" "bq s4 = []"
  shows "srtn_tick s = Some (Inr (advance (dispatch (complete_running s4))))"
  using assms by (simp add: srtn_tick_def srtn_release_Nil)

lemma srtn_idle_tick:
  assumes wf: "wf_input recs" and T: "tinv recs s" and lc: "loop_cond s" and idle: "IS_CPU_IDLE s"
  shows "\<exists>u. srtn_tick s = Some (Inr u) \<and> tinv recs u \<and> mu u < mu s"
proof -
  have inv: "sim_inv s" and b: "bq s = []" and q0: "rq s = []"
    using T idle by (auto simp: tinv_def)
  note start = idle_start [OF wf T lc idle]
  let ?d = "data s"
  let ?s2 = "s\<lparr>SYSTEM_TIME := arrivalTime (cur s), IS_CPU_IDLE := False, ref := Some ?d, data := Suc ?d\<rparr>"
  have dL: "?d < length (procs s)"
    using start by (simp add: has_data_def)
  have fresh: "\<forall>j. data ?s2 \<le> j \<longrightarrow> j < length (procs ?s2) \<longrightarrow>
      \<not> 1000 < processId (procs ?s2 ! j) \<and> 0 < remainingTime (procs ?s2 ! j)"
    using tinv_node [OF wf T] tinv_pool_pos [OF wf T] by (auto simp: pool_def)
  obtain k q r' where ar: "srtn_arrivals ?s2 = Inr (?s2\<lparr>ref := Some r', rq := q, data := k\<rparr>)"
    and k: "Suc ?d \<le> k" "k \<le> length (procs s)"
    and mq: "mset (r' # q) = mset [?d] + mset [Suc ?d..<k]"
    and later: "k < length (procs s) \<longrightarrow> arrivalTime (procs s ! k) \<noteq> arrivalTime (cur s)"
    using srtn_arrivals_plain [of ?s2 ?d] fresh dL q0 by auto
  let ?s4 = "?s2\<lparr>ref := Some r', rq := q, data := k\<rparr>"
  have "idle_wait s = Some ?s2"
    using start by simp
  from sim_inv_idle_wait [OF this inv] have i2: "sim_inv ?s2" .
  have i4: "sim_inv ?s4"
    using sim_inv_srtn_arrivals [OF i2 ar] by simp
  have tick: "srtn_tick s = Some (Inr (advance (dispatch (complete_running ?s4))))"
    using start ar b by (intro srtn_tick_tail) simp_all
  have iu: "sim_inv (advance (dispatch (complete_running ?s4))) \<and>
      map static (procs (advance (dispatch (complete_running ?s4)))) = map static (procs s)"
    using sim_inv_srtn_tick [OF inv tick] by simp
  have own: "mset (owned ?s4) = mset [?d..<k]"
    using mq b k by (simp add: owned_def upt_conv_Cons)
  have d5: "dispatch_like (complete_running ?s4) (dispatch (complete_running ?s4))"
    using i4 by (intro dispatch_like_dispatch sim_inv_complete_running)
  have "tinv recs (advance (dispatch (complete_running ?s4))) \<and>
      mu (advance (dispatch (complete_running ?s4))) < mu s"
    using iu by (intro idle_tail [OF wf T idle _ _ _ _ _ _ _ i4 k own later d5]) (simp_all add: b)
  with tick show ?thesis
    by blast
qed

lemma srtn_busy_tick:
  assumes wf: "wf_input recs" and T: "tinv recs s" and r: "ref s = Some r"
  shows "\<exists>u. srtn_tick s = Some (Inr u) \<and> tinv recs u \<and> mu u < mu s"
proof -
  have inv: "sim_inv s" and b: "bq s = []"
    using T by (auto simp: tinv_def)
  have busy: "\<not> IS_CPU_IDLE s"
    using inv r by (simp add: sim_inv_def)
  have rd: "r < data s" and dL: "data s \<le> length (procs s)" and rq_out: "r \<notin> set (rq s)"
    using inv r by (auto simp: sim_inv_def owned_def)
  let ?s1 = "s\<lparr>procs := modify (procs s) r (\<lambda>n. n\<lparr>remainingTime := remainingTime n - 1\<rparr>)\<rparr>"
  note start = busy_start [OF T r]
  have i1: "sim_inv ?s1"
    using sim_inv_age [OF sim_inv_run_dec [OF inv]] start by simp
  have other: "procs ?s1 ! j = procs s ! j" if "j \<noteq> r" for j
    using that by simp
  have fresh: "\<forall>j. data ?s1 \<le> j \<longrightarrow> j < length (procs ?s1) \<longrightarrow>
      \<not> 1000 < processId (procs ?s1 ! j) \<and> 0 < remainingTime (procs ?s1 ! j)"
    using tinv_node [OF wf T] tinv_pool_pos [OF wf T] rd other by (auto simp: pool_def)
  have posq0: "\<forall>j \<in> set (rq ?s1). 0 < remainingTime (procs ?s1 ! j)"
  proof
    fix j
    assume "j \<in> set (rq ?s1)"
    then have "j \<in> set (owned s)" "j \<noteq> r"
      using rq_out by (auto simp: owned_def)
    with T other show "0 < remainingTime (procs ?s1 ! j)"
      by (simp add: tinv_def)
  qed
  have pre: "data ?s1 \<le> length (procs ?s1)" "\<not> IS_CPU_IDLE ?s1" "ref ?s1 = Some r"
    using dL busy r by simp_all
  from srtn_arrivals_plain [OF pre fresh posq0] obtain k q r'
    where ar: "srtn_arrivals ?s1 = Inr (?s1\<lparr>ref := Some r', rq := q, data := k\<rparr>)"
      and k0: "data ?s1 \<le> k" "k \<le> length (procs ?s1)"
      and mq0: "mset (r' # q) = mset (r # rq ?s1) + mset [data ?s1..<k]"
      and posq: "\<forall>j \<in> set q. 0 < remainingTime (procs ?s1 ! j)"
      and posr: "r' \<noteq> r \<longrightarrow> 0 < remainingTime (procs ?s1 ! r')"
      and now0: "\<forall>j. data ?s1 \<le> j \<longrightarrow> j < k \<longrightarrow> arrivalTime (procs ?s1 ! j) = SYSTEM_TIME ?s1"
      and later0: "k < length (procs ?s1) \<longrightarrow> arrivalTime (procs ?s1 ! k) \<noteq> SYSTEM_TIME ?s1"
    by blast
  have k: "data s \<le> k" "k \<le> length (procs s)"
    and mq: "mset (r' # q) = mset (r # rq s) + mset [data s..<k]"
    and now: "\<forall>j. data s \<le> j \<longrightarrow> j < k \<longrightarrow> arrivalTime (procs ?s1 ! j) = SYSTEM_TIME s"
    and later: "k < length (procs s) \<longrightarrow> arrivalTime (procs ?s1 ! k) \<noteq> SYSTEM_TIME s"
    using k0 mq0 now0 later0 by simp_all
  let ?s4 = "?s1\<lparr>ref := Some r', rq := q, data := k\<rparr>"
  have i4: "sim_inv ?s4"
    using sim_inv_srtn_arrivals [OF i1 ar] by simp
  have tick: "srtn_tick s = Some (Inr (advance (dispatch (complete_running ?s4))))"
    using start ar b by (intro srtn_tick_tail) simp_all
  have iu: "sim_inv (advance (dispatch (complete_running ?s4))) \<and>
      map static (procs (advance (dispatch (complete_running ?s4)))) = map static (procs s)"
    using sim_inv_srtn_tick [OF inv tick] by simp
  have own: "mset (owned ?s4) = mset (owned s) + mset [data s..<k]"
    using mq r b by (simp add: owned_def)
  have d5: "dispatch_like (complete_running ?s4) (dispatch (complete_running ?s4))"
    using i4 by (intro dispatch_like_dispatch sim_inv_complete_running)
  have now': "\<forall>j. data s \<le> j \<longrightarrow> j < k \<longrightarrow> arrivalTime (procs s ! j) = SYSTEM_TIME s"
    and later': "k < length (procs s) \<longrightarrow> arrivalTime (procs s ! k) \<noteq> SYSTEM_TIME s"
    using now later by (simp_all add: arrivalTime_modify split: if_splits)
  have "tinv recs (advance (dispatch (complete_running ?s4))) \<and>
      mu (advance (dispatch (complete_running ?s4))) < mu s"
    using iu posq posr dec_facts [of "procs s" r] rd k
    by (intro busy_tail [where r' = r', OF wf T r _ _ _ _ _ _ _ i4 k own _ _ now' later' d5])
       (simp_all add: b)
  with tick show ?thesis
    by blast
qed

subsection \<open>Termination\<close>

lemma srtn_terminates:
  assumes wf: "wf_input recs"
  shows "\<exists>s. sjfPreempt (input recs) = Some (Inr s) \<and>
           (\<forall>i < length (procs s). isTerminated (procs s ! i) \<and> finished_ok (procs s ! i)) \<and>
           map static (procs s) = map static (input recs)"
proof -
  have step: "\<exists>u. srtn_tick t = Some (Inr u) \<and> tinv recs u \<and> mu u < mu t"
    if T: "tinv recs t" and lc: "loop_cond t" for t
  proof (cases "IS_CPU_IDLE t")
    case True
    with T lc show ?thesis by (rule srtn_idle_tick [OF wf])
  next
    case False
    have "sim_inv t"
      using T by (simp add: tinv_def)
    with False obtain r where "ref t = Some r"
      by (cases "ref t") (simp_all add: sim_inv_def)
    with T show ?thesis by (rule srtn_busy_tick [OF wf])
  qed
  obtain s where s: "sjfPreempt (input recs) = Some (Inr s)"
    using sched_loop_terminates [where I = "tinv recs" and mu = mu, OF tinv_init [OF wf] step]
    unfolding sjfPreempt_def by blast
  have fin: "sim_inv s" "\<not> loop_cond s" "map static (procs s) = map static (input recs)"
    using srtn_run [OF _ s] input_fresh by blast+
  have "isTerminated (procs s ! i) \<and> finished_ok (procs s ! i)" if "i < length (procs s)" for i
    using sim_inv_final [OF fin(1,2) that] wf_no_interrupt [OF wf fin(3) that] by simp
  with s fin(3) show ?thesis
    by blast
qed

text \<open>C7: \<^verbatim>\<open>sjfPreempt\<close> terminates on every well-formed input (no block requests, at
  most 1000 processes, positive bursts, arrival times non-negative and in file order),
  without a NULL dereference, and then every process has completed with consistent
  completion and turnaround times.\<close>

theorem sjfPreempt_terminates:
  assumes "wf_input recs"
  shows "\<exists>s. sjfPreempt (input recs) = Some (Inr s) \<and>
           (\<forall>i < length (procs s). isTerminated (procs s ! i) \<and> finished_ok (procs s ! i))"
  using srtn_terminates [OF assms] by blast

end
