(* ===== verification/Rr_Termination.thy ===== *)
theory Rr_Termination
  imports Np_Termination Rr_Inv
begin

text \<open>
  Termination of \<^verbatim>\<open>roundRobin\<close> on well-formed inputs, for every time quantum, by the
  measure of \<open>Np_Termination\<close>. The quantum counter, the response-time bookkeeping and
  the rotation of the ready queue on quantum expiry change neither the held processes nor
  their remaining times, so the tails of the non-preemptive ticks apply: every tick with
  the CPU busy runs a process for one unit, and every idle tick starts the next arrival.
\<close>

subsection \<open>The arrival loop\<close>

text \<open>On a busy CPU with no block request pending, the arrival loop of
  \<^verbatim>\<open>roundRobin\<close> queues exactly the records arriving now and marks them
  \<^verbatim>\<open>firstExecution\<close>; remaining and arrival times are untouched.\<close>

lemma rr_arrivals_plain:
  assumes "data s \<le> length (procs s)" "\<not> IS_CPU_IDLE s"
    and "\<forall>j. data s \<le> j \<longrightarrow> j < length (procs s) \<longrightarrow> \<not> 1000 < processId (procs s ! j)"
  shows "\<exists>k q ps. rr_arrivals tq s = Inr (s\<lparr>procs := ps, rq := q, data := k\<rparr>) \<and>
           data s \<le> k \<and> k \<le> length (procs s) \<and> mset q = mset (rq s) + mset [data s..<k] \<and>
           length ps = length (procs s) \<and>
           (\<forall>j < length (procs s). remainingTime (ps ! j) = remainingTime (procs s ! j) \<and>
                                  arrivalTime (ps ! j) = arrivalTime (procs s ! j)) \<and>
           (\<forall>j. k \<le> j \<longrightarrow> j < length (procs s) \<longrightarrow> ps ! j = procs s ! j) \<and>
           (\<forall>j. data s \<le> j \<longrightarrow> j < k \<longrightarrow> arrivalTime (procs s ! j) = SYSTEM_TIME s) \<and>
           (k < length (procs s) \<longrightarrow> arrivalTime (procs s ! k) \<noteq> SYSTEM_TIME s)"
  using assms
proof (induction tq s rule: rr_arrivals.induct)
  case (1 tq s)
  show ?case
  proof (cases "has_data s \<and> SYSTEM_TIME s = arrivalTime (cur s) \<and> \<not> IS_CPU_IDLE s")
    case guard: True
    have dL: "data s < length (procs s)"
      using guard by (simp add: has_data_def)
    let ?s1 = "s\<lparr>procs := modify (procs s) (data s) (\<lambda>n. n\<lparr>firstExecution := True\<rparr>)\<rparr>"
    have real: "\<not> processId (cur ?s1) > 1000"
      using "1.prems"(3) dL by (simp add: cur_def)
    let ?s2 = "?s1\<lparr>rq := enqueue (rq ?s1) (data ?s1), data := Suc (data ?s1)\<rparr>"
    have step: "rr_arrivals tq s = rr_arrivals tq ?s2"
      using guard real by (subst rr_arrivals.simps) (simp add: Let_def)
    have pre2: "data ?s2 \<le> length (procs ?s2)" "\<not> IS_CPU_IDLE ?s2"
      "\<forall>j. data ?s2 \<le> j \<longrightarrow> j < length (procs ?s2) \<longrightarrow> \<not> 1000 < processId (procs ?s2 ! j)"
      using dL "1.prems"(2,3) by auto
    obtain k q ps where r: "rr_arrivals tq ?s2 = Inr (?s2\<lparr>procs := ps, rq := q, data := k\<rparr>)"
      "data ?s2 \<le> k" "k \<le> length (procs ?s2)" "mset q = mset (rq ?s2) + mset [data ?s2..<k]"
      "length ps = length (procs ?s2)"
      "\<forall>j < length (procs ?s2). remainingTime (ps ! j) = remainingTime (procs ?s2 ! j) \<and>
                                arrivalTime (ps ! j) = arrivalTime (procs ?s2 ! j)"
      "\<forall>j. k \<le> j \<longrightarrow> j < length (procs ?s2) \<longrightarrow> ps ! j = procs ?s2 ! j"
      "\<forall>j. data ?s2 \<le> j \<longrightarrow> j < k \<longrightarrow> arrivalTime (procs ?s2 ! j) = SYSTEM_TIME ?s2"
      "k < length (procs ?s2) \<longrightarrow> arrivalTime (procs ?s2 ! k) \<noteq> SYSTEM_TIME ?s2"
      using "1.IH"(2) [OF guard refl real pre2] by (auto simp: Let_def)
    have arr: "arrivalTime (procs ?s2 ! j) = arrivalTime (procs s ! j)" for j
      by (simp add: arrivalTime_modify)
    have rem: "remainingTime (procs ?s2 ! j) = remainingTime (procs s ! j)" for j
      by (simp add: remainingTime_modify)
    have res: "rr_arrivals tq s = Inr (s\<lparr>procs := ps, rq := q, data := k\<rparr>)"
      using step r(1) by simp
    have "mset q = mset (rq s) + mset [data s..<k]"
      using r(2,4) by (simp add: enqueue_def upt_conv_Cons)
    moreover have "\<forall>j. data s \<le> j \<longrightarrow> j < k \<longrightarrow> arrivalTime (procs s ! j) = SYSTEM_TIME s"
    proof (intro allI impI)
      fix j
      assume "data s \<le> j" "j < k"
      then show "arrivalTime (procs s ! j) = SYSTEM_TIME s"
        using guard r(8) arr by (cases "j = data s") (simp_all add: cur_def)
    qed
    moreover have "\<forall>j. k \<le> j \<longrightarrow> j < length (procs s) \<longrightarrow> ps ! j = procs s ! j"
      using r(2,7) by simp
    moreover have "\<forall>j < length (procs s). remainingTime (ps ! j) = remainingTime (procs s ! j) \<and>
                                         arrivalTime (ps ! j) = arrivalTime (procs s ! j)"
      using r(6) arr rem by simp
    moreover have "data s \<le> k"
      using r(2) by simp
    moreover have "k < length (procs s) \<longrightarrow> arrivalTime (procs s ! k) \<noteq> SYSTEM_TIME s"
      using r(9) by (simp split: if_splits)
    ultimately show ?thesis
      using res r(3,5) by (intro exI [of _ k] exI [of _ q] exI [of _ ps]) simp
  next
    case False
    then have "rr_arrivals tq s = Inr s"
      by (subst rr_arrivals.simps) (rule if_not_P)
    moreover have "s\<lparr>procs := procs s, rq := rq s, data := data s\<rparr> = s"
      by simp
    moreover have "data s < length (procs s) \<longrightarrow> arrivalTime (procs s ! data s) \<noteq> SYSTEM_TIME s"
      using False "1.prems"(2) by (auto simp: has_data_def cur_def)
    ultimately show ?thesis
      using "1.prems"(1) by (intro exI [of _ "data s"] exI [of _ "rq s"] exI [of _ "procs s"]) simp
  qed
qed

subsection \<open>The dispatch\<close>

lemma rr_first_facts:
  "length (rr_first s h) = length (procs s) \<and>
   (\<forall>j. remainingTime (rr_first s h ! j) = remainingTime (procs s ! j)) \<and>
   (\<forall>j. j \<noteq> h \<longrightarrow> rr_first s h ! j = procs s ! j)"
  by (simp add: rr_first_def set_response_def remainingTime_modify)

text \<open>With nothing blocked, the dispatch of \<^verbatim>\<open>roundRobin\<close> (an idle CPU takes the
  head of the ready queue; on quantum expiry the running process goes to the tail and the
  head runs) never crashes and is a dispatch step for the measure.\<close>

lemma rr_dispatch_like:
  assumes inv: "sim_inv s" and b: "bq s = []"
  shows "\<exists>s5. rr_dispatch tq s = Inr s5 \<and> dispatch_like s s5"
proof -
  have rf: "length (rr_first s h) = length (procs s)"
    "\<forall>j < length (procs s). remainingTime (rr_first s h ! j) = remainingTime (procs s ! j)"
    "\<forall>j. data s \<le> j \<longrightarrow> j < length (procs s) \<longrightarrow> rr_first s h ! j = procs s ! j"
    if "h \<in> set (owned s)" for h
  proof -
    have "h < data s"
      using inv that by (simp add: sim_inv_def)
    then show "length (rr_first s h) = length (procs s)"
      "\<forall>j < length (procs s). remainingTime (rr_first s h ! j) = remainingTime (procs s ! j)"
      "\<forall>j. data s \<le> j \<longrightarrow> j < length (procs s) \<longrightarrow> rr_first s h ! j = procs s ! j"
      using rr_first_facts [of s h] by auto
  qed
  show ?thesis
  proof (cases "IS_CPU_IDLE s \<and> \<not> isEmpty (rq s)")
    case True
    then obtain h t where q: "rq s = h # t" and idle: "IS_CPU_IDLE s"
      by (cases "rq s") (auto simp: isEmpty_def)
    have r0: "ref s = None"
      using inv idle by (simp add: sim_inv_def)
    let ?s5 = "s\<lparr>ref := Some h, rq := t, procs := rr_first s h, IS_CPU_IDLE := False, quantum := tq\<rparr>"
    have "rr_dispatch tq s = Inr ?s5"
      using True q by (simp add: rr_dispatch_def dequeue_def)
    moreover have "h \<in> set (owned s)"
      using q by (simp add: owned_def)
    moreover have "pool ?s5 = pool s"
      using q r0 rf b \<open>h \<in> set (owned s)\<close> by (simp add: pool_def owned_def)
    ultimately show ?thesis
      using rf [of h] by (simp add: dispatch_like_def)
  next
    case notidle: False
    show ?thesis
    proof (cases "quantum s = 0 \<and> \<not> isEmpty (rq s)")
      case True
      then have busy: "\<not> IS_CPU_IDLE s"
        using notidle by blast
      then obtain c where c: "ref s = Some c"
        using inv by (cases "ref s") (simp_all add: sim_inv_def)
      obtain h t where q: "rq s = h # t"
        using True by (cases "rq s") (auto simp: isEmpty_def)
      let ?s5 = "s\<lparr>ref := Some h, rq := t @ [c], procs := rr_first s h, IS_CPU_IDLE := False,
                   quantum := tq\<rparr>"
      have "rr_dispatch tq s = Inr ?s5"
        using notidle True c q by (simp add: rr_dispatch_def dequeue_def enqueue_def)
      moreover have "h \<in> set (owned s)"
        using q by (simp add: owned_def)
      moreover have "pool ?s5 = pool s"
        using q c rf b \<open>h \<in> set (owned s)\<close> by (simp add: pool_def owned_def)
      ultimately show ?thesis
        using rf [of h] busy by (simp add: dispatch_like_def)
    next
      case False
      have "IS_CPU_IDLE s \<longrightarrow> rq s = []"
        using notidle by (simp add: isEmpty_def)
      moreover have "rr_dispatch tq s = Inr (if quantum s = 0 then s\<lparr>quantum := tq\<rparr> else s)"
        using notidle False by (auto simp: rr_dispatch_def isEmpty_def)
      ultimately show ?thesis
        by (simp add: dispatch_like_def pool_def owned_def)
    qed
  qed
qed

subsection \<open>One tick of \<^verbatim>\<open>roundRobin\<close> lowers the measure\<close>

lemma rr_tick_tail:
  assumes "rr_idle_wait (age (run_dec (rr_count s))) = Some s3" "rr_arrivals tq s3 = Inr s4"
    and "rr_dispatch tq (complete_running s4) = Inr s5" "bq s5 = []"
  shows "rr_tick tq s = Some (Inr (advance s5))"
  using assms by (simp add: rr_tick_def release_step_Nil)

lemma rr_tick_invariant:
  assumes "sim_inv s" "rr_tick tq s = Some (Inr u)"
  shows "sim_inv u \<and> map static (procs u) = map static (procs s)"
  using sim_inv_rr_tick [OF assms] by auto

lemma rr_idle_tick:
  assumes wf: "wf_input recs" and T: "tinv recs s" and lc: "loop_cond s" and idle: "IS_CPU_IDLE s"
  shows "\<exists>u. rr_tick tq s = Some (Inr u) \<and> tinv recs u \<and> mu u < mu s"
proof -
  have inv: "sim_inv s" and b: "bq s = []" and q0: "rq s = []" and r0: "ref s = None"
    and early: "has_data s \<longrightarrow> SYSTEM_TIME s \<le> arrivalTime (cur s)"
    and pend: "\<forall>j. data s \<le> j \<longrightarrow> j < length (procs s) \<longrightarrow> procs s ! j = input recs ! j"
    using T idle by (auto simp: tinv_def sim_inv_def)
  let ?d = "data s"
  have hd: "has_data s"
    using lc r0 q0 b by (simp add: loop_cond_def isEmpty_def)
  then have dL: "?d < length (procs s)"
    by (simp add: has_data_def)
  note nd = tinv_node [OF wf T dL]
  have "procs s ! ?d \<in> set (input recs)"
    using pend dL tinv_length [OF T] by (metis le_refl nth_mem length_input)
  then have fresh: "\<not> isTerminated (cur s)"
    using input_fresh pend dL by (simp add: cur_def)
  let ?s2 = "s\<lparr>SYSTEM_TIME := arrivalTime (cur s), IS_CPU_IDLE := False, ref := Some ?d,
               procs := modify (procs s) ?d (\<lambda>n. n\<lparr>responseTime := 0\<rparr>), data := Suc ?d\<rparr>"
  have cnt: "rr_count s = s" and ad: "age (run_dec s) = s"
    using idle r0 b by (simp_all add: rr_count_def run_dec_def age_def isEmpty_def)
  have iw: "rr_idle_wait s = Some ?s2"
    using hd idle q0 nd early fresh by (intro rr_idle_wait_jump) (simp_all add: isEmpty_def cur_def)
  have i2: "sim_inv ?s2"
    using sim_inv_rr_idle_wait [OF iw inv] by simp
  have other2: "procs ?s2 ! j = procs s ! j" if "j \<noteq> ?d" for j
    using that by simp
  have noint: "\<forall>j. data ?s2 \<le> j \<longrightarrow> j < length (procs ?s2) \<longrightarrow> \<not> 1000 < processId (procs ?s2 ! j)"
    using tinv_node [OF wf T] other2 by auto
  obtain k q ps where ar: "rr_arrivals tq ?s2 = Inr (?s2\<lparr>procs := ps, rq := q, data := k\<rparr>)"
    and k0: "data ?s2 \<le> k" "k \<le> length (procs ?s2)" and mq: "mset q = mset (rq ?s2) + mset [data ?s2..<k]"
    and ps: "length ps = length (procs ?s2)"
      "\<forall>j < length (procs ?s2). remainingTime (ps ! j) = remainingTime (procs ?s2 ! j) \<and>
                                arrivalTime (ps ! j) = arrivalTime (procs ?s2 ! j)"
      "\<forall>j. k \<le> j \<longrightarrow> j < length (procs ?s2) \<longrightarrow> ps ! j = procs ?s2 ! j"
    and later0: "k < length (procs ?s2) \<longrightarrow> arrivalTime (procs ?s2 ! k) \<noteq> SYSTEM_TIME ?s2"
    using rr_arrivals_plain [of ?s2 tq] dL noint by auto
  let ?s4 = "?s2\<lparr>procs := ps, rq := q, data := k\<rparr>"
  have k: "Suc ?d \<le> k" "k \<le> length (procs s)"
    using k0 by simp_all
  have i4: "sim_inv ?s4"
    using sim_inv_rr_arrivals [OF i2, of tq] ar by auto
  obtain s5 where d: "rr_dispatch tq (complete_running ?s4) = Inr s5"
    and d5: "dispatch_like (complete_running ?s4) s5"
    using rr_dispatch_like [OF sim_inv_complete_running [OF i4]] b by auto
  have b5: "bq s5 = []"
    using d5 b by (simp add: dispatch_like_def)
  have tick: "rr_tick tq s = Some (Inr (advance s5))"
    using cnt ad iw ar d b5 by (intro rr_tick_tail) simp_all
  have iu: "sim_inv (advance s5) \<and> map static (procs (advance s5)) = map static (procs s)"
    using rr_tick_invariant [OF inv tick] .
  have own: "mset (owned ?s4) = mset [?d..<k]"
    using mq b k q0 by (simp add: owned_def upt_conv_Cons)
  have later: "k < length (procs s) \<longrightarrow> arrivalTime (procs s ! k) \<noteq> arrivalTime (cur s)"
    using later0 k by (simp add: arrivalTime_modify split: if_splits)
  have s4: "length (procs ?s4) = length (procs s)"
    "\<forall>j < length (procs s). remainingTime (procs ?s4 ! j) = remainingTime (procs s ! j)"
    "\<forall>j. k \<le> j \<longrightarrow> j < length (procs s) \<longrightarrow> procs ?s4 ! j = procs s ! j"
    using ps k by (simp_all add: remainingTime_modify)
  have "tinv recs (advance s5) \<and> mu (advance s5) < mu s"
    using iu by (intro idle_tail [OF wf T idle s4 _ _ _ _ i4 k own later d5]) (simp_all add: b)
  with tick show ?thesis
    by blast
qed

lemma rr_busy_tick:
  assumes wf: "wf_input recs" and T: "tinv recs s" and r: "ref s = Some r"
  shows "\<exists>u. rr_tick tq s = Some (Inr u) \<and> tinv recs u \<and> mu u < mu s"
proof -
  have inv: "sim_inv s" and b: "bq s = []"
    using T by (auto simp: tinv_def)
  have busy: "\<not> IS_CPU_IDLE s"
    using inv r by (simp add: sim_inv_def)
  have rd: "r < data s" and dL: "data s \<le> length (procs s)" and rq_out: "r \<notin> set (rq s)"
    using inv r by (auto simp: sim_inv_def owned_def)
  let ?s1 = "s\<lparr>quantum := quantum s - 1,
               procs := modify (procs s) r (\<lambda>n. n\<lparr>remainingTime := remainingTime n - 1\<rparr>)\<rparr>"
  have s1: "age (run_dec (rr_count s)) = ?s1"
    using busy r b by (simp add: rr_count_def run_dec_def age_def isEmpty_def)
  have iw: "rr_idle_wait ?s1 = Some ?s1"
    using busy by (intro rr_idle_wait_exit) simp
  have i1: "sim_inv ?s1"
    using sim_inv_age [OF sim_inv_run_dec [OF sim_inv_rr_count [OF inv]]] s1 by simp
  have other: "procs ?s1 ! j = procs s ! j" if "j \<noteq> r" for j
    using that by simp
  have noint: "\<forall>j. data ?s1 \<le> j \<longrightarrow> j < length (procs ?s1) \<longrightarrow> \<not> 1000 < processId (procs ?s1 ! j)"
    using tinv_node [OF wf T] rd other by auto
  obtain k q ps where ar: "rr_arrivals tq ?s1 = Inr (?s1\<lparr>procs := ps, rq := q, data := k\<rparr>)"
    and k0: "data ?s1 \<le> k" "k \<le> length (procs ?s1)" and mq: "mset q = mset (rq ?s1) + mset [data ?s1..<k]"
    and ps: "length ps = length (procs ?s1)"
      "\<forall>j < length (procs ?s1). remainingTime (ps ! j) = remainingTime (procs ?s1 ! j) \<and>
                                arrivalTime (ps ! j) = arrivalTime (procs ?s1 ! j)"
      "\<forall>j. k \<le> j \<longrightarrow> j < length (procs ?s1) \<longrightarrow> ps ! j = procs ?s1 ! j"
    and now0: "\<forall>j. data ?s1 \<le> j \<longrightarrow> j < k \<longrightarrow> arrivalTime (procs ?s1 ! j) = SYSTEM_TIME ?s1"
    and later0: "k < length (procs ?s1) \<longrightarrow> arrivalTime (procs ?s1 ! k) \<noteq> SYSTEM_TIME ?s1"
    using rr_arrivals_plain [of ?s1 tq] dL busy noint by auto
  let ?s4 = "?s1\<lparr>procs := ps, rq := q, data := k\<rparr>"
  have k: "data s \<le> k" "k \<le> length (procs s)"
    using k0 by simp_all
  have i4: "sim_inv ?s4"
    using sim_inv_rr_arrivals [OF i1, of tq] ar by auto
  obtain s5 where d: "rr_dispatch tq (complete_running ?s4) = Inr s5"
    and d5: "dispatch_like (complete_running ?s4) s5"
    using rr_dispatch_like [OF sim_inv_complete_running [OF i4]] b by auto
  have b5: "bq s5 = []"
    using d5 b by (simp add: dispatch_like_def)
  have tick: "rr_tick tq s = Some (Inr (advance s5))"
    using s1 iw ar d b5 by (intro rr_tick_tail) simp_all
  have iu: "sim_inv (advance s5) \<and> map static (procs (advance s5)) = map static (procs s)"
    using rr_tick_invariant [OF inv tick] .
  have own: "mset (owned ?s4) = mset (owned s) + mset [data s..<k]"
    using mq r b by (simp add: owned_def)
  have s4: "length (procs ?s4) = length (procs s)"
    "\<forall>j < length (procs s). remainingTime (procs ?s4 ! j) =
        remainingTime (procs s ! j) - (if j = r then 1 else 0)"
    "\<forall>j. k \<le> j \<longrightarrow> j < length (procs s) \<longrightarrow> procs ?s4 ! j = procs s ! j"
    using ps k rd dec_facts [of "procs s" r] by auto
  have posq: "\<forall>j \<in> set (rq ?s4). 0 < remainingTime (procs ?s4 ! j)"
  proof
    fix j
    assume "j \<in> set (rq ?s4)"
    then have "j \<in># mset q"
      by simp
    then have "j \<in># mset (rq s) + mset [data s..<k]"
      using mq by simp
    then have jr: "j \<noteq> r" and jp: "j \<in># pool s"
      using rq_out rd k by (auto simp: pool_def owned_def)
    have "j < length (procs s)"
      using pool_bound [OF inv jp] .
    with jr jp s4(2) tinv_pool_pos [OF wf T] show "0 < remainingTime (procs ?s4 ! j)"
      by simp
  qed
  have now: "\<forall>j. data s \<le> j \<longrightarrow> j < k \<longrightarrow> arrivalTime (procs s ! j) = SYSTEM_TIME s"
    and later: "k < length (procs s) \<longrightarrow> arrivalTime (procs s ! k) \<noteq> SYSTEM_TIME s"
    using now0 later0 by (simp_all add: arrivalTime_modify split: if_splits)
  have "tinv recs (advance s5) \<and> mu (advance s5) < mu s"
    using iu posq
    by (intro busy_tail [where r' = r, OF wf T r s4 _ _ _ _ i4 k own _ _ now later d5])
       (simp_all add: b r)
  with tick show ?thesis
    by blast
qed

subsection \<open>Termination\<close>

lemma rr_terminates:
  assumes wf: "wf_input recs"
  shows "\<exists>s. roundRobin tq (input recs) = Some (Inr s) \<and>
           (\<forall>i < length (procs s). isTerminated (procs s ! i) \<and> finished_ok (procs s ! i)) \<and>
           map static (procs s) = map static (input recs)"
proof -
  have step: "\<exists>u. rr_tick tq t = Some (Inr u) \<and> tinv recs u \<and> mu u < mu t"
    if T: "tinv recs t" and lc: "loop_cond t" for t
  proof (cases "IS_CPU_IDLE t")
    case True
    with T lc show ?thesis by (rule rr_idle_tick [OF wf])
  next
    case False
    have "sim_inv t"
      using T by (simp add: tinv_def)
    with False obtain r where "ref t = Some r"
      by (cases "ref t") (simp_all add: sim_inv_def)
    with T show ?thesis by (rule rr_busy_tick [OF wf])
  qed
  obtain s where s: "roundRobin tq (input recs) = Some (Inr s)"
    using sched_loop_terminates [where I = "tinv recs" and mu = mu, OF tinv_init [OF wf] step]
    unfolding roundRobin_def by blast
  obtain s' where s': "Inr s = (Inr s' :: sched_error + sim)" "sim_inv s'" "\<not> loop_cond s'"
    "map static (procs s') = map static (input recs)"
    using rr_run [OF _ s] input_fresh by blast
  have fin: "sim_inv s" "\<not> loop_cond s" "map static (procs s) = map static (input recs)"
    using s' by simp_all
  have "isTerminated (procs s ! i) \<and> finished_ok (procs s ! i)" if "i < length (procs s)" for i
    using sim_inv_final [OF fin(1,2) that] wf_no_interrupt [OF wf fin(3) that] by simp
  with s fin(3) show ?thesis
    by blast
qed

text \<open>C8: \<^verbatim>\<open>roundRobin\<close> terminates on every well-formed input and for every time
  quantum (zero and negative ones included), without a NULL dereference, and then every
  process has completed with consistent completion and turnaround times.\<close>

theorem roundRobin_terminates:
  assumes "wf_input recs"
  shows "\<exists>s. roundRobin tq (input recs) = Some (Inr s) \<and>
           (\<forall>i < length (procs s). isTerminated (procs s ! i) \<and> finished_ok (procs s ! i))"
  using rr_terminates [OF assms] by blast

end
