(* ===== verification/Input_File.thy ===== *)
theory Input_File
  imports Report
begin

text \<open>
  The file layer of \<^verbatim>\<open>main\<close> (lines 70--105): opening \<^verbatim>\<open>input.txt\<close>,
  \<^verbatim>\<open>setPolicy\<close> (lines 305--308) and \<^verbatim>\<open>input\<close> (lines 296--301). The file is a list
  of whitespace-separated tokens: \<open>TInt v\<close> is a word that \<^verbatim>\<open>%d\<close> converts to
  \<open>v\<close>, \<open>TBad\<close> a word it cannot convert, which \<^verbatim>\<open>fscanf\<close> leaves unread.
  \<^verbatim>\<open>fscanf\<close> returns \<^verbatim>\<open>EOF\<close> when the input ends before the first conversion and
  the number of conversions otherwise; a failed conversion leaves its variable as it was.
  The three locals of \<^verbatim>\<open>input\<close> start uninitialised (\<open>None\<close>); the globals
  \<^verbatim>\<open>SCHEDULING_POLICY\<close> and \<^verbatim>\<open>TIME_QUANTUM\<close> start at 0.
\<close>

datatype token = TInt int | TBad

datatype scan_ret = EOF | Count nat

text \<open>The conversions of one \<^verbatim>\<open>fscanf\<close> call with \<open>n\<close> \<^verbatim>\<open>%d\<close> directives.\<close>

fun scan_ints :: "nat \<Rightarrow> token list \<Rightarrow> int list \<times> token list" where
  "scan_ints 0 ts = ([], ts)"
| "scan_ints (Suc n) [] = ([], [])"
| "scan_ints (Suc n) (TBad # ts) = ([], TBad # ts)"
| "scan_ints (Suc n) (TInt v # ts) = (case scan_ints n ts of (vs, rest) \<Rightarrow> (v # vs, rest))"

definition fscanf_ints :: "nat \<Rightarrow> token list \<Rightarrow> scan_ret \<times> int list \<times> token list" where
  "fscanf_ints n ts =
     (if ts = [] then (EOF, [], [])
      else (case scan_ints n ts of (vs, rest) \<Rightarrow> (Count (length vs), vs, rest)))"

text \<open>The locals \<^verbatim>\<open>arrivalTime\<close>, \<^verbatim>\<open>burstTime\<close>, \<^verbatim>\<open>isInterrupt\<close> of \<^verbatim>\<open>input\<close>,
  in the order of the format: the converted values are stored, the others kept.\<close>

type_synonym in_vars = "int option \<times> int option \<times> int option"

fun store3 :: "int list \<Rightarrow> in_vars \<Rightarrow> in_vars" where
  "store3 (a # b # i # _) _ = (Some a, Some b, Some i)"
| "store3 [a, b] (_, _, i) = (Some a, Some b, i)"
| "store3 [a] (_, b, i) = (Some a, b, i)"
| "store3 [] v = v"

text \<open>\<^verbatim>\<open>input\<close>: call \<^verbatim>\<open>insert\<close> until \<^verbatim>\<open>fscanf\<close> returns \<^verbatim>\<open>EOF\<close>. A call that
  converts fewer than three numbers still inserts, with the values left from before; an
  uninitialised one is \<open>UninitRead\<close>. The loop need not end, so it returns an option.\<close>

partial_function (option) input_loop ::
  "id_counters \<Rightarrow> node list \<Rightarrow> in_vars \<Rightarrow> token list \<Rightarrow> (sched_error + node list) option" where
  "input_loop c l v ts =
     (case fscanf_ints 3 ts of
        (EOF, _, _) \<Rightarrow> Some (Inr l)
      | (Count _, xs, rest) \<Rightarrow>
          (case store3 xs v of
             (Some a, Some b, Some i) \<Rightarrow>
               (case insert_pcb c l a b i of
                  (c', l') \<Rightarrow> input_loop c' l' (Some a, Some b, Some i) rest)
           | _ \<Rightarrow> Some (Inl UninitRead)))"

definition input_file :: "token list \<Rightarrow> (sched_error + node list) option" where
  "input_file ts = input_loop init_counters [] (None, None, None) ts"

text \<open>The globals \<^verbatim>\<open>SCHEDULING_POLICY\<close> and \<^verbatim>\<open>TIME_QUANTUM\<close> (lines 8--9).\<close>

record sched_globals =
  SCHEDULING_POLICY :: int
  TIME_QUANTUM :: int

definition init_globals :: sched_globals where
  "init_globals = \<lparr>SCHEDULING_POLICY = 0, TIME_QUANTUM = 0\<rparr>"

text \<open>\<^verbatim>\<open>setPolicy\<close>: read the policy, and the quantum when the policy is 4.\<close>

definition setPolicy :: "sched_globals \<Rightarrow> token list \<Rightarrow> sched_globals \<times> token list" where
  "setPolicy g ts =
     (case fscanf_ints 1 ts of
        (_, xs, rest) \<Rightarrow>
          (let g' = (case xs of [p] \<Rightarrow> g\<lparr>SCHEDULING_POLICY := p\<rparr> | _ \<Rightarrow> g) in
           if SCHEDULING_POLICY g' = 4 then
             (case fscanf_ints 1 rest of
                (_, ys, rest') \<Rightarrow> ((case ys of [q] \<Rightarrow> g'\<lparr>TIME_QUANTUM := q\<rparr> | _ \<Rightarrow> g'), rest'))
           else (g', rest)))"

text \<open>What \<^verbatim>\<open>main\<close> ends with: \<^verbatim>\<open>return -1\<close> when the file does not open, or the
  outcome of scheduling and writing the report.\<close>

datatype main_outcome = Open_failed | Completed "sched_error + report"

text \<open>\<^verbatim>\<open>main\<close>: \<open>None\<close> stands for a file that \<^verbatim>\<open>fopen\<close> cannot open.\<close>

definition main :: "token list option \<Rightarrow> main_outcome option" where
  "main file =
     (case file of
        None \<Rightarrow> Some Open_failed
      | Some ts \<Rightarrow>
          (case setPolicy init_globals ts of
             (g, rest) \<Rightarrow>
               (case input_loop init_counters [] (None, None, None) rest of
                  None \<Rightarrow> None
                | Some (Inl e) \<Rightarrow> Some (Completed (Inl e))
                | Some (Inr ps) \<Rightarrow>
                    map_option Completed
                      (schedule_and_output (SCHEDULING_POLICY g) (TIME_QUANTUM g) ps))))"

text \<open>The file a well-formed scenario is written as: the policy, the quantum for Round
  Robin, then one line of three numbers per record.\<close>

definition rec_tokens :: "int \<times> int \<times> int \<Rightarrow> token list" where
  "rec_tokens r = (case r of (a, b, i) \<Rightarrow> [TInt a, TInt b, TInt i])"

definition render_file :: "int \<Rightarrow> int \<Rightarrow> (int \<times> int \<times> int) list \<Rightarrow> token list" where
  "render_file policy tq recs =
     TInt policy # (if policy = 4 then [TInt tq] else []) @ concat (map rec_tokens recs)"

declare fscanf_ints_def [sched_simps] input_file_def [sched_simps] init_globals_def [sched_simps]
  setPolicy_def [sched_simps] main_def [sched_simps] rec_tokens_def [sched_simps]
  render_file_def [sched_simps]

subsection \<open>Reading records\<close>

lemma fscanf_rec [simp]:
  "fscanf_ints 3 (rec_tokens (a, b, i) @ ts) = (Count 3, [a, b, i], ts)"
  by (simp add: fscanf_ints_def rec_tokens_def eval_nat_numeral)

lemma input_loop_Nil [simp]: "input_loop c l v [] = Some (Inr l)"
  by (subst input_loop.simps) (simp add: fscanf_ints_def)

lemma input_loop_rec:
  "input_loop c l v (rec_tokens (a, b, i) @ ts) =
     (case insert_pcb c l a b i of (c', l') \<Rightarrow> input_loop c' l' (Some a, Some b, Some i) ts)"
  by (subst input_loop.simps) simp

lemma input_loop_render:
  "input_loop c l v (concat (map rec_tokens recs)) = Some (Inr (snd (input_from c l recs)))"
proof (induction recs arbitrary: c l v)
  case Nil
  then show ?case by simp
next
  case (Cons r recs)
  obtain a b i where r: "r = (a, b, i)"
    by (cases r) auto
  show ?case
    using Cons.IH input_loop_rec [of c l v a b i "concat (map rec_tokens recs)"] r
    by (simp split: prod.split)
qed

lemma input_loop_records:
  "recs \<noteq> [] \<Longrightarrow>
     input_loop c l v (concat (map rec_tokens recs) @ rest) =
       input_loop (fst (input_from c l recs)) (snd (input_from c l recs))
         (Some (fst (last recs)), Some (fst (snd (last recs))), Some (snd (snd (last recs)))) rest"
proof (induction recs arbitrary: c l v)
  case Nil
  then show ?case by simp
next
  case (Cons r recs)
  obtain a b i where r: "r = (a, b, i)"
    by (cases r) auto
  show ?case
  proof (cases "recs = []")
    case True
    then show ?thesis
      using input_loop_rec [of c l v a b i rest] r by (simp split: prod.split)
  next
    case False
    then show ?thesis
      using Cons.IH input_loop_rec [of c l v a b i "concat (map rec_tokens recs) @ rest"] r
      by (simp split: prod.split)
  qed
qed

lemma input_from_append:
  "input_from c l (xs @ ys) = (case input_from c l xs of (c', l') \<Rightarrow> input_from c' l' ys)"
  by (induction c l xs rule: input_from.induct) (simp_all split: prod.split)

lemma input_loop_TBad:
  "input_loop c l (Some a, Some b, Some i) (TBad # ts) = None"
proof (cases "input_loop c l (Some a, Some b, Some i) (TBad # ts)")
  case (Some r)
  let ?P = "\<lambda>c l v ts' r. ts' = TBad # ts \<longrightarrow> v \<noteq> (Some a, Some b, Some i)"
  have "?P c l (Some a, Some b, Some i) (TBad # ts) r"
  proof (rule input_loop.raw_induct [where P = ?P, OF _ Some])
    fix f c l v ts' r
    assume IH: "\<And>c l v ts' r. f c l v ts' = Some r \<Longrightarrow> ?P c l v ts' r"
      and eq: "(case fscanf_ints 3 ts' of
                  (EOF, _, _) \<Rightarrow> Some (Inr l)
                | (Count _, xs, rest) \<Rightarrow>
                    (case store3 xs v of
                       (Some a, Some b, Some i) \<Rightarrow>
                         (case insert_pcb c l a b i of
                            (c', l') \<Rightarrow> f c' l' (Some a, Some b, Some i) rest)
                     | _ \<Rightarrow> Some (Inl UninitRead))) = Some r"
    show "?P c l v ts' r"
    proof (intro impI notI)
      assume ts': "ts' = TBad # ts" and v: "v = (Some a, Some b, Some i)"
      obtain c' l' where ins: "insert_pcb c l a b i = (c', l')"
        by fastforce
      from eq ts' v ins have "f c' l' (Some a, Some b, Some i) (TBad # ts) = Some r"
        by (simp add: fscanf_ints_def eval_nat_numeral)
      with IH show False
        by blast
    qed
  qed
  then show ?thesis by simp
qed simp

lemma setPolicy_render:
  "setPolicy init_globals (render_file policy tq recs) =
     (\<lparr>SCHEDULING_POLICY = policy, TIME_QUANTUM = (if policy = 4 then tq else 0)\<rparr>,
      concat (map rec_tokens recs))"
  by (simp add: setPolicy_def fscanf_ints_def render_file_def init_globals_def)

lemma input_file_render:
  "input_file (concat (map rec_tokens recs)) = Some (Inr (input recs))"
  by (simp add: input_file_def input_def input_loop_render)

lemma input_loop_two:
  "input_loop c l (Some a0, Some b0, Some i0) [TInt a, TInt b] =
     Some (Inr (snd (insert_pcb c l a b i0)))"
proof -
  obtain c' l' where ins: "insert_pcb c l a b i0 = (c', l')"
    by fastforce
  have "input_loop c l (Some a0, Some b0, Some i0) [TInt a, TInt b] =
          input_loop c' l' (Some a, Some b, Some i0) []"
    using ins by (subst input_loop.simps) (simp add: fscanf_ints_def eval_nat_numeral)
  with ins show ?thesis
    by simp
qed

subsection \<open>What \<^verbatim>\<open>main\<close> makes of a file\<close>

text \<open>C14: reading a file written from a scenario gives back the scenario: \<^verbatim>\<open>main\<close>
  on the file holding the policy, the quantum when the policy is 4, and the records reads
  exactly that policy and quantum (0 otherwise) and exactly the list that \<^verbatim>\<open>input\<close>
  builds from the records, then schedules and reports them.\<close>

theorem main_roundtrip:
  "main (Some (render_file policy tq recs)) =
     map_option Completed (run_main policy (if policy = 4 then tq else 0) recs)"
  using input_file_render [of recs]
  by (simp add: main_def setPolicy_render input_file_def run_main_def)

text \<open>C32: a last line with only two numbers is still inserted: the third \<^verbatim>\<open>fscanf\<close>
  conversion fails at the end of the file, the call returns 2, not \<^verbatim>\<open>EOF\<close>, and
  \<^verbatim>\<open>insert\<close> gets the block-request flag of the line before.\<close>

theorem input_partial_record_stale:
  assumes "recs \<noteq> []"
  shows "input_file (concat (map rec_tokens recs) @ [TInt a, TInt b]) =
           Some (Inr (input (recs @ [(a, b, snd (snd (last recs)))])))"
  using input_loop_records [OF assms, of init_counters "[]" "(None, None, None)" "[TInt a, TInt b]"]
  by (simp add: input_file_def input_loop_two input_def input_from_append split: prod.split)

text \<open>A file whose only record line is incomplete makes \<^verbatim>\<open>insert\<close> read a local
  that no \<^verbatim>\<open>fscanf\<close> ever wrote.\<close>

theorem input_partial_first_record_uninit:
  assumes "xs \<noteq> []" and "length xs < 3"
  shows "input_file (map TInt xs) = Some (Inl UninitRead)"
proof -
  obtain x ys where xs: "xs = x # ys"
    using assms(1) by (cases xs) auto
  from assms(2) xs consider "ys = []" | y where "ys = [y]"
    by (cases ys) auto
  then show ?thesis
    using xs
    by cases (subst input_file_def, subst input_loop.simps, simp add: fscanf_ints_def eval_nat_numeral)+
qed

text \<open>C33: a word that is not a number after the first record makes \<^verbatim>\<open>input\<close> loop for
  ever: \<^verbatim>\<open>fscanf\<close> converts nothing, leaves the word unread and returns 0, which is
  not \<^verbatim>\<open>EOF\<close>, so the last record is inserted again and again.\<close>

theorem input_bad_token_hangs:
  assumes "recs \<noteq> []"
  shows "input_file (concat (map rec_tokens recs) @ TBad # ts) = None"
  using input_loop_records [OF assms, of init_counters "[]" "(None, None, None)" "TBad # ts"]
  by (simp add: input_file_def input_loop_TBad)

text \<open>C34: when the first word of the file is not a number, \<^verbatim>\<open>setPolicy\<close> leaves the
  policy at 0 and the word unread; \<^verbatim>\<open>input\<close> then inserts a record built from its
  three uninitialised locals.\<close>

theorem main_bad_policy_token:
  "main (Some (TBad # ts)) = Some (Completed (Inl UninitRead))"
proof -
  have "input_loop init_counters [] (None, None, None) (TBad # ts) = Some (Inl UninitRead)"
    by (subst input_loop.simps) (simp add: fscanf_ints_def eval_nat_numeral)
  then show ?thesis
    by (simp add: main_def setPolicy_def init_globals_def fscanf_ints_def)
qed

end
