(* ===== verification/Display.thy ===== *)
theory Display
  imports Process
begin

text \<open>
  \<^verbatim>\<open>display\<close> (lines 139--149) prints, for every block of the list, its identity,
  \<^verbatim>\<open>waitingTime\<close> and \<^verbatim>\<open>turnAroundTime\<close>. \<^verbatim>\<open>main\<close> never calls it. The printed
  text is a string; \<^verbatim>\<open>%d\<close> prints the decimal digits of an \<^verbatim>\<open>int\<close> with a minus
  sign when it is negative. \<^verbatim>\<open>waitingTime\<close> is written only by \<^verbatim>\<open>output\<close>
  (line 734), so printing it before is a read of an unwritten field (\<open>UninitRead\<close>).
\<close>

text \<open>The \<^verbatim>\<open>%d\<close> conversion of \<^verbatim>\<open>printf\<close>.\<close>

definition digit_char :: "nat \<Rightarrow> char" where
  "digit_char d = char_of (48 + d)"

fun string_of_nat :: "nat \<Rightarrow> string" where
  "string_of_nat n =
     (let last_digit = digit_char (n mod 10)
      in if n < 10 then [last_digit] else string_of_nat (n div 10) @ [last_digit])"

definition string_of_int :: "int \<Rightarrow> string" where
  "string_of_int i = (if 0 \<le> i then string_of_nat (nat i) else CHR ''-'' # string_of_nat (nat (- i)))"

declare string_of_nat.simps [simp del]

text \<open>The loop of lines 143--146: one paragraph per block, in list order.\<close>

fun display_lines :: "node list \<Rightarrow> sched_error + string" where
  "display_lines [] = Inr []"
| "display_lines (n # ns) =
     (case (waitingTime n, turnAroundTime n) of
        (Some w, Some t) \<Rightarrow>
          (case display_lines ns of
             Inl e \<Rightarrow> Inl e
           | Inr txt \<Rightarrow>
               Inr (''Process '' @ string_of_int (processId n) @ '':'' @ [CHR 0x0A] @
                    ''Waiting Time: '' @ string_of_int w @ [CHR 0x0A] @
                    ''Turn Around Time: '' @ string_of_int t @ [CHR 0x0A] @ txt))
      | _ \<Rightarrow> Inl UninitRead)"

text \<open>\<^verbatim>\<open>display\<close>: a blank line, then the paragraphs.\<close>

definition display :: "node list \<Rightarrow> sched_error + string" where
  "display ps = (case display_lines ps of Inl e \<Rightarrow> Inl e | Inr txt \<Rightarrow> Inr (CHR 0x0A # txt))"

text \<open>Reading decimal text back, the inverse of \<^verbatim>\<open>%d\<close>.\<close>

definition nat_of_digits :: "string \<Rightarrow> nat" where
  "nat_of_digits cs = foldl (\<lambda>acc c. 10 * acc + (of_char c - 48)) 0 cs"

definition int_of_dec :: "string \<Rightarrow> int" where
  "int_of_dec cs =
     (case cs of
        c # ds \<Rightarrow> if c = CHR ''-'' then - int (nat_of_digits ds) else int (nat_of_digits cs)
      | [] \<Rightarrow> 0)"

subsection \<open>Printed numbers read back\<close>

lemma of_char_digit [simp]: "d < 10 \<Longrightarrow> of_char (digit_char d) = 48 + d"
  by (simp add: digit_char_def of_char_of)

lemma digit_not_minus: "d < 10 \<Longrightarrow> digit_char d \<noteq> CHR ''-''"
proof
  assume "d < 10" "digit_char d = CHR ''-''"
  then have "48 + d = of_char (CHR ''-'')"
    using of_char_digit [of d] by simp
  then show False
    by simp
qed

lemma nat_of_digits_snoc: "nat_of_digits (cs @ [c]) = 10 * nat_of_digits cs + (of_char c - 48)"
  by (simp add: nat_of_digits_def)

lemma nat_of_digits_string_of_nat: "nat_of_digits (string_of_nat n) = n"
proof (induction n rule: string_of_nat.induct)
  case (1 n)
  show ?case
  proof (cases "n < 10")
    case True
    then show ?thesis
      by (subst string_of_nat.simps) (simp add: Let_def nat_of_digits_def)
  next
    case False
    then have "nat_of_digits (string_of_nat n) = 10 * (n div 10) + n mod 10"
      using "1.IH" by (subst string_of_nat.simps) (simp add: Let_def nat_of_digits_snoc)
    then show ?thesis
      by simp
  qed
qed

lemma string_of_nat_ne: "string_of_nat n \<noteq> []"
  by (subst string_of_nat.simps) (simp add: Let_def)

lemma string_of_nat_head: "hd (string_of_nat n) \<noteq> CHR ''-''"
proof (induction n rule: string_of_nat.induct)
  case (1 n)
  with string_of_nat_ne digit_not_minus [of "n mod 10"] show ?case
    by (subst string_of_nat.simps) (auto simp: Let_def hd_append)
qed

text \<open>The text that \<^verbatim>\<open>%d\<close> prints for a number reads back as that number.\<close>

lemma int_of_dec_string_of_int: "int_of_dec (string_of_int i) = i"
proof (cases "0 \<le> i")
  case False
  then show ?thesis
    by (simp add: string_of_int_def int_of_dec_def nat_of_digits_string_of_nat)
next
  case True
  obtain c ds where cs: "string_of_nat (nat i) = c # ds"
    using string_of_nat_ne by (cases "string_of_nat (nat i)") auto
  have "c \<noteq> CHR ''-''"
    using string_of_nat_head [of "nat i"] cs by simp
  with True cs show ?thesis
    using nat_of_digits_string_of_nat [of "nat i"]
    by (simp add: string_of_int_def int_of_dec_def)
qed

subsection \<open>What \<^verbatim>\<open>display\<close> prints\<close>

lemma display_lines_unwritten:
  "\<exists>n \<in> set ps. waitingTime n = None \<Longrightarrow> display_lines ps = Inl UninitRead"
proof (induction ps)
  case (Cons a ps)
  show ?case
  proof (cases "waitingTime a = None \<or> turnAroundTime a = None")
    case False
    then have "\<exists>n \<in> set ps. waitingTime n = None"
      using Cons.prems by auto
    with False Cons.IH show ?thesis
      by auto
  qed (auto split: option.splits)
qed simp

text \<open>Before \<^verbatim>\<open>output\<close> has run, no block has a waiting time, so \<^verbatim>\<open>display\<close> on
  the loaded list reads an unwritten field.\<close>

lemma display_input_unwritten:
  assumes "recs \<noteq> []"
  shows "display (input recs) = Inl UninitRead"
proof -
  have "0 < length (input recs)"
    using assms by simp
  then have "input recs ! 0 \<in> set (input recs)"
    by (rule nth_mem)
  moreover have "waitingTime (input recs ! 0) = None"
    using assms input_nth_node [of 0 recs] by (simp add: new_node_def)
  ultimately have "display_lines (input recs) = Inl UninitRead"
    by (blast intro: display_lines_unwritten)
  then show ?thesis
    by (simp add: display_def)
qed

lemma display_lines_written:
  assumes "\<forall>n \<in> set ps. waitingTime n \<noteq> None \<and> turnAroundTime n \<noteq> None"
  shows "display_lines ps =
           Inr (concat (map (\<lambda>n. ''Process '' @ string_of_int (processId n) @ '':'' @ [CHR 0x0A] @
                  ''Waiting Time: '' @ string_of_int (the (waitingTime n)) @ [CHR 0x0A] @
                  ''Turn Around Time: '' @ string_of_int (the (turnAroundTime n)) @ [CHR 0x0A]) ps))"
  using assms by (induction ps) auto

end
