(* ===== verification/Float32.thy ===== *)
theory Float32
  imports Complex_Main "HOL-Library.Log_Nat"
begin

text \<open>
  The C \<^verbatim>\<open>float\<close> arithmetic of \<^verbatim>\<open>output\<close> (lines 698--699 and 741--747): IEEE 754
  single precision, rounding to nearest with ties to even. A float is a pair
  \<open>(m, e)\<close> of integers standing for \<open>m * 2 powi e\<close>; \<open>f32_round n d\<close> is the float
  nearest to the quotient \<open>n / d\<close>, computed on integers: \<open>f32_exp\<close> finds the binade
  of \<open>n / d\<close> from the bit lengths, \<open>scale\<close> brings the quotient into
  \<open>[2^23, 2^24)\<close>, and \<open>rne_div\<close> rounds it to an integer. The exponent range is not
  bounded: the values \<^verbatim>\<open>output\<close> forms (sums of C \<^verbatim>\<open>int\<close>s and their quotients by
  a count) lie far inside the normal range, where no overflow or subnormal occurs.
\<close>

type_synonym f32 = "int \<times> int"

definition fval :: "f32 \<Rightarrow> real" where
  "fval f = of_int (fst f) * 2 powi snd f"

definition rne_div :: "int \<Rightarrow> int \<Rightarrow> int" where
  "rne_div n d =
     (let q = n div d; r = n mod d
      in if 2 * r < d then q else if d < 2 * r then q + 1 else if even q then q else q + 1)"

definition f32_exp :: "int \<Rightarrow> int \<Rightarrow> int" where
  "f32_exp a d =
     (let k = bitlen a - bitlen d
      in if (if 0 \<le> k then d * 2 ^ nat k \<le> a else d \<le> a * 2 ^ nat (- k)) then k - 23 else k - 24)"

definition scale :: "int \<Rightarrow> int \<Rightarrow> int \<Rightarrow> int \<times> int" where
  "scale a d e = (if 0 \<le> e then (a, d * 2 ^ nat e) else (a * 2 ^ nat (- e), d))"

definition f32_round :: "int \<Rightarrow> int \<Rightarrow> f32" where
  "f32_round n d =
     (if n = 0 then (0, 0)
      else let e = f32_exp \<bar>n\<bar> d in (case scale \<bar>n\<bar> d e of (num, den) \<Rightarrow> (sgn n * rne_div num den, e)))"

text \<open>The conversion \<^verbatim>\<open>(float)\<close> of an \<^verbatim>\<open>int\<close> (lines 741--742).\<close>

definition f32_of_int :: "int \<Rightarrow> f32" where
  "f32_of_int i = f32_round i 1"

text \<open>Float addition (the \<^verbatim>\<open>+=\<close> of lines 741--742): the exact sum, rounded once.\<close>

definition f32_add :: "f32 \<Rightarrow> f32 \<Rightarrow> f32" where
  "f32_add f g =
     (let e = min (snd f) (snd g);
          s = fst f * 2 ^ nat (snd f - e) + fst g * 2 ^ nat (snd g - e)
      in if 0 \<le> e then f32_round (s * 2 ^ nat e) 1 else f32_round s (2 ^ nat (- e)))"

text \<open>Float division (line 747). A zero divisor gives no finite float: \<open>None\<close>. In
  \<^verbatim>\<open>output\<close> the divisor is the count, zero only when no row was printed and the
  dividend is the sum \<open>0\<close>: the quotient is then NaN.\<close>

definition f32_div :: "f32 \<Rightarrow> f32 \<Rightarrow> f32 option" where
  "f32_div f g =
     (if fst g = 0 then None
      else let e = snd f - snd g; s = sgn (fst g)
      in Some (if 0 \<le> e then f32_round (s * fst f * 2 ^ nat e) \<bar>fst g\<bar>
               else f32_round (s * fst f) (\<bar>fst g\<bar> * 2 ^ nat (- e))))"

subsection \<open>The reference: a float nearest to a real\<close>

definition is_f32 :: "real \<Rightarrow> bool" where
  "is_f32 x \<longleftrightarrow> (\<exists>m e. \<bar>m\<bar> < 2 ^ 24 \<and> x = of_int m * 2 powi e)"

definition closest_f32 :: "real \<Rightarrow> real \<Rightarrow> bool" where
  "closest_f32 x r \<longleftrightarrow> is_f32 r \<and> (\<forall>y. is_f32 y \<longrightarrow> \<bar>r - x\<bar> \<le> \<bar>y - x\<bar>)"

text \<open>The loop of \<^verbatim>\<open>output\<close> (lines 741--743) adds each printed value, converted
  to \<^verbatim>\<open>float\<close>, to a \<^verbatim>\<open>float\<close> sum that starts at \<open>0\<close> (line 699); line 747
  divides the sum by the count of printed rows.\<close>

fun float_sum :: "f32 \<Rightarrow> int list \<Rightarrow> f32" where
  "float_sum acc [] = acc"
| "float_sum acc (x # xs) = float_sum (f32_add acc (f32_of_int x)) xs"

definition float_average :: "int list \<Rightarrow> f32 option" where
  "float_average xs = f32_div (float_sum (0, 0) xs) (f32_of_int (int (length xs)))"

subsection \<open>Powers of two\<close>

lemma pow2_cases: "(2::real) powi e = (if 0 \<le> e then 2 ^ nat e else 1 / 2 ^ nat (- e))"
proof (cases "0 \<le> e")
  case False
  then have "(2::real) powi e = 1 / 2 powi (- e)"
    using power_int_minus_divide [of 2 "- e"] by simp
  with False show ?thesis
    by (simp add: power_int_nonneg_exp)
qed (simp add: power_int_nonneg_exp)

lemma pow2_add: "(2::real) powi (a + b) = 2 powi a * 2 powi b"
  by (simp add: power_int_add)

lemma pow2_shift: "0 \<le> k \<Longrightarrow> (2::real) powi (e + k) = 2 ^ nat k * 2 powi e"
  by (simp add: pow2_add power_int_nonneg_exp)

lemma pow2_mono:
  shows "a < b \<Longrightarrow> (2::real) powi a < 2 powi b" and "b \<le> a \<Longrightarrow> (2::real) powi b \<le> 2 powi a"
  by (rule power_int_strict_increasing; simp) (rule power_int_increasing; simp)

lemma pow2_less_iff [simp]: "(2::real) powi a < 2 powi b \<longleftrightarrow> a < b"
  using pow2_mono [of a b] pow2_mono [of b a] by (meson not_le)

lemma pow2_le_iff [simp]: "(2::real) powi a \<le> 2 powi b \<longleftrightarrow> a \<le> b"
  using pow2_less_iff [of b a] by (meson not_le)

subsection \<open>The binade of a quotient\<close>

lemma bitlen_bounds_real:
  assumes "0 < x"
  shows "(2::real) powi (bitlen x - 1) \<le> of_int x" and "of_int x < (2::real) powi bitlen x"
proof -
  have b: "1 \<le> bitlen x"
    using assms by (simp add: bitlen_alt_def)
  have "2 ^ nat (bitlen x - 1) \<le> x" "x < 2 ^ nat (bitlen x)"
    using bitlen_bounds [OF assms] by simp_all
  then have "(2::real) ^ nat (bitlen x - 1) \<le> of_int x" "of_int x < (2::real) ^ nat (bitlen x)"
    by (simp_all add: of_int_le_iff [symmetric] of_int_less_iff [symmetric] del: of_int_le_iff of_int_less_iff)
  with b show "(2::real) powi (bitlen x - 1) \<le> of_int x" "of_int x < (2::real) powi bitlen x"
    by (simp_all add: power_int_nonneg_exp)
qed

lemma ge_pow2_iff:
  assumes "0 < d"
  shows "(if 0 \<le> k then d * 2 ^ nat k \<le> a else d \<le> a * 2 ^ nat (- k)) \<longleftrightarrow>
           (2::real) powi k \<le> of_int a / of_int d"
proof (cases "0 \<le> k")
  case True
  have "(2::real) powi k \<le> of_int a / of_int d \<longleftrightarrow> of_int (d * 2 ^ nat k) \<le> (of_int a :: real)"
    using True assms by (simp add: pow2_cases pos_le_divide_eq mult.commute)
  with True show ?thesis
    by (simp only: of_int_le_iff) simp
next
  case False
  have "(2::real) powi k \<le> of_int a / of_int d \<longleftrightarrow> of_int d \<le> (of_int (a * 2 ^ nat (- k)) :: real)"
    using False assms by (simp add: pow2_cases field_simps)
  with False show ?thesis
    by (simp only: of_int_le_iff) simp
qed

lemma f32_exp_bounds:
  assumes "0 < a" "0 < d"
  shows "(2::real) powi (f32_exp a d + 23) \<le> of_int a / of_int d"
    and "of_int a / of_int d < (2::real) powi (f32_exp a d + 24)"
proof -
  let ?k = "bitlen a - bitlen d" and ?x = "of_int a / of_int d :: real"
  have a: "(2::real) powi (bitlen a - 1) \<le> of_int a" "of_int a < (2::real) powi bitlen a"
    using bitlen_bounds_real [OF assms(1)] by simp_all
  have d: "(2::real) powi (bitlen d - 1) \<le> of_int d" "of_int d < (2::real) powi bitlen d"
    using bitlen_bounds_real [OF assms(2)] by simp_all
  have lo: "(2::real) powi (?k - 1) < ?x"
  proof -
    have "(2::real) powi (?k - 1) * of_int d < 2 powi (?k - 1) * 2 powi bitlen d"
      using d(2) by simp
    also have "\<dots> = 2 powi (bitlen a - 1)"
      by (simp flip: pow2_add)
    also have "\<dots> \<le> of_int a"
      using a(1) .
    finally show ?thesis
      using assms(2) by (simp add: pos_less_divide_eq)
  qed
  have hi: "?x < (2::real) powi (?k + 1)"
  proof -
    have "(of_int a :: real) < 2 powi bitlen a"
      using a(2) .
    also have "\<dots> = 2 powi (?k + 1) * 2 powi (bitlen d - 1)"
      by (simp flip: pow2_add)
    also have "\<dots> \<le> 2 powi (?k + 1) * of_int d"
      using d(1) by simp
    finally show ?thesis
      using assms(2) by (simp add: divide_less_eq mult.commute)
  qed
  have "(2::real) powi (f32_exp a d + 23) \<le> ?x \<and> ?x < (2::real) powi (f32_exp a d + 24)"
  proof (cases "(2::real) powi ?k \<le> ?x")
    case True
    then have "f32_exp a d = ?k - 23"
      using ge_pow2_iff [OF assms(2), of ?k a] by (simp add: f32_exp_def Let_def)
    then have "f32_exp a d + 23 = ?k" "f32_exp a d + 24 = ?k + 1"
      by simp_all
    with True hi show ?thesis
      by (simp only:)
  next
    case False
    then have "f32_exp a d = ?k - 24"
      using ge_pow2_iff [OF assms(2), of ?k a] by (simp add: f32_exp_def Let_def)
    then have "f32_exp a d + 23 = ?k - 1" "f32_exp a d + 24 = ?k"
      by simp_all
    with False lo show ?thesis
      by (simp only:) simp
  qed
  then show "(2::real) powi (f32_exp a d + 23) \<le> ?x" "?x < (2::real) powi (f32_exp a d + 24)"
    by simp_all
qed

subsection \<open>Rounding, addition, division and the average\<close>


lemma scale_value:
  assumes "0 < d" "scale a d e = (num, den)"
  shows "0 < den" and "of_int num / of_int den = of_int a / of_int d / (2::real) powi e"
  using assms by (auto simp: scale_def pow2_cases field_simps split: if_splits)

lemma nearest_int:
  fixes v :: real
  assumes "of_int q \<le> v" "v < of_int q + 1"
    and "m = q \<and> v - of_int q \<le> 1 / 2 \<or> m = q + 1 \<and> 1 / 2 \<le> v - of_int q"
  shows "\<bar>of_int m - v\<bar> \<le> \<bar>of_int z - v\<bar>"
proof -
  have "z \<le> q \<or> q + 1 \<le> z"
    by arith
  then have z: "of_int z \<le> (of_int q :: real) \<or> of_int (q + 1) \<le> (of_int z :: real)"
    by (simp only: of_int_le_iff)
  with assms show ?thesis
    by (elim disjE) (auto split: abs_split)
qed

lemma rne_div_nearest:
  assumes "0 < d"
  shows "\<bar>of_int (rne_div n d) - of_int n / of_int d\<bar> \<le> \<bar>of_int z - of_int n / (of_int d :: real)\<bar>"
proof -
  let ?q = "n div d" and ?r = "n mod d" and ?v = "of_int n / of_int d :: real"
  have r: "0 \<le> ?r" "?r < d"
    using assms by simp_all
  have v: "?v = of_int ?q + of_int ?r / of_int d"
    using assms by (simp add: field_simps of_int_mult [symmetric] of_int_add [symmetric] del: of_int_mult of_int_add)
  have lo: "of_int ?q \<le> ?v" and hi: "?v < of_int ?q + 1"
    using v r assms by simp_all
  have half: "?v - of_int ?q \<le> 1 / 2 \<longleftrightarrow> 2 * ?r \<le> d" and half': "1 / 2 \<le> ?v - of_int ?q \<longleftrightarrow> d \<le> 2 * ?r"
    using v assms of_int_le_iff [of "2 * ?r" d, where 'a = real] of_int_le_iff [of d "2 * ?r", where 'a = real]
    by (simp_all add: field_simps)
  have "rne_div n d = ?q \<and> ?v - of_int ?q \<le> 1 / 2 \<or> rne_div n d = ?q + 1 \<and> 1 / 2 \<le> ?v - of_int ?q"
    using half half' by (auto simp: rne_div_def Let_def)
  from nearest_int [OF lo hi this] show ?thesis .
qed


lemma rne_div_half:
  assumes "0 < d"
  shows "\<bar>of_int (rne_div n d) - of_int n / (of_int d :: real)\<bar> \<le> 1 / 2"
proof -
  let ?v = "of_int n / of_int d :: real"
  have "\<bar>of_int (rne_div n d) - ?v\<bar> \<le> \<bar>of_int \<lfloor>?v\<rfloor> - ?v\<bar>"
    "\<bar>of_int (rne_div n d) - ?v\<bar> \<le> \<bar>of_int (\<lfloor>?v\<rfloor> + 1) - ?v\<bar>"
    using rne_div_nearest [OF assms] by blast+
  moreover have "of_int \<lfloor>?v\<rfloor> \<le> ?v" "?v < of_int \<lfloor>?v\<rfloor> + 1"
    by linarith+
  ultimately show ?thesis
    by (auto split: abs_split)
qed

lemma fval_pair [simp]: "fval (m, e) = of_int m * 2 powi e"
  by (simp add: fval_def)

lemma is_f32_intI: "\<bar>m\<bar> < 2 ^ 24 \<Longrightarrow> is_f32 (of_int m * 2 powi e)"
  by (auto simp: is_f32_def)

lemma is_f32_neg: "is_f32 x \<Longrightarrow> is_f32 (- x)"
proof -
  assume "is_f32 x"
  then obtain m e where "\<bar>m\<bar> < 2 ^ 24" "x = of_int m * 2 powi e"
    by (auto simp: is_f32_def)
  then have "\<bar>- m\<bar> < 2 ^ 24" "- x = of_int (- m) * 2 powi e"
    by simp_all
  then show "is_f32 (- x)"
    by (simp only: is_f32_intI)
qed

lemma closest_neg: "closest_f32 x r \<Longrightarrow> closest_f32 (- x) (- r)"
  unfolding closest_f32_def
proof (intro conjI allI impI)
  assume c: "is_f32 r \<and> (\<forall>y. is_f32 y \<longrightarrow> \<bar>r - x\<bar> \<le> \<bar>y - x\<bar>)"
  then show "is_f32 (- r)"
    by (simp add: is_f32_neg)
  fix y
  assume "is_f32 y"
  then have "\<bar>r - x\<bar> \<le> \<bar>- y - x\<bar>"
    using c is_f32_neg by blast
  then show "\<bar>- r - - x\<bar> \<le> \<bar>y - - x\<bar>"
    by (simp add: abs_minus_commute)
qed

lemma abs_scale: "0 < (p::real) \<Longrightarrow> \<bar>a * p - b * p\<bar> = \<bar>a - b\<bar> * p"
  by (simp add: left_diff_distrib [symmetric] abs_mult)

lemma closest_pos:
  fixes v :: real
  assumes v: "2 ^ 23 \<le> v" "v < 2 ^ 24"
    and near: "\<And>z. \<bar>of_int m - v\<bar> \<le> \<bar>of_int z - v\<bar>"
    and mb: "2 ^ 23 \<le> m" "m \<le> 2 ^ 24"
  shows "closest_f32 (v * 2 powi e) (of_int m * 2 powi e)"
proof -
  have p: "0 < (2::real) powi e"
    by simp
  have rf: "is_f32 (of_int m * 2 powi e)"
  proof (cases "m < 2 ^ 24")
    case True
    with mb show ?thesis
      by (intro is_f32_intI) simp
  next
    case False
    with mb have "of_int m * (2::real) powi e = of_int (2 ^ 23) * 2 powi (e + 1)"
      by (simp add: pow2_add)
    then show ?thesis
      using is_f32_intI [of "2 ^ 23" "e + 1"] by simp
  qed
  have l: "\<bar>of_int m * 2 powi e - v * 2 powi e\<bar> = \<bar>of_int m - v\<bar> * 2 powi e"
    using p by (simp add: left_diff_distrib [symmetric] abs_mult)
  have "\<bar>of_int m * 2 powi e - v * 2 powi e\<bar> \<le> \<bar>y - v * 2 powi e\<bar>" if yf: "is_f32 y" for y
  proof -
    obtain m' e' where m': "\<bar>m'\<bar> < 2 ^ 24" and y: "y = of_int m' * 2 powi e'"
      using yf by (auto simp: is_f32_def)
    show ?thesis
    proof (cases "e \<le> e'")
      case True
      let ?z = "m' * 2 ^ nat (e' - e)"
      have "(2::real) powi e' = 2 ^ nat (e' - e) * 2 powi e"
        using pow2_shift [of "e' - e" e] True by simp
      then have "y = of_int ?z * 2 powi e"
        using y by simp
      then have "\<bar>y - v * 2 powi e\<bar> = \<bar>of_int ?z - v\<bar> * 2 powi e"
        using p by (simp add: left_diff_distrib [symmetric] abs_mult)
      with l near [of ?z] p show ?thesis
        by (simp add: mult_right_mono)
    next
      case False
      have "\<bar>y\<bar> = of_int \<bar>m'\<bar> * 2 powi e'"
        using y by (simp add: abs_mult)
      also have "\<dots> \<le> 2 ^ 24 * 2 powi e'"
        using m' by (intro mult_right_mono) simp_all
      also have "\<dots> = 2 ^ 23 * 2 powi (e' + 1)"
        by (simp add: pow2_add)
      also have "\<dots> \<le> 2 ^ 23 * 2 powi e"
        using False by simp
      finally have "y \<le> 2 ^ 23 * 2 powi e"
        by simp
      then have "\<bar>of_int (2 ^ 23) - v\<bar> * 2 powi e \<le> \<bar>y - v * 2 powi e\<bar>"
        using v by (simp add: left_diff_distrib abs_if)
      moreover have "\<bar>of_int m - v\<bar> * 2 powi e \<le> \<bar>of_int (2 ^ 23) - v\<bar> * 2 powi e"
        using near [of "2 ^ 23"] p by (intro mult_right_mono) simp_all
      ultimately show ?thesis
        using l by linarith
    qed
  qed
  with rf show ?thesis
    by (simp add: closest_f32_def)
qed


lemma f32_round_pos:
  assumes a: "0 < a" and d: "0 < d"
  shows "closest_f32 (of_int a / of_int d) (fval (f32_round a d)) \<and>
         \<bar>fval (f32_round a d) - of_int a / of_int d\<bar> \<le> \<bar>of_int a / of_int d\<bar> / 2 ^ 24"
proof -
  define e where "e = f32_exp a d"
  obtain num den where sc: "scale a d e = (num, den)"
    by fastforce
  let ?v = "of_int num / of_int den :: real"
  have den: "0 < den" and v: "?v = of_int a / of_int d / (2::real) powi e"
    using scale_value [OF d sc] by simp_all
  have p: "0 < (2::real) powi e"
    by simp
  have x: "of_int a / of_int d = ?v * 2 powi e"
    using v p by simp
  have "(2::real) powi (e + 23) = 2 ^ 23 * 2 powi e" "(2::real) powi (e + 24) = 2 ^ 24 * 2 powi e"
    using pow2_shift [of 23 e] pow2_shift [of 24 e] by simp_all
  then have "2 ^ 23 * 2 powi e \<le> ?v * 2 powi e" "?v * 2 powi e < 2 ^ 24 * 2 powi e"
    using f32_exp_bounds [OF a d] x by (simp_all add: e_def)
  then have vb: "2 ^ 23 \<le> ?v" "?v < 2 ^ 24"
    by (simp_all only: mult_le_cancel_right_pos [OF p] mult_less_cancel_right_pos [OF p])
  let ?m = "rne_div num den"
  have near: "\<And>z. \<bar>of_int ?m - ?v\<bar> \<le> \<bar>of_int z - ?v\<bar>"
    using rne_div_nearest [OF den] by blast
  have "of_int (2 ^ 23) \<le> (of_int ?m :: real)" "(of_int ?m :: real) \<le> of_int (2 ^ 24)"
    using near [of "2 ^ 23"] near [of "2 ^ 24"] vb by (auto split: abs_split)
  then have mb: "2 ^ 23 \<le> ?m" "?m \<le> 2 ^ 24"
    by (simp_all only: of_int_le_iff)
  have r: "f32_round a d = (?m, e)"
    using a sc by (simp add: f32_round_def e_def)
  have half: "\<bar>of_int ?m - ?v\<bar> \<le> 1 / 2"
    using rne_div_half [OF den] .
  have "closest_f32 (of_int a / of_int d) (fval (f32_round a d))"
    using closest_pos [OF vb near mb, of e] x r by simp
  moreover have "\<bar>fval (f32_round a d) - of_int a / of_int d\<bar> \<le> \<bar>of_int a / of_int d\<bar> / 2 ^ 24"
  proof -
    have "\<bar>fval (f32_round a d) - of_int a / of_int d\<bar> = \<bar>of_int ?m * 2 powi e - ?v * 2 powi e\<bar>"
      by (simp only: r x fval_pair)
    also have "\<dots> = \<bar>of_int ?m - ?v\<bar> * 2 powi e"
      by (rule abs_scale [OF p])
    also have "\<dots> \<le> 1 / 2 * 2 powi e"
      using half p by (intro mult_right_mono) simp_all
    also have "\<dots> = 2 ^ 23 * 2 powi e / 2 ^ 24"
      by simp
    also have "\<dots> \<le> ?v * 2 powi e / 2 ^ 24"
      using vb p by (intro divide_right_mono mult_right_mono) simp_all
    also have "\<dots> = \<bar>of_int a / of_int d\<bar> / 2 ^ 24"
    proof -
      have "0 \<le> ?v * 2 powi e"
        using vb p by (intro mult_nonneg_nonneg) simp_all
      then show ?thesis
        by (simp only: x abs_of_nonneg)
    qed
    finally show ?thesis .
  qed
  ultimately show ?thesis ..
qed

lemma is_f32_zero [simp]: "is_f32 0"
  using is_f32_intI [of 0 0] by simp

lemma f32_round_neg: "n < 0 \<Longrightarrow> fval (f32_round n d) = - fval (f32_round (- n) d)"
  by (simp add: f32_round_def Let_def split: prod.splits)

lemma f32_round_closest_bound:
  assumes d: "0 < d"
  shows "closest_f32 (of_int n / of_int d) (fval (f32_round n d)) \<and>
         \<bar>fval (f32_round n d) - of_int n / of_int d\<bar> \<le> \<bar>of_int n / of_int d\<bar> / 2 ^ 24"
proof (cases n "0 :: int" rule: linorder_cases)
  case less
  then have "0 < - n"
    by simp
  then have c: "closest_f32 (of_int (- n) / of_int d) (fval (f32_round (- n) d))"
    and b: "\<bar>fval (f32_round (- n) d) - of_int (- n) / of_int d\<bar> \<le> \<bar>of_int (- n) / of_int d\<bar> / 2 ^ 24"
    using f32_round_pos [OF _ d] by blast+
  have "closest_f32 (- (of_int (- n) / of_int d)) (- fval (f32_round (- n) d))"
    using closest_neg [OF c] .
  moreover have "fval (f32_round n d) - of_int n / of_int d =
                   - (fval (f32_round (- n) d) - of_int (- n) / of_int d)"
    using less by (simp add: f32_round_neg)
  moreover have "\<bar>of_int n / of_int d\<bar> = \<bar>of_int (- n) / (of_int d :: real)\<bar>"
    by simp
  ultimately show ?thesis
    using less b by (simp only: abs_minus_cancel f32_round_neg) simp
next
  case equal
  then show ?thesis
    by (simp add: f32_round_def closest_f32_def)
next
  case greater
  from f32_round_pos [OF this d] show ?thesis .
qed


lemma closest_exact: "closest_f32 x r \<Longrightarrow> is_f32 x \<Longrightarrow> r = x"
proof -
  assume c: "closest_f32 x r" and x: "is_f32 x"
  from c have "\<forall>y. is_f32 y \<longrightarrow> \<bar>r - x\<bar> \<le> \<bar>y - x\<bar>"
    by (simp add: closest_f32_def)
  with x have "\<bar>r - x\<bar> \<le> \<bar>x - x\<bar>"
    by blast
  then show "r = x"
    by simp
qed

lemma is_f32_int: "\<bar>i\<bar> < 2 ^ 24 \<Longrightarrow> is_f32 (of_int i)"
  using is_f32_intI [of i 0] by simp

lemma f32_of_int_exact: "\<bar>i\<bar> < 2 ^ 24 \<Longrightarrow> fval (f32_of_int i) = of_int i"
  using f32_round_closest_bound [of 1 i] closest_exact is_f32_int by (simp add: f32_of_int_def)

lemma f32_add_round:
  "\<exists>n d. 0 < d \<and> f32_add f g = f32_round n d \<and> of_int n / of_int d = fval f + fval g"
proof -
  obtain m1 e1 m2 e2 where f: "f = (m1, e1)" and g: "g = (m2, e2)"
    by fastforce
  define e where "e = min e1 e2"
  define s where "s = m1 * 2 ^ nat (e1 - e) + m2 * 2 ^ nat (e2 - e)"
  have "(2::real) powi e1 = 2 ^ nat (e1 - e) * 2 powi e" "(2::real) powi e2 = 2 ^ nat (e2 - e) * 2 powi e"
    using pow2_shift [of "e1 - e" e] pow2_shift [of "e2 - e" e] by (simp_all add: e_def)
  then have sum: "fval f + fval g = of_int s * 2 powi e"
    by (simp add: f g s_def algebra_simps)
  have add: "f32_add f g = (if 0 \<le> e then f32_round (s * 2 ^ nat e) 1 else f32_round s (2 ^ nat (- e)))"
    by (simp add: f32_add_def f g e_def s_def Let_def)
  show ?thesis
  proof (cases "0 \<le> e")
    case True
    then have "f32_add f g = f32_round (s * 2 ^ nat e) 1"
      by (simp only: add if_True)
    moreover have "of_int (s * 2 ^ nat e) / of_int 1 = fval f + fval g"
      using sum True by (simp add: pow2_cases)
    ultimately show ?thesis
      by (meson zero_less_one)
  next
    case False
    then have "f32_add f g = f32_round s (2 ^ nat (- e))"
      by (simp only: add if_False)
    moreover have "of_int s / of_int (2 ^ nat (- e)) = fval f + fval g"
      using sum False by (simp add: pow2_cases)
    ultimately show ?thesis
      by (meson zero_less_power zero_less_numeral)
  qed
qed

lemma f32_add_closest: "closest_f32 (fval f + fval g) (fval (f32_add f g))"
  using f32_add_round [of f g] f32_round_closest_bound by metis

lemma f32_div_round:
  assumes "fst g \<noteq> 0"
  shows "\<exists>n d r. 0 < d \<and> f32_div f g = Some r \<and> r = f32_round n d \<and> of_int n / of_int d = fval f / fval g"
proof -
  obtain m1 e1 m2 e2 where f: "f = (m1, e1)" and g: "g = (m2, e2)"
    by fastforce
  have m2: "m2 \<noteq> 0"
    using assms g by simp
  define e where "e = e1 - e2"
  have sg: "of_int (sgn m2 * m1) / of_int \<bar>m2\<bar> = (of_int m1 / of_int m2 :: real)"
    using m2 by (cases "0 < m2") (simp_all add: not_less le_less)
  have q: "fval f / fval g = of_int (sgn m2 * m1) / of_int \<bar>m2\<bar> * 2 powi e"
    using sg by (simp add: f g e_def power_int_diff)
  show ?thesis
  proof (cases "0 \<le> e")
    case True
    have "of_int (sgn m2 * m1 * 2 ^ nat e) / of_int \<bar>m2\<bar> = fval f / fval g"
      using q True by (simp add: pow2_cases)
    moreover have "f32_div f g = Some (f32_round (sgn m2 * m1 * 2 ^ nat e) \<bar>m2\<bar>)"
      using m2 True by (simp add: f32_div_def f g e_def Let_def)
    ultimately show ?thesis
      using m2 by (meson zero_less_abs_iff)
  next
    case False
    have "of_int (sgn m2 * m1) / of_int (\<bar>m2\<bar> * 2 ^ nat (- e)) = fval f / fval g"
      using q False by (simp add: pow2_cases)
    moreover have "f32_div f g = Some (f32_round (sgn m2 * m1) (\<bar>m2\<bar> * 2 ^ nat (- e)))"
      using m2 False by (simp add: f32_div_def f g e_def Let_def)
    ultimately show ?thesis
      using m2 by (meson zero_less_abs_iff zero_less_mult_iff zero_less_power zero_less_numeral)
  qed
qed

lemma float_sum_exact:
  "\<bar>s\<bar> + sum_list (map abs xs) < 2 ^ 24 \<Longrightarrow> fval acc = of_int s \<Longrightarrow>
     fval (float_sum acc xs) = of_int (s + sum_list xs)"
proof (induction xs arbitrary: acc s)
  case (Cons x xs)
  have rest: "0 \<le> sum_list (map abs xs)"
    by (induction xs) simp_all
  then have x: "\<bar>x\<bar> < 2 ^ 24" and sx: "\<bar>s + x\<bar> < 2 ^ 24"
    using Cons.prems(1) by simp_all
  have sum: "fval acc + fval (f32_of_int x) = of_int (s + x)"
    using Cons.prems(2) f32_of_int_exact [OF x] by simp
  then have "is_f32 (fval acc + fval (f32_of_int x))"
    using is_f32_int [OF sx] by simp
  then have "fval (f32_add acc (f32_of_int x)) = of_int (s + x)"
    using closest_exact [OF f32_add_closest] sum by simp
  moreover have "\<bar>s + x\<bar> + sum_list (map abs xs) < 2 ^ 24"
    using Cons.prems(1) by simp
  ultimately show ?case
    using Cons.IH by (simp add: add.assoc)
qed simp


lemma float_average_Nil: "float_average [] = None"
  by (simp add: float_average_def f32_of_int_def f32_round_def f32_div_def)

lemma fval_fst_zero: "fst f = 0 \<Longrightarrow> fval f = 0"
  by (simp add: fval_def)

lemma float_average_mean:
  assumes "xs \<noteq> []" "sum_list (map abs xs) < 2 ^ 24" "length xs < 2 ^ 24"
  shows "\<exists>f. float_average xs = Some f \<and>
           closest_f32 (of_int (sum_list xs) / of_nat (length xs)) (fval f) \<and>
           \<bar>fval f - of_int (sum_list xs) / of_nat (length xs)\<bar> \<le>
             \<bar>of_int (sum_list xs) / of_nat (length xs)\<bar> / 2 ^ 24"
proof -
  let ?g = "f32_of_int (int (length xs))" and ?s = "float_sum (0, 0) xs"
  have g: "fval ?g = of_nat (length xs)"
    using f32_of_int_exact [of "int (length xs)"] assms(3) by simp
  then have g0: "fst ?g \<noteq> 0"
    using assms(1) fval_fst_zero [of ?g] by auto
  have sm: "fval ?s = of_int (sum_list xs)"
    using float_sum_exact [of 0 xs "(0, 0)"] assms(2) by simp
  obtain n d r where "0 < d" "float_average xs = Some r" "r = f32_round n d"
    "of_int n / of_int d = fval ?s / fval ?g"
    using f32_div_round [OF g0, of ?s] by (auto simp: float_average_def)
  with f32_round_closest_bound [of d n] sm g show ?thesis
    by auto
qed

text \<open>The rules that evaluate the float operations on numerals by \<open>simp\<close>.\<close>

lemmas f32_eval = float_average_def f32_of_int_def f32_add_def f32_div_def f32_round_def f32_exp_def
  scale_def rne_div_def compute_bitlen Let_def

end
