(* ===== verification/Output_Text.thy ===== *)
theory Output_Text
  imports Report Display Float32
begin

text \<open>
  The text \<^verbatim>\<open>output\<close> (lines 695--748) writes to \<^verbatim>\<open>output.txt\<close>: the title of
  the policy (the \<^verbatim>\<open>switch\<close> of lines 710--722, which has no default case), the
  column titles (lines 724--727), one line per row in the \<^verbatim>\<open>%Nd\<close> fields of
  lines 736--739, and the two averages of line 747. A conversion \<^verbatim>\<open>%Nd\<close> prints
  the decimal text of \<^verbatim>\<open>display\<close> right-justified in a field of N characters, and
  never truncates it. The averages are the \<^verbatim>\<open>float\<close> quotients of theory
  \<open>Float32\<close>, printed by \<^verbatim>\<open>%.2f\<close> (\<open>fmt_2f\<close>). The reader side (\<open>words_of\<close>, splitting a text at blanks)
  is not code of the program: it states what a reader of the file gets back.
\<close>

definition pad_left :: "nat \<Rightarrow> string \<Rightarrow> string" where
  "pad_left w s = replicate (w - length s) CHR '' '' @ s"

definition fmt_d :: "nat \<Rightarrow> int \<Rightarrow> string" where
  "fmt_d w i = pad_left w (string_of_int i)"

definition policy_header :: "int \<Rightarrow> int \<Rightarrow> string" where
  "policy_header policy tq =
     (if policy = 1 then ''First Come First Serve (FCFS) Scheduling Policy'' @ [CHR 0x0A, CHR 0x0A]
      else if policy = 2 then ''Shortest Job First (SJF) Scheduling Policy'' @ [CHR 0x0A, CHR 0x0A]
      else if policy = 3 then
        ''Preemptive Shortest Job First (SJF) Scheduling Policy'' @ [CHR 0x0A, CHR 0x0A]
      else if policy = 4 then
        ''Round Robin Scheduling Policy with Time Quantum of '' @ string_of_int tq @ [CHR 0x0A, CHR 0x0A]
      else [])"

definition column_header :: "int \<Rightarrow> string" where
  "column_header policy =
     ''Process Id    Arrival Time    Burst Time    Completion Time    Waiting Time    Turn Around Time''
     @ (if policy = 4 then ''   Response Time'' else []) @ [CHR 0x0A]"

text \<open>The conversions of lines 736--739 with the values they print, in order.\<close>

definition row_fields :: "int \<Rightarrow> row \<Rightarrow> (nat \<times> int) list" where
  "row_fields policy w =
     [(6, row_id w), (15, row_arrival w), (14, row_burst w), (18, row_completion w),
      (17, row_waiting w), (18, row_turnaround w)] @
     (if policy = 4 then [(22, row_response w)] else [])"

definition row_line :: "int \<Rightarrow> row \<Rightarrow> string" where
  "row_line policy w = concat (map (\<lambda>(wd, i). fmt_d wd i) (row_fields policy w)) @ [CHR 0x0A]"

text \<open>\<^verbatim>\<open>%.2f\<close> (line 747) of a \<^verbatim>\<open>float\<close>, promoted to \<^verbatim>\<open>double\<close> without
  change: the sign, the integral part, a point and two digits of the absolute value rounded
  to hundredths, ties to even as glibc rounds. A NaN prints as \<^verbatim>\<open>-nan\<close>: the
  quotient \<^verbatim>\<open>0.0f / 0\<close> is the default NaN of x86-64, whose sign bit is set.\<close>

definition cents :: "f32 \<Rightarrow> int" where
  "cents f =
     (if 0 \<le> snd f then \<bar>fst f\<bar> * 2 ^ nat (snd f) * 100
      else rne_div (\<bar>fst f\<bar> * 100) (2 ^ nat (- snd f)))"

definition fmt_2f :: "f32 option \<Rightarrow> string" where
  "fmt_2f x =
     (case x of
        None \<Rightarrow> ''-nan''
      | Some f \<Rightarrow>
          (let c = nat (cents f)
           in (if fst f < 0 then ''-'' else []) @ string_of_nat (c div 100) @ ''.'' @
              [digit_char (c mod 100 div 10), digit_char (c mod 10)]))"

definition averages_text :: "report \<Rightarrow> string" where
  "averages_text rep =
     [CHR 0x0A] @ ''Average Waiting Time: '' @ fmt_2f (float_average (map row_waiting (rows rep))) @
     [CHR 0x0A] @ ''Average Turn Around Time: '' @
     fmt_2f (float_average (map row_turnaround (rows rep))) @ [CHR 0x0A]"

definition output_text :: "int \<Rightarrow> int \<Rightarrow> report \<Rightarrow> string" where
  "output_text policy tq rep =
     policy_header policy tq @ column_header policy @ concat (map (row_line policy) (rows rep)) @
     averages_text rep"

text \<open>\<^verbatim>\<open>output\<close> on the list \<^verbatim>\<open>schedule\<close> left: the report, or the error of a
  row that reads a field never written.\<close>

definition output_file :: "int \<Rightarrow> int \<Rightarrow> node list \<Rightarrow> sched_error + string" where
  "output_file policy tq ps = map_sum id (output_text policy tq) (output_report ps)"

subsection \<open>Reading the file back\<close>

definition is_blank :: "char \<Rightarrow> bool" where
  "is_blank c \<longleftrightarrow> c = CHR '' '' \<or> c = CHR 0x0A"

fun words_acc :: "string \<Rightarrow> string \<Rightarrow> string list" where
  "words_acc pre [] = (if pre = [] then [] else [rev pre])"
| "words_acc pre (c # cs) =
     (if is_blank c then (if pre = [] then words_acc [] cs else rev pre # words_acc [] cs)
      else words_acc (c # pre) cs)"

definition words_of :: "string \<Rightarrow> string list" where
  "words_of s = words_acc [] s"

text \<open>Reading a printed \<^verbatim>\<open>%.2f\<close> number back: the point dropped, the signed
  decimal read, divided by 100.\<close>

definition read_2f :: "string \<Rightarrow> real" where
  "read_2f t = of_int (int_of_dec (filter (\<lambda>c. c \<noteq> CHR ''.'') t)) / 100"

subsection \<open>Decimal text\<close>

lemma last_digit_in: "digit_char (n mod 10) \<in> digit_char ` {..<10}"
  by (rule imageI) simp

lemma string_of_nat_digits: "set (string_of_nat n) \<subseteq> digit_char ` {..<10}"
proof (induction n rule: string_of_nat.induct)
  case (1 n)
  then show ?case
    using last_digit_in [of n] by (subst string_of_nat.simps) (simp add: Let_def)
qed

lemma digit_not_blank: "d < 10 \<Longrightarrow> \<not> is_blank (digit_char d)"
proof
  assume d: "d < 10" and "is_blank (digit_char d)"
  then have "digit_char d = CHR '' '' \<or> digit_char d = CHR 0x0A"
    by (simp add: is_blank_def)
  then have "of_char (digit_char d) = (of_char (CHR '' '') :: nat) \<or>
             of_char (digit_char d) = (of_char (CHR 0x0A) :: nat)"
    by auto
  with d show False
    by simp
qed

lemma string_of_int_no_blank: "\<forall>c \<in> set (string_of_int i). \<not> is_blank c"
proof -
  have nd: "\<not> is_blank c" if "c \<in> set (string_of_nat m)" for c m
    using string_of_nat_digits [of m] that by (auto simp: digit_not_blank)
  then show ?thesis
    by (auto simp: string_of_int_def is_blank_def)
qed

lemma length_string_of_nat: "n < 10 ^ k \<Longrightarrow> 0 < k \<Longrightarrow> length (string_of_nat n) \<le> k"
proof (induction n arbitrary: k rule: string_of_nat.induct)
  case (1 n)
  show ?case
  proof (cases "n < 10")
    case True
    with "1.prems" show ?thesis
      by (subst string_of_nat.simps) simp
  next
    case False
    obtain k' where k: "k = Suc k'"
      using "1.prems"(2) by (cases k) auto
    have k': "0 < k'"
    proof (rule ccontr)
      assume "\<not> 0 < k'"
      with k "1.prems"(1) False show False
        by simp
    qed
    have "n div 10 < 10 ^ k'"
      using "1.prems"(1) k by (simp add: div_less_iff_less_mult mult.commute)
    with "1.IH" [of _ k'] False k' k show ?thesis
      by (subst string_of_nat.simps) (simp add: Let_def)
  qed
qed

lemma length_string_of_int:
  assumes "- (10 ^ k) < i" "i < 10 ^ k" "0 < k"
  shows "length (string_of_int i) \<le> Suc k"
proof (cases "0 \<le> i")
  case True
  then have "nat i < 10 ^ k"
    using assms(2) by (simp add: nat_less_iff)
  then have "length (string_of_nat (nat i)) \<le> k"
    using length_string_of_nat assms(3) by blast
  with True show ?thesis
    by (simp add: string_of_int_def)
next
  case False
  then have "nat (- i) < 10 ^ k"
    using assms(1) by (simp add: nat_less_iff)
  then have "length (string_of_nat (nat (- i))) \<le> k"
    using length_string_of_nat assms(3) by blast
  with False show ?thesis
    by (simp add: string_of_int_def)
qed

lemma string_of_int_ne: "string_of_int i \<noteq> []"
  by (simp add: string_of_int_def string_of_nat_ne)

subsection \<open>Splitting at blanks\<close>

lemma words_acc_nonblank:
  "\<forall>c \<in> set s. \<not> is_blank c \<Longrightarrow> words_acc pre (s @ rest) = words_acc (rev s @ pre) rest"
  by (induction s arbitrary: pre) auto

lemma words_acc_spaces: "words_acc [] (replicate k CHR '' '' @ rest) = words_acc [] rest"
  by (induction k) (simp_all add: is_blank_def)

lemma words_acc_flush:
  "is_blank b \<Longrightarrow> pre \<noteq> [] \<Longrightarrow> words_acc pre (b # x) = rev pre # words_acc [] (b # x)"
  by simp

lemma fmt_d_fits:
  assumes "length (string_of_int i) < wd"
  shows "fmt_d wd i = CHR '' '' # replicate (wd - Suc (length (string_of_int i))) CHR '' '' @ string_of_int i"
    and "length (fmt_d wd i) = wd"
proof -
  obtain m where "wd - length (string_of_int i) = Suc m"
    using assms by (metis Suc_diff_Suc)
  then show "fmt_d wd i = CHR '' '' # replicate (wd - Suc (length (string_of_int i))) CHR '' '' @ string_of_int i"
    by (simp add: fmt_d_def pad_left_def)
  show "length (fmt_d wd i) = wd"
    using assms by (simp add: fmt_d_def pad_left_def)
qed

text \<open>A line of \<^verbatim>\<open>%Nd\<close> fields in which every number fits its field reads back as
  the numbers' texts.\<close>

lemma words_fields:
  assumes "\<forall>(wd, i) \<in> set fs. length (string_of_int i) < wd"
  shows "words_acc [] (concat (map (\<lambda>(wd, i). fmt_d wd i) fs) @ [CHR 0x0A]) =
           map (\<lambda>(wd, i). string_of_int i) fs"
  using assms
proof (induction fs)
  case Nil
  then show ?case
    by (simp add: is_blank_def)
next
  case (Cons f fs)
  obtain wd i where f: "f = (wd, i)"
    by fastforce
  let ?rest = "concat (map (\<lambda>(wd, i). fmt_d wd i) fs) @ [CHR 0x0A]"
  have fit: "length (string_of_int i) < wd"
    using Cons.prems f by simp
  have "\<exists>b x. is_blank b \<and> ?rest = b # x"
  proof (cases fs)
    case Nil
    then show ?thesis
      by (simp add: is_blank_def)
  next
    case (Cons g gs)
    obtain wd' i' where g: "g = (wd', i')"
      by fastforce
    have "length (string_of_int i') < wd'"
      using Cons.prems [unfolded f] Cons g by simp
    with Cons g show ?thesis
      by (simp add: fmt_d_fits(1) is_blank_def)
  qed
  then obtain b x where b: "is_blank b" and rest: "?rest = b # x"
    by blast
  have "words_acc [] (fmt_d wd i @ ?rest) = words_acc (rev (string_of_int i)) ?rest"
    using string_of_int_no_blank [of i]
    by (simp add: fmt_d_def pad_left_def words_acc_spaces words_acc_nonblank del: words_acc.simps)
  also have "\<dots> = string_of_int i # words_acc [] ?rest"
    using words_acc_flush [OF b, of "rev (string_of_int i)" x] rest string_of_int_ne [of i] by simp
  finally show ?case
    using Cons f by simp
qed

lemma length_fields:
  "\<forall>(wd, i) \<in> set fs. length (string_of_int i) < wd \<Longrightarrow>
     length (concat (map (\<lambda>(wd, i). fmt_d wd i) fs)) = sum_list (map fst fs)"
  by (induction fs) (auto simp: fmt_d_fits(2))

lemma length_string_of_int32:
  assumes "- (2 ^ 31) \<le> x" "x < (2 ^ 31 :: int)"
  shows "length (string_of_int x) \<le> 11"
proof -
  have "(2 ^ 31 :: int) < 10 ^ 10"
    by simp
  with assms show ?thesis
    using length_string_of_int [of 10 x] by simp
qed

lemma row_fields_fit:
  assumes "1 \<le> row_id w" "row_id w \<le> 1000"
    and "\<forall>x \<in> set [row_arrival w, row_burst w, row_completion w, row_waiting w, row_turnaround w,
                   row_response w]. - (2 ^ 31) \<le> x \<and> x < 2 ^ 31"
  shows "\<forall>(wd, i) \<in> set (row_fields policy w). length (string_of_int i) < wd"
proof -
  have "length (string_of_int (row_id w)) \<le> 5"
    using assms(1,2) length_string_of_int [of 4 "row_id w"] by simp
  moreover have "length (string_of_int x) \<le> 11"
    if "x \<in> set [row_arrival w, row_burst w, row_completion w, row_waiting w, row_turnaround w,
                 row_response w]" for x
    using assms(3) that length_string_of_int32 by blast
  ultimately show ?thesis
    by (fastforce simp: row_fields_def)
qed

text \<open>C12: every line \<^verbatim>\<open>output\<close> prints for a process reads back as the row's
  numbers: with an identity of a real process (1 to 1000) and the other fields within the
  range of a C \<^verbatim>\<open>int\<close>, each \<^verbatim>\<open>%Nd\<close> field holds its number with at least one
  blank before it, so splitting the line at blanks and reading each word as a decimal gives
  identity, arrival, burst, completion, waiting and turnaround time, and the response time
  under Round Robin; the line is 89 characters long, 111 under Round Robin.\<close>

theorem row_line_readback:
  assumes "1 \<le> row_id w" "row_id w \<le> 1000"
    and "\<forall>x \<in> set [row_arrival w, row_burst w, row_completion w, row_waiting w, row_turnaround w,
                   row_response w]. - (2 ^ 31) \<le> x \<and> x < 2 ^ 31"
  shows "map int_of_dec (words_of (row_line policy w)) =
           [row_id w, row_arrival w, row_burst w, row_completion w, row_waiting w, row_turnaround w] @
           (if policy = 4 then [row_response w] else []) \<and>
         length (row_line policy w) = (if policy = 4 then 111 else 89)"
proof -
  have fit: "\<forall>(wd, i) \<in> set (row_fields policy w). length (string_of_int i) < wd"
    using row_fields_fit [OF assms] .
  have "map int_of_dec (words_of (row_line policy w)) = map snd (row_fields policy w)"
    using words_fields [OF fit] by (simp add: words_of_def row_line_def comp_def case_prod_beta int_of_dec_string_of_int)
  moreover have "length (row_line policy w) = Suc (sum_list (map fst (row_fields policy w)))"
    using length_fields [OF fit] by (simp add: row_line_def)
  ultimately show ?thesis
    by (simp add: row_fields_def)
qed


subsection \<open>The averages\<close>

lemma digit_not_point: "d < 10 \<Longrightarrow> digit_char d \<noteq> CHR ''.''"
proof
  assume "d < 10" "digit_char d = CHR ''.''"
  then have "48 + d = of_char (CHR ''.'')"
    using of_char_digit [of d] by simp
  then show False
    by simp
qed

lemma string_of_nat_no_point: "CHR ''.'' \<notin> set (string_of_nat n)"
proof
  assume "CHR ''.'' \<in> set (string_of_nat n)"
  then have "CHR ''.'' \<in> digit_char ` {..<10}"
    by (rule subsetD [OF string_of_nat_digits])
  then obtain d where "d < 10" "CHR ''.'' = digit_char d"
    by auto
  then show False
    using digit_not_point [of d] by simp
qed

lemma string_of_nat_filter_point: "filter (\<lambda>c. c \<noteq> CHR ''.'') (string_of_nat n) = string_of_nat n"
  using string_of_nat_no_point [of n] by (auto simp: filter_id_conv)


lemma nat_of_digits_cents:
  "nat_of_digits (string_of_nat (c div 100) @ [digit_char (c mod 100 div 10), digit_char (c mod 10)]) = c"
proof -
  have "c mod 100 div 10 < 10" "c mod 10 < (10::nat)"
    by simp_all
  then have "nat_of_digits (string_of_nat (c div 100) @ [digit_char (c mod 100 div 10), digit_char (c mod 10)]) =
               100 * (c div 100) + 10 * (c mod 100 div 10) + c mod 10"
    using nat_of_digits_snoc [of "string_of_nat (c div 100) @ [digit_char (c mod 100 div 10)]"]
      nat_of_digits_snoc [of "string_of_nat (c div 100)"]
    by (simp add: nat_of_digits_string_of_nat)
  also have "\<dots> = c"
    by (simp add: mod_mod_cancel [of 10 100 c, symmetric])
  finally show ?thesis .
qed

text \<open>The text of a finite average read back, the point dropped: the signed count of
  hundredths the printer rounded to.\<close>

lemma fmt_2f_read:
  "int_of_dec (filter (\<lambda>c. c \<noteq> CHR ''.'') (fmt_2f (Some f))) =
     (if fst f < 0 then - int (nat (cents f)) else int (nat (cents f)))"
proof -
  let ?c = "nat (cents f)"
  let ?ds = "string_of_nat (?c div 100) @ [digit_char (?c mod 100 div 10), digit_char (?c mod 10)]"
  have "?c mod 100 div 10 < 10" "?c mod 10 < (10::nat)"
    by simp_all
  then have ds: "filter (\<lambda>c. c \<noteq> CHR ''.'') (fmt_2f (Some f)) = (if fst f < 0 then CHR ''-'' # ?ds else ?ds)"
    using digit_not_point by (simp add: fmt_2f_def Let_def string_of_nat_filter_point)
  have "hd ?ds \<noteq> CHR ''-''" "?ds \<noteq> []"
    using string_of_nat_head [of "?c div 100"] string_of_nat_ne [of "?c div 100"] by simp_all
  then have i: "int_of_dec ?ds = int (nat_of_digits ?ds)"
    by (cases ?ds) (simp_all add: int_of_dec_def)
  have nd: "nat_of_digits ?ds = ?c"
    by (rule nat_of_digits_cents)
  show ?thesis
  proof (cases "fst f < 0")
    case True
    with ds nd show ?thesis
      by (simp add: int_of_dec_def)
  next
    case False
    with ds nd i show ?thesis
      by simp
  qed
qed


lemma cents_bound: "0 \<le> cents f \<and> \<bar>of_int (cents f) - 100 * \<bar>fval f\<bar>\<bar> \<le> 1 / 2"
proof (cases "0 \<le> snd f")
  case True
  then have "(2::real) powi snd f = 2 ^ nat (snd f)"
    by (simp add: pow2_cases)
  with True show ?thesis
    by (simp add: cents_def fval_def abs_mult)
next
  case False
  let ?n = "\<bar>fst f\<bar> * 100" and ?d = "2 ^ nat (- snd f) :: int"
  have d: "0 < ?d"
    by simp
  have eq: "of_int ?n / of_int ?d = 100 * \<bar>fval f\<bar>"
    using False by (simp add: fval_def pow2_cases abs_mult abs_divide)
  moreover have h: "\<bar>of_int (rne_div ?n ?d) - of_int ?n / (of_int ?d :: real)\<bar> \<le> 1 / 2"
    using rne_div_half [OF d] .
  moreover have "0 \<le> of_int ?n / (of_int ?d :: real)"
    by simp
  ultimately have "- 1 < (of_int (rne_div ?n ?d) :: real)"
    by (simp only: abs_le_iff) linarith
  then have "0 \<le> rne_div ?n ?d"
    by simp
  moreover have "cents f = rne_div ?n ?d"
    using False by (simp add: cents_def)
  moreover from h have "\<bar>of_int (rne_div ?n ?d) - 100 * \<bar>fval f\<bar>\<bar> \<le> 1 / 2"
    by (simp only: eq)
  ultimately show ?thesis
    by simp
qed



text \<open>\<^verbatim>\<open>%.2f\<close> prints a finite float so that, read back, it is within half a
  hundredth of the float.\<close>

lemma fmt_2f_read_bound: "\<bar>read_2f (fmt_2f (Some f)) - fval f\<bar> \<le> 1 / 200"
proof -
  have c: "0 \<le> cents f" "\<bar>of_int (cents f) - 100 * \<bar>fval f\<bar>\<bar> \<le> 1 / 2"
    using cents_bound by blast+
  have r: "int_of_dec (filter (\<lambda>c. c \<noteq> CHR ''.'') (fmt_2f (Some f))) =
             (if fst f < 0 then - cents f else cents f)"
    using fmt_2f_read [of f] c(1) by simp
  have "\<not> (2::real) powi snd f < 0"
    by (simp add: not_less)
  then have s: "fst f < 0 \<longleftrightarrow> fval f < 0"
    by (simp add: fval_def mult_less_0_iff)
  from c(2) have b: "- 1 / 2 \<le> of_int (cents f) - 100 * \<bar>fval f\<bar>" "of_int (cents f) - 100 * \<bar>fval f\<bar> \<le> 1 / 2"
    by (simp_all only: abs_le_iff) linarith+
  show ?thesis
  proof (cases "fst f < 0")
    case True
    then have "\<bar>fval f\<bar> = - fval f"
      using s by simp
    with True r b show ?thesis
      by (simp only: abs_le_iff if_True read_2f_def) linarith
  next
    case False
    then have "\<bar>fval f\<bar> = fval f"
      using s by simp
    with False r b show ?thesis
      by (simp only: abs_le_iff if_False read_2f_def) linarith
  qed
qed

lemma fmt_2f_average_bound:
  assumes "xs \<noteq> []" "sum_list (map abs xs) < 2 ^ 24" "length xs < 2 ^ 24"
  shows "\<exists>a. average xs = Some a \<and>
           \<bar>read_2f (fmt_2f (float_average xs)) - a\<bar> \<le> 1 / 200 + \<bar>a\<bar> / 2 ^ 24"
proof -
  obtain f where f: "float_average xs = Some f"
    and b: "\<bar>fval f - of_int (sum_list xs) / of_nat (length xs)\<bar> \<le>
             \<bar>of_int (sum_list xs) / of_nat (length xs)\<bar> / 2 ^ 24"
    using float_average_mean [OF assms] by blast
  have r: "\<bar>read_2f (fmt_2f (Some f)) - fval f\<bar> \<le> 1 / 200"
    by (rule fmt_2f_read_bound)
  from b r have "\<bar>read_2f (fmt_2f (Some f)) - of_int (sum_list xs) / of_nat (length xs)\<bar> \<le>
                   1 / 200 + \<bar>of_int (sum_list xs) / of_nat (length xs)\<bar> / 2 ^ 24"
    by (simp only: abs_le_iff) linarith
  with assms(1) f show ?thesis
    by (simp only: average_def if_False) simp
qed

text \<open>C13: the two averages \<^verbatim>\<open>output\<close> prints after the rows (line 747) are those
  of the report, waiting time first, and each, read back from the text, is within half a
  hundredth plus the \<^verbatim>\<open>float\<close> rounding (a relative \<open>2^-24\<close>) of the exact mean, while
  the sums and the number of rows stay below \<open>2^24\<close>.\<close>

theorem averages_text_readback:
  assumes "output_report ps = Inr rep" "rows rep \<noteq> []" "length (rows rep) < 2 ^ 24"
    and "sum_list (map abs (map row_waiting (rows rep))) < 2 ^ 24"
    and "sum_list (map abs (map row_turnaround (rows rep))) < 2 ^ 24"
  shows "\<exists>tw tt aw ta.
           averages_text rep = [CHR 0x0A] @ ''Average Waiting Time: '' @ tw @ [CHR 0x0A] @
                               ''Average Turn Around Time: '' @ tt @ [CHR 0x0A] \<and>
           avgWaiting rep = Some aw \<and> avgTurnAround rep = Some ta \<and>
           \<bar>read_2f tw - aw\<bar> \<le> 1 / 200 + \<bar>aw\<bar> / 2 ^ 24 \<and>
           \<bar>read_2f tt - ta\<bar> \<le> 1 / 200 + \<bar>ta\<bar> / 2 ^ 24"
proof -
  have avg: "avgWaiting rep = average (map row_waiting (rows rep))"
    "avgTurnAround rep = average (map row_turnaround (rows rep))"
    using assms(1) by (auto simp: output_report_def split: sum.splits)
  obtain aw where w: "average (map row_waiting (rows rep)) = Some aw"
    "\<bar>read_2f (fmt_2f (float_average (map row_waiting (rows rep)))) - aw\<bar> \<le> 1 / 200 + \<bar>aw\<bar> / 2 ^ 24"
    using fmt_2f_average_bound [of "map row_waiting (rows rep)"] assms(2-4) by auto
  obtain ta where t: "average (map row_turnaround (rows rep)) = Some ta"
    "\<bar>read_2f (fmt_2f (float_average (map row_turnaround (rows rep)))) - ta\<bar> \<le> 1 / 200 + \<bar>ta\<bar> / 2 ^ 24"
    using fmt_2f_average_bound [of "map row_turnaround (rows rep)"] assms(2,3,5) by auto
  show ?thesis
  proof (intro exI conjI)
    show "averages_text rep = [CHR 0x0A] @ ''Average Waiting Time: '' @
            fmt_2f (float_average (map row_waiting (rows rep))) @ [CHR 0x0A] @
            ''Average Turn Around Time: '' @ fmt_2f (float_average (map row_turnaround (rows rep))) @
            [CHR 0x0A]"
      by (simp only: averages_text_def)
  qed (use avg w t in simp_all)
qed

text \<open>C18: the averages \<^verbatim>\<open>output\<close> prints refine the exact averages of the report: while
  the printed values sum in absolute value below \<open>2^24\<close> (so that every partial
  \<^verbatim>\<open>float\<close> sum is exact) and there are fewer than \<open>2^24\<close> rows, the \<^verbatim>\<open>float\<close>
  quotient of line 747 is the exact mean rounded once to a nearest float.\<close>

theorem float_average_refines:
  assumes "xs \<noteq> []" "sum_list (map abs xs) < 2 ^ 24" "length xs < 2 ^ 24"
  shows "\<exists>a f. average xs = Some a \<and> float_average xs = Some f \<and> closest_f32 a (fval f) \<and>
                \<bar>fval f - a\<bar> \<le> \<bar>a\<bar> / 2 ^ 24"
  using float_average_mean [OF assms] assms(1) by (auto simp: average_def)

text \<open>C30: with no real process (an empty file, or only block requests) \<^verbatim>\<open>output\<close>
  prints the titles, no row, and divides the sums 0 by the count 0: both averages print as
  \<^verbatim>\<open>-nan\<close>, the division is not guarded.\<close>

theorem output_no_process_nan_text:
  assumes "\<forall>n \<in> set ps. 1000 < processId n"
  shows "output_file policy tq ps =
           Inr (policy_header policy tq @ column_header policy @
                [CHR 0x0A] @ ''Average Waiting Time: -nan'' @ [CHR 0x0A] @
                ''Average Turn Around Time: -nan'' @ [CHR 0x0A])"
  using output_no_process_nan [OF assms]
  by (simp add: output_file_def output_text_def averages_text_def fmt_2f_def float_average_Nil)

lemmas text_eval = f32_eval fmt_2f_def cents_def averages_text_def string_of_nat.simps digit_char_def char_of_def bit_0

text \<open>Beyond \<open>2^24\<close> the \<^verbatim>\<open>float\<close> sums are no longer exact: turnaround times
  16777216 and 1 have the exact average 8388608.5, but their \<^verbatim>\<open>float\<close> sum rounds to
  \<open>2^24\<close> (a tie, to even) and \<^verbatim>\<open>output\<close> prints \<^verbatim>\<open>8388608.00\<close>.\<close>

lemma float_average_precision_loss:
  "average [16777216, 1] = Some 8388608.5 \<and> fmt_2f (float_average [16777216, 1]) = ''8388608.00''"
  by (simp add: average_def text_eval)

end
