(* ===== verification/Spec2Isabelle.thy ===== *)
theory Spec2Isabelle
  imports Report Srtn_Inv Rr_Inv Reachable Srtn_Termination Rr_Termination Input_File Output_Text
begin

text \<open>
  \<^bold>\<open>A model of the CPU scheduling simulator \<^verbatim>\<open>src/cpu_scheduling.c\<close>.\<close>

  \<^medskip>\<^bold>\<open>The program.\<close> \<^verbatim>\<open>main\<close> reads a policy number (and a time quantum for
  Round Robin) and a list of records \<open>(arrival, burst, isInterrupt)\<close>; \<^verbatim>\<open>input\<close>
  appends one process control block per record to the list \<^verbatim>\<open>l\<close>, numbering real
  processes from 1 and block requests from 1001. \<^verbatim>\<open>schedule\<close> runs one of \<^verbatim>\<open>fcfs\<close>,
  \<^verbatim>\<open>sjf\<close>, \<^verbatim>\<open>sjfPreempt\<close> (shortest remaining time next) and \<^verbatim>\<open>roundRobin\<close>, a
  simulation by unit ticks over the list, a ready queue \<^verbatim>\<open>rq\<close> and a blocked queue
  \<^verbatim>\<open>bq\<close>; a block request that arrives blocks the running process for the
  request's burst time. \<^verbatim>\<open>output\<close> writes one row per real process and the two
  averages.

  \<^medskip>\<^bold>\<open>Theories.\<close>
  \<^item> \<open>Sched_Prelude\<close>: the types (\<open>time = int\<close>, pointers \<open>ptr = nat\<close>), the error
    values \<open>NullDeref\<close> and \<open>UninitRead\<close>, the field write \<open>modify\<close> through a
    pointer and the shared list lemmas; the collections \<open>sched_simps\<close> (everything
    concrete evaluation needs) and \<open>sched_inv\<close>.
  \<^item> \<open>Process\<close>: the block \<^verbatim>\<open>node\<close> as the record \<open>node\<close>, the counters, \<^verbatim>\<open>insert\<close>
    (\<open>insert_pcb\<close>) and \<^verbatim>\<open>input\<close> (\<open>input_from\<close>, \<open>input\<close>) on parsed records;
    the C \<^verbatim>\<open>list\<close> is the type \<open>pcb_list\<close>.
  \<^item> \<open>Queues\<close>: \<^verbatim>\<open>enqueue\<close>, \<^verbatim>\<open>priorityEnqueue\<close>, \<^verbatim>\<open>priorityBlock\<close> (one
    scan \<open>prio_insert\<close> with its key), \<^verbatim>\<open>deduct\<close>, \<^verbatim>\<open>dequeue\<close>, \<^verbatim>\<open>isEmpty\<close>, over
    queues of positions into the process list (the C \<^verbatim>\<open>priorityQueue\<close> is the
    type \<open>priorityQueue\<close>), and the reference insertion
    \<open>ins_key\<close> they are proved equal to.
  \<^item> \<open>Engine\<close>: the simulation state \<open>sim\<close> (list, cursor \<^verbatim>\<open>data\<close>, running
    process \<^verbatim>\<open>ref\<close>, both queues, \<^verbatim>\<open>SYSTEM_TIME\<close>, \<^verbatim>\<open>IS_CPU_IDLE\<close>, the RR
    counter), the pieces of one tick in code order (\<open>run_dec\<close>, \<open>age\<close>,
    \<open>idle_wait\<close>, the arrival loop \<open>np_arrivals\<close> with \<open>block_request\<close>,
    \<open>complete_running\<close>, \<open>dispatch\<close>, \<open>release_step\<close>, \<open>advance\<close>), the outer loop
    \<open>sched_loop\<close> over a tick function, and \<open>fcfs\<close>, \<open>sjf\<close> as that loop over
    \<open>np_tick\<close> with the insertion of the policy as parameter; the iterations of the
    idle wait as the step relation \<open>idle_reach\<close> (one rule per branch of lines
    322--332, tied to \<open>idle_wait\<close> in both directions), with what the idle wait
    changes and the stale-arrival run.
  \<^item> \<open>Engine_Inv\<close>: the invariant \<open>sim_inv\<close> of the non-preemptive loop and its
    preservation, piece by piece, for any insertion satisfying the interface
    \<open>enq_ok\<close> (it adds its argument to the queue's multiset); the generic loop rules
    \<open>sched_loop_inv\<close>; the results on \<open>fcfs\<close> and \<open>sjf\<close>; the tick on an exhausted
    running process (\<open>exhausted_tick\<close>).
  \<^item> \<open>Srtn\<close>: \<^verbatim>\<open>sjfPreempt\<close>: the preemption check \<open>srtn_preempt\<close>, the arrival and
    release loops with the check, \<open>srtn_tick\<close>, \<open>sjfPreempt\<close>.
  \<^item> \<open>Round_Robin\<close>: \<^verbatim>\<open>roundRobin\<close>: its idle wait (which also sets response
    times), its block handling, arrival loop, dispatch with quantum expiry, \<open>rr_tick\<close>,
    \<open>roundRobin\<close>.
  \<^item> \<open>Srtn_Inv\<close>, \<open>Rr_Inv\<close>: the invariant carried through the ticks of
    \<^verbatim>\<open>sjfPreempt\<close> and \<^verbatim>\<open>roundRobin\<close>, and their results.
  \<^item> \<open>Reachable\<close>: the states the loop reaches, as the inductive relation \<open>reach\<close>
    over a tick function, with invariants by rule induction: \<open>sim_inv\<close> in every
    reachable state, and the ready queue of \<^verbatim>\<open>sjf\<close> sorted by remaining time; a
    reachable state has the same loop result as the start (\<open>reach_sched_loop\<close>); the
    run of a process with no time left.
  \<^item> \<open>Np_Termination\<close>: termination of \<^verbatim>\<open>fcfs\<close> and \<^verbatim>\<open>sjf\<close> on well-formed inputs
    (\<open>wf_input\<close>), by a measure that every tick decreases; the two halves of a tick
    that all policies share, \<open>idle_tail\<close> (a tick that starts idle) and \<open>busy_tail\<close>
    (a tick that runs a process), stated over any dispatch that behaves like
    \<open>dispatch\<close> (\<open>dispatch_like\<close>).
  \<^item> \<open>Srtn_Termination\<close>, \<open>Rr_Termination\<close>: the same for \<^verbatim>\<open>sjfPreempt\<close> and
    for \<^verbatim>\<open>roundRobin\<close> with any quantum: their arrival loops and dispatches are shown
    to meet the premises of the shared tails.
  \<^item> \<open>Report\<close>: \<^verbatim>\<open>schedule\<close>, \<^verbatim>\<open>output\<close> (\<open>output_rows\<close>, \<open>average\<close>,
    \<open>output_report\<close>) and the second half of \<^verbatim>\<open>main\<close> (\<open>schedule_and_output\<close>;
    \<open>run_main\<close> runs it on the list \<^verbatim>\<open>input\<close> builds from parsed records).
  \<^item> \<open>Input_File\<close>: the file as a list of words (\<open>token\<close>), one \<^verbatim>\<open>fscanf\<close> call
    (\<open>fscanf_ints\<close>, with its \<^verbatim>\<open>EOF\<close>-or-count result and the word it leaves unread
    on a failed conversion), the uninitialised locals of \<^verbatim>\<open>input\<close> (\<open>in_vars\<close>,
    \<open>store3\<close>), the loop of \<^verbatim>\<open>input\<close> (\<open>input_loop\<close>), \<^verbatim>\<open>setPolicy\<close> on the
    globals \<^verbatim>\<open>SCHEDULING_POLICY\<close>, \<^verbatim>\<open>TIME_QUANTUM\<close> (\<open>sched_globals\<close>, zero at
    start), and the whole of \<^verbatim>\<open>main\<close> (\<open>main\<close>, with \<open>Open_failed\<close> for a file that
    does not open).
  \<^item> \<open>Display\<close>: \<^verbatim>\<open>printf("%d")\<close> as decimal text (\<open>string_of_int\<close>) with its
    read-back \<open>int_of_dec\<close>, and \<^verbatim>\<open>display\<close> as the text it prints.
  \<^item> \<open>Float32\<close>: the \<^verbatim>\<open>float\<close> arithmetic of \<^verbatim>\<open>output\<close> as IEEE 754 single
    precision with rounding to nearest, ties to even: a float is an integer pair
    \<open>(m, e)\<close> for \<open>m * 2 powi e\<close>, \<open>f32_round n d\<close> rounds the quotient \<open>n / d\<close> on
    integers (binade from \<open>bitlen\<close>, then \<open>rne_div\<close>), and the conversion
    (\<open>f32_of_int\<close>), addition (\<open>f32_add\<close>), division (\<open>f32_div\<close>, \<open>None\<close> for a
    zero divisor) and the loop of \<^verbatim>\<open>output\<close> (\<open>float_sum\<close>, \<open>float_average\<close>)
    are exact operations followed by that rounding. The reference is \<open>closest_f32\<close>: a
    float with a 24-bit significand no other such float is nearer to. The exponent is
    not bounded: the sums and quotients of \<^verbatim>\<open>output\<close> stay in the normal range.
  \<^item> \<open>Output_Text\<close>: the text \<^verbatim>\<open>output\<close> writes: the policy title, the column
    titles, the \<^verbatim>\<open>%Nd\<close> fields of every row (\<open>fmt_d\<close>, \<open>row_line\<close>) and the
    two \<^verbatim>\<open>float\<close> averages printed by \<^verbatim>\<open>%.2f\<close> (\<open>cents\<close>, \<open>fmt_2f\<close>: hundredths
    rounded ties to even as glibc does, \<^verbatim>\<open>-nan\<close> for the x86-64 default NaN);
    \<open>words_of\<close> is a reader of the file, not code of the program.

  \<^medskip>\<^bold>\<open>Correspondence.\<close> The linked list is a HOL list whose order is the
  \<^verbatim>\<open>next\<close> chain; a pointer to a block is its position, and the position
  \<open>length procs\<close> stands for NULL. Queues hold positions, so the aliasing of the C
  code (a block is in the list and in at most one queue, and written through either) is
  the explicit store \<open>procs\<close> updated by \<open>modify\<close>. Every dereference the code makes
  without a test that can see NULL is a branch returning \<open>Inl NullDeref\<close>; a field
  read before it was ever written is \<open>None\<close>, and printing it is \<open>Inl UninitRead\<close>.
  C \<^verbatim>\<open>int\<close> is modelled by \<open>int\<close>: the clock grows by one per tick and the
  times of a terminating run stay far below \<open>2^31\<close>; the averages are \<open>real\<close>.
  Where a C loop would not stop on its own, the unbounded \<open>int\<close> clock of the model
  runs on, while the C clock overflows (undefined behaviour): such runs are therefore
  stated as reaching every clock value, \<open>INT_MAX\<close> included, not as returning
  \<open>None\<close>.

  \<^medskip>\<^bold>\<open>Partiality.\<close> Three loops of the code need not end: the idle wait, which
  lets the clock run until a record arrives and never stops for a record whose
  arrival time has passed, the outer \<^verbatim>\<open>while\<close>, which never ends when a process
  is never completed, and the loop of \<^verbatim>\<open>input\<close>, which never ends on a word that is
  not a number. They are \<^theory_text>\<open>partial_function (option)\<close>, so that a run that
  does not end is the value \<open>None\<close>. The loop of \<^verbatim>\<open>input\<close> touches no counter and is
  proved to give \<open>None\<close>; for the two scheduling loops, whose C clock would overflow,
  the step relations \<open>idle_reach\<close> and \<open>reach\<close> show the run passing through a
  state for every clock value (\<open>stale_arrival_runs_clock\<close>,
  \<open>exhausted_process_runs_clock\<close>). The arrival, release and list loops consume an element per iteration and are
  total functions with a measure. No fuel is used: termination of all four policies
  is proved outright (\<open>sched_loop_terminates\<close>) with the measure
  \<open>2 * work + idle\<close>, where \<open>work\<close> sums the remaining times of the running,
  ready and not yet loaded processes; every tick either runs the CPU (work drops by one)
  or is idle and then starts the next record (the idle bit drops), under the invariant
  \<open>tinv\<close> (no block requests, arrivals in file order not yet passed, positive
  remaining times). The SRTN preemption check and the Round Robin quantum expiry only
  move processes between the running slot and the ready queue, so they keep
  \<open>work\<close>; the quantum is not part of the measure, and no bound on it is needed.

  \<^medskip>\<^bold>\<open>What is proved.\<close>
  \<^item> Loader: positions, identities, times of the blocks \<open>input\<close> builds; the
    identities are distinct while there are at most 1000 real processes, and the 1001st
    real process is taken for a block request.
  \<^item> File layer: \<^verbatim>\<open>main\<close> on a file written from a policy, quantum and records reads
    them back exactly and then behaves as \<open>run_main\<close> (a parse/print round trip);
    a short last line is inserted with the stale block-request flag of the line before,
    a short first line or a first word that is not a number reads uninitialised locals,
    and a word that is not a number after a record makes \<^verbatim>\<open>input\<close> loop for ever.
  \<^item> Queues: the C scans of \<^verbatim>\<open>priorityEnqueue\<close>/\<^verbatim>\<open>priorityBlock\<close> equal the
    reference insertion, keep the queue sorted, are stable, and \<^verbatim>\<open>deduct\<close> keeps
    the blocked queue sorted; on a sorted queue \<^verbatim>\<open>priorityEnqueue\<close> then
    \<^verbatim>\<open>dequeue\<close> refines insert and delete-min of an abstract priority queue on
    multisets (\<open>pq_abs\<close>, \<open>pq_pop\<close>).
  \<^item> FCFS and SJF: no NULL dereference on any input; when the run returns every
    real process has terminated with consistent completion and turnaround times and
    unchanged identities and times; the invariant holds in every reachable state and
    the SJF ready queue stays sorted; on well-formed inputs the run does return. So
    does the report of \<^verbatim>\<open>main\<close> for these policies.
  \<^item> SRTN and Round Robin: when the run returns normally every real process has
    terminated with consistent times; Round Robin never dereferences NULL; the SRTN
    check preempts exactly on a strictly smaller remaining time; on well-formed inputs
    both return normally, Round Robin for every quantum.
  \<^item> The whole program: \<^verbatim>\<open>main\<close> on a well-formed file with any of the four
    policies ends and reports one row per record, in file order, with the record's
    identity, arrival and burst and consistent times.
  \<^item> Output text: every row line reads back, split at blanks, as the row's numbers
    and has the fixed width of the column titles while the numbers fit C \<^verbatim>\<open>int\<close>;
    \<^verbatim>\<open>%d\<close> text reads back as its number; the two averages printed after the rows
    are the report's, waiting time first, and read back within half a hundredth plus
    the float rounding of the exact means (\<open>averages_text_readback\<close>); with no real
    process both averages print \<^verbatim>\<open>-nan\<close>.
  \<^item> Floats: \<open>f32_round\<close> computes a nearest float (the IEEE reference), within
    relative error \<open>2^-24\<close> (lemma \<open>f32_round_closest_bound\<close>); while the printed values sum below \<open>2^24\<close> in absolute
    value, the printed average is the report's exact average rounded once
    (\<open>float_average_refines\<close>), and beyond it precision is lost
    (\<open>float_average_precision_loss\<close>: 16777216 and 1 print 8388608.00).
  \<^item> Behaviours that differ from the specification, proved for every state or input
    they concern: a record whose arrival has passed is never admitted and the idle
    wait runs the clock past \<open>INT_MAX\<close>; a process with no time left is never
    completed and the loop runs the clock past \<open>INT_MAX\<close>; the idle wait leaves every
    blocked time as it was while the clock runs; a blocked process released on an
    idle CPU crashes \<^verbatim>\<open>sjfPreempt\<close>; the Round Robin idle wait starts a process on
    the previous quantum; the report of an empty input (\<^verbatim>\<open>-nan\<close>) and of an
    unknown policy (uninitialised reads). The spec's four scenarios, and the inputs
    that show these behaviours in full runs, are lemmas of the last section (scenario
    4 completes at 8, not 7, under FCFS and crashes \<^verbatim>\<open>sjfPreempt\<close>).

  \<^medskip>\<^bold>\<open>Not modelled.\<close> The character-level lexing of \<^verbatim>\<open>%d\<close> on input
  (signs, digits, whitespace and a word that starts with a number are abstracted into
  whole words); infinities, subnormals and exponent overflow of \<^verbatim>\<open>float\<close>, which the
  sums and quotients of \<^verbatim>\<open>output\<close> cannot reach; the \<^verbatim>\<open>printf\<close> tracing of the scheduling loops; the
  opening and closing of \<^verbatim>\<open>output.txt\<close>; memory allocation and \<^verbatim>\<open>free\<close>; and
  what the C program does after a signed overflow (undefined behaviour): the theorems
  stop at showing that the overflow is reached.
\<close>

subsection \<open>Helpers spanning the components\<close>

lemma final_rows:
  "sim_inv s \<Longrightarrow> \<not> loop_cond s \<Longrightarrow> \<forall>n \<in> set (procs s). \<not> 1000 < processId n \<longrightarrow> finished_ok n"
  using sim_inv_final by (auto simp: in_set_conv_nth is_interrupt_def)

lemma schedule_finished:
  assumes "policy \<in> {1, 2, 3, 4}" and "schedule policy tq (input recs) = Some (Inr ps)"
  shows "\<forall>n \<in> set ps. \<not> 1000 < processId n \<longrightarrow> finished_ok n"
proof -
  have fresh: "\<forall>n \<in> set (input recs). \<not> isTerminated n"
    using input_fresh by blast
  have ms: "map_sum id procs z = Inr ps \<longleftrightarrow> (\<exists>s. z = Inr s \<and> ps = procs s)"
    for z :: "sched_error + sim"
    by (cases z) auto
  consider (fcfs) s where "policy = 1" "fcfs (input recs) = Some (Inr s)" "ps = procs s"
    | (sjf) s where "policy = 2" "sjf (input recs) = Some (Inr s)" "ps = procs s"
    | (srtn) s where "policy = 3" "sjfPreempt (input recs) = Some (Inr s)" "ps = procs s"
    | (rr) s where "policy = 4" "roundRobin tq (input recs) = Some (Inr s)" "ps = procs s"
    using assms by (auto simp: schedule_def ms)
  then show ?thesis
  proof cases
    case fcfs
    then show ?thesis
      using np_run [OF enq_ok_enqueue fresh fcfs(2) [unfolded fcfs_def]] final_rows by auto
  next
    case sjf
    then show ?thesis
      using np_run [OF enq_ok_priorityEnqueue fresh sjf(2) [unfolded sjf_def]] final_rows by auto
  next
    case srtn
    then show ?thesis
      using srtn_run [OF fresh srtn(2)] final_rows by auto
  next
    case rr
    then show ?thesis
      using rr_run [OF fresh rr(2)] final_rows by auto
  qed
qed

lemma schedule_no_error:
  assumes "policy \<in> {1, 2, 4}"
  shows "schedule policy tq (input recs) \<noteq> Some (Inl e)"
proof -
  have fresh: "\<forall>n \<in> set (input recs). \<not> isTerminated n"
    using input_fresh by blast
  show ?thesis
    using assms np_run [OF enq_ok_enqueue fresh, of 0] np_run [OF enq_ok_priorityEnqueue fresh, of 0]
      rr_run [OF fresh, of tq]
    by (auto simp: schedule_def fcfs_def sjf_def)
qed

lemma sjf_reach_example:
  "\<exists>s. reach (np_tick priorityEnqueue) (init_sim (input [(0, 5, 0), (1, 3, 0), (1, 1, 0)]) 0) s \<and>
     rq s = [2, 1]"
proof -
  have "\<exists>s1 s2. np_tick priorityEnqueue (init_sim (input [(0, 5, 0), (1, 3, 0), (1, 1, 0)]) 0) = Some (Inr s1) \<and>
     loop_cond s1 \<and> np_tick priorityEnqueue s1 = Some (Inr s2) \<and> rq s2 = [2, 1]"
    by (simp add: sched_simps)
  then obtain s1 s2 where t1: "np_tick priorityEnqueue (init_sim (input [(0, 5, 0), (1, 3, 0), (1, 1, 0)]) 0) = Some (Inr s1)"
    and c1: "loop_cond s1" and t2: "np_tick priorityEnqueue s1 = Some (Inr s2)" and q: "rq s2 = [2, 1]"
    by blast
  have c0: "loop_cond (init_sim (input [(0, 5, 0), (1, 3, 0), (1, 1, 0)]) 0)"
    by (simp add: sched_simps)
  note step = reach.step [where tick = "np_tick priorityEnqueue"]
  have "reach (np_tick priorityEnqueue) (init_sim (input [(0, 5, 0), (1, 3, 0), (1, 1, 0)]) 0) s2"
    using step [OF step [OF reach.start c0 t1] c1 t2] .
  with q show ?thesis by blast
qed

subsection \<open>The report\<close>

text \<open>C9: for every policy number, whenever \<^verbatim>\<open>main\<close> writes a report, every row has
  waiting time = turnaround - burst and turnaround = completion - arrival (with a number
  other than 1 to 4 a report is written only when it has no row).\<close>

theorem report_consistent:
  assumes "run_main policy tq recs = Some (Inr rep)"
  shows "\<forall>w \<in> set (rows rep). row_waiting w = row_turnaround w - row_burst w \<and>
                              row_turnaround w = row_completion w - row_arrival w"
proof (cases "policy \<in> {1, 2, 3, 4}")
  case p: True
  obtain ps where sched: "schedule policy tq (input recs) = Some (Inr ps)"
    and out: "output_report ps = Inr rep"
    using assms by (auto simp: run_main_def schedule_and_output_def split: option.splits sum.splits)
  obtain rs where rs: "output_rows ps = Inr rs"
    and ok: "\<forall>w \<in> set rs. row_waiting w = row_turnaround w - row_burst w \<and>
                           row_turnaround w = row_completion w - row_arrival w"
    using output_rows_finished [OF schedule_finished [OF p sched]] by blast
  show ?thesis
    using out rs ok by (auto simp: output_report_def)
next
  case False
  with invalid_policy_no_rows [OF False assms] show ?thesis
    by simp
qed

text \<open>C10: with FCFS, SJF or Round Robin, \<^verbatim>\<open>main\<close> never crashes: it runs forever or
  writes a report, never reading a NULL pointer or an unwritten field.\<close>

theorem report_no_error:
  assumes "policy \<in> {1, 2, 4}"
  shows "run_main policy tq recs \<noteq> Some (Inl e)"
proof
  assume ret: "run_main policy tq recs = Some (Inl e)"
  have p: "policy \<in> {1, 2, 3, 4}"
    using assms by auto
  show False
  proof (cases "schedule policy tq (input recs)")
    case None
    with ret show ?thesis by (simp add: run_main_def schedule_and_output_def)
  next
    case (Some x)
    show ?thesis
    proof (cases x)
      case (Inl e')
      with Some schedule_no_error [OF assms, of tq recs e'] show ?thesis by simp
    next
      case (Inr ps)
      obtain rs where "output_rows ps = Inr rs"
        using output_rows_finished [OF schedule_finished [OF p Some [unfolded Inr]]] by blast
      with ret Some Inr show ?thesis
        by (simp add: run_main_def schedule_and_output_def output_report_def)
    qed
  qed
qed

subsection \<open>The whole program on a well-formed file\<close>

text \<open>C11: with policy 1 (FCFS), 2 (SJF), 3 (SRTN) or 4 (Round Robin, with any quantum),
  \<^verbatim>\<open>main\<close> on a well-formed input file (records without block requests, at most 1000 of them, positive bursts, arrival times
  non-negative and in file order) ends and writes a report with one row per record, in file
  order, carrying identity \<open>i + 1\<close>, the record's arrival and burst times, and consistent
  waiting, turnaround and completion times.\<close>

theorem main_wellformed_report:
  assumes wf: "wf_input recs" and pol: "policy \<in> {1, 2, 3, 4}"
  shows "\<exists>rep. main (Some (render_file policy tq recs)) = Some (Completed (Inr rep)) \<and>
           map (\<lambda>w. (row_id w, row_arrival w, row_burst w)) (rows rep) =
             map (\<lambda>i. (int i + 1, fst (recs ! i), fst (snd (recs ! i)))) [0..<length recs] \<and>
           (\<forall>w \<in> set (rows rep). row_waiting w = row_turnaround w - row_burst w \<and>
                                 row_turnaround w = row_completion w - row_arrival w)"
proof -
  have read: "main (Some (render_file policy tq recs)) =
                map_option Completed (schedule_and_output policy (if policy = 4 then tq else 0) (input recs))"
    using pol input_file_render [of recs]
    by (auto simp: main_def setPolicy_render input_file_def)
  obtain s :: sim where sch: "schedule policy (if policy = 4 then tq else 0) (input recs) = Some (Inr (procs s))"
    and fin: "\<forall>i < length (procs s). isTerminated (procs s ! i) \<and> finished_ok (procs s ! i)"
    and st: "map static (procs s) = map static (input recs)"
  proof -
    consider "policy = 1" | "policy = 2" | "policy = 3" | "policy = 4"
      using pol by blast
    then show ?thesis
    proof cases
      case 1
      from np_terminates [OF wf enq_ok_enqueue, of 0] obtain s0
        where "sched_loop (np_tick (\<lambda>ps. enqueue)) (init_sim (input recs) 0) = Some (Inr s0)"
          "\<forall>i < length (procs s0). isTerminated (procs s0 ! i) \<and> finished_ok (procs s0 ! i)"
          "map static (procs s0) = map static (input recs)"
        by blast
      with 1 show ?thesis
        by (intro that [of s0]) (simp_all add: schedule_def fcfs_def)
    next
      case 2
      from np_terminates [OF wf enq_ok_priorityEnqueue, of 0] obtain s0
        where "sched_loop (np_tick priorityEnqueue) (init_sim (input recs) 0) = Some (Inr s0)"
          "\<forall>i < length (procs s0). isTerminated (procs s0 ! i) \<and> finished_ok (procs s0 ! i)"
          "map static (procs s0) = map static (input recs)"
        by blast
      with 2 show ?thesis
        by (intro that [of s0]) (simp_all add: schedule_def sjf_def)
    next
      case 3
      from srtn_terminates [OF wf] obtain s0
        where "sjfPreempt (input recs) = Some (Inr s0)"
          "\<forall>i < length (procs s0). isTerminated (procs s0 ! i) \<and> finished_ok (procs s0 ! i)"
          "map static (procs s0) = map static (input recs)"
        by blast
      with 3 show ?thesis
        by (intro that [of s0]) (simp_all add: schedule_def)
    next
      case 4
      from rr_terminates [OF wf, of tq] obtain s0
        where "roundRobin tq (input recs) = Some (Inr s0)"
          "\<forall>i < length (procs s0). isTerminated (procs s0 ! i) \<and> finished_ok (procs s0 ! i)"
          "map static (procs s0) = map static (input recs)"
        by blast
      with 4 show ?thesis
        by (intro that [of s0]) (simp_all add: schedule_def)
    qed
  qed
  have "\<forall>n \<in> set (procs s). \<not> 1000 < processId n \<and> finished_ok n"
  proof
    fix n
    assume "n \<in> set (procs s)"
    then obtain i where i: "i < length (procs s)" "n = procs s ! i"
      by (auto simp: in_set_conv_nth)
    with fin wf_no_interrupt [OF wf st] show "\<not> 1000 < processId n \<and> finished_ok n"
      by (simp add: is_interrupt_def)
  qed
  then obtain rs where rs: "output_rows (procs s) = Inr rs"
    and ids: "map (\<lambda>w. (row_id w, row_arrival w, row_burst w)) rs = map static (procs s)"
    and ok: "\<forall>w \<in> set rs. row_waiting w = row_turnaround w - row_burst w \<and>
                          row_turnaround w = row_completion w - row_arrival w"
    by (blast dest: output_rows_real)
  let ?rep = "\<lparr>rows = rs, avgWaiting = average (map row_waiting rs),
               avgTurnAround = average (map row_turnaround rs)\<rparr>"
  have "main (Some (render_file policy tq recs)) = Some (Completed (Inr ?rep))"
    using read sch rs by (simp add: schedule_and_output_def output_report_def)
  moreover have "map (\<lambda>w. (row_id w, row_arrival w, row_burst w)) (rows ?rep) =
      map (\<lambda>i. (int i + 1, fst (recs ! i), fst (snd (recs ! i)))) [0..<length recs]"
    using ids st wf_input_static [OF wf] by simp
  ultimately show ?thesis
    using ok by auto
qed

subsection \<open>The scenarios of the specification\<close>

text \<open>Spec scenario 1 under FCFS: arrivals (0,5) and (1,3) give the report
  completion 5 and 8, waiting 0 and 4, turnaround 5 and 7, averages 2 and 6, and
  \<^verbatim>\<open>output\<close> prints the averages as \<^verbatim>\<open>2.00\<close> and \<^verbatim>\<open>6.00\<close>.\<close>

lemma run_main_scenario_1:
  "run_main 1 0 [(0, 5, 0), (1, 3, 0)] =
   Some (Inr \<lparr>rows = [\<lparr>row_id = 1, row_arrival = 0, row_burst = 5, row_completion = 5,
                        row_waiting = 0, row_turnaround = 5, row_response = 0\<rparr>,
                      \<lparr>row_id = 2, row_arrival = 1, row_burst = 3, row_completion = 8,
                        row_waiting = 4, row_turnaround = 7, row_response = 0\<rparr>],
              avgWaiting = Some 2, avgTurnAround = Some 6\<rparr>) \<and>
   map_option (map_sum id averages_text) (run_main 1 0 [(0, 5, 0), (1, 3, 0)]) =
   Some (Inr ([CHR 0x0A] @ ''Average Waiting Time: 2.00'' @ [CHR 0x0A] @
              ''Average Turn Around Time: 6.00'' @ [CHR 0x0A]))"
  by (simp add: sched_simps text_eval)

text \<open>Spec scenarios 2 and 3. Under Round Robin with quantum 2, (0,4) and (0,3)
  complete at 6 and 7 with turnaround 6 and 7 and response 0 and 2. Under
  \<^verbatim>\<open>sjfPreempt\<close>, C = (2,1) preempts A = (0,5) at tick 2, completes at 3 (turnaround 1),
  and A completes at 6.\<close>

lemma spec_scenarios_2_3:
  "map_option (map_sum id (map (\<lambda>n. (completionTime n, turnAroundTime n, responseTime n)) \<circ> procs))
     (roundRobin 2 (input [(0, 4, 0), (0, 3, 0)])) =
   Some (Inr [(Some 6, Some 6, 0), (Some 7, Some 7, 2)]) \<and>
   map_option (map_sum id (map (\<lambda>n. (completionTime n, turnAroundTime n)) \<circ> procs))
     (sjfPreempt (input [(0, 5, 0), (2, 1, 0)])) = Some (Inr [(Some 6, Some 6), (Some 3, Some 1)])"
  by (simp add: sched_simps)

text \<open>Spec scenario 4 under FCFS: A = (0,4) with a block request (2, 3). The spec
  says A completes at 7 with turnaround 7; the code completes it at 8, because the tick in
  which A is released from the blocked queue is not one in which it runs.\<close>

lemma fcfs_scenario_4:
  "map_option (map_sum id (map (\<lambda>n. (completionTime n, turnAroundTime n)) \<circ> procs))
     (fcfs (input [(0, 4, 0), (2, 3, 1)])) = Some (Inr [(Some 8, Some 8), (None, None)])"
  by (simp add: sched_simps)

text \<open>Spec scenario 4 under \<^verbatim>\<open>sjfPreempt\<close>: when A is released from the blocked
  queue the CPU is idle, and the preemption check dereferences the NULL \<^verbatim>\<open>ref\<close>.\<close>

lemma srtn_scenario_4_null:
  "sjfPreempt (input [(0, 4, 0), (2, 3, 1)]) = Some (Inl NullDeref)"
  by (simp add: sched_simps)

subsection \<open>Behaviours of the tick on fixed inputs\<close>

text \<open>The blocked queue does not age while the idle wait lets the clock run:
  A = (0,2) blocked at 1 for 2 ticks is released only after C = (10,1) arrives, and
  completes at 13 instead of 5.\<close>

lemma fcfs_blocked_frozen:
  "map_option (map_sum id (map (\<lambda>n. (completionTime n, turnAroundTime n)) \<circ> procs))
     (fcfs (input [(0, 2, 0), (1, 2, 1), (10, 1, 0)])) =
   Some (Inr [(Some 13, Some 13), (None, None), (Some 11, Some 1)])"
  by (simp add: sched_simps)

text \<open>Round Robin with a quantum at least every burst is not FCFS: the quantum
  counter is not reset when a process completes, so the next process is preempted early
  and the completions of (5,3) and (5,1) are 9 and 8 instead of FCFS's 8 and 9.\<close>

lemma rr_not_fifo:
  "map_option (map_sum id (map completionTime \<circ> procs)) (roundRobin 3 (input [(0, 1, 0), (5, 3, 0), (5, 1, 0)]))
     = Some (Inr [Some 1, Some 9, Some 8]) \<and>
   map_option (map_sum id (map completionTime \<circ> procs)) (fcfs (input [(0, 1, 0), (5, 3, 0), (5, 1, 0)]))
     = Some (Inr [Some 1, Some 8, Some 9])"
  by (simp add: sched_simps)

text \<open>Round Robin overwrites the response time of a process each time it takes the
  CPU after a block request: A = (0,3) ends with response time 2 while its waiting time
  (turnaround 4 - burst 3) is 1.\<close>

lemma rr_response_overwritten:
  "map_option (map_sum id (map (\<lambda>n. (responseTime n, turnAroundTime n, burstTime n)) \<circ> procs))
     (roundRobin 1 (input [(0, 3, 0), (0, 3, 0), (2, 1, 1)])) =
   Some (Inr [(2, Some 4, 3), (1, Some 6, 3), (0, None, 1)])"
  by (simp add: sched_simps)

subsection \<open>Witnesses\<close>

theorem np_completes_all_witness:
  "\<exists>s. sjf (input [(0, 5, 0), (1, 3, 0), (1, 1, 0)]) = Some (Inr s) \<and>
     map static (procs s) = map static (input [(0, 5, 0), (1, 3, 0), (1, 1, 0)]) \<and>
     (\<forall>i < length (procs s). \<not> is_interrupt (procs s ! i) \<longrightarrow>
        isTerminated (procs s ! i) \<and> finished_ok (procs s ! i))"
proof -
  have "\<exists>s. sjf (input [(0, 5, 0), (1, 3, 0), (1, 1, 0)]) = Some (Inr s)"
    by (simp add: sched_simps)
  then obtain s where r: "sjf (input [(0, 5, 0), (1, 3, 0), (1, 1, 0)]) = Some (Inr s)" ..
  show ?thesis using r np_completes_all [OF disjI2 [OF r]] by blast
qed

theorem report_consistent_witness:
  "run_main 4 2 [(0, 4, 0), (0, 3, 0)] = Some (Inr \<lparr>rows = [\<lparr>row_id = 1, row_arrival = 0, row_burst = 4, row_completion = 6,
                        row_waiting = 2, row_turnaround = 6, row_response = 0\<rparr>,
                      \<lparr>row_id = 2, row_arrival = 0, row_burst = 3, row_completion = 7,
                        row_waiting = 4, row_turnaround = 7, row_response = 2\<rparr>],
              avgWaiting = Some 3, avgTurnAround = Some (13 / 2)\<rparr>) \<and>
   list_all (\<lambda>w. row_waiting w = row_turnaround w - row_burst w \<and>
                  row_turnaround w = row_completion w - row_arrival w) (rows \<lparr>rows = [\<lparr>row_id = 1, row_arrival = 0, row_burst = 4, row_completion = 6,
                        row_waiting = 2, row_turnaround = 6, row_response = 0\<rparr>,
                      \<lparr>row_id = 2, row_arrival = 0, row_burst = 3, row_completion = 7,
                        row_waiting = 4, row_turnaround = 7, row_response = 2\<rparr>],
              avgWaiting = Some 3, avgTurnAround = Some (13 / 2)\<rparr>)"
proof -
  have run: "run_main 4 2 [(0, 4, 0), (0, 3, 0)] = Some (Inr \<lparr>rows = [\<lparr>row_id = 1, row_arrival = 0, row_burst = 4, row_completion = 6,
                        row_waiting = 2, row_turnaround = 6, row_response = 0\<rparr>,
                      \<lparr>row_id = 2, row_arrival = 0, row_burst = 3, row_completion = 7,
                        row_waiting = 4, row_turnaround = 7, row_response = 2\<rparr>],
              avgWaiting = Some 3, avgTurnAround = Some (13 / 2)\<rparr>)"
    by (simp add: sched_simps)
  from report_consistent [OF run] show ?thesis
    using run by (simp add: list_all_iff)
qed

theorem report_no_error_witness: "run_main 4 2 [(0, 4, 0), (0, 3, 0)] \<noteq> Some (Inl NullDeref)"
  by (rule report_no_error) simp

theorem sjfPreempt_completes_all_witness:
  "\<exists>s. sjfPreempt (input [(0, 5, 0), (2, 1, 0)]) = Some (Inr s) \<and>
     map static (procs s) = map static (input [(0, 5, 0), (2, 1, 0)]) \<and>
     (\<forall>i < length (procs s). \<not> is_interrupt (procs s ! i) \<longrightarrow>
        isTerminated (procs s ! i) \<and> finished_ok (procs s ! i))"
proof -
  have "\<exists>s. sjfPreempt (input [(0, 5, 0), (2, 1, 0)]) = Some (Inr s)"
    by (simp add: sched_simps)
  then obtain s where r: "sjfPreempt (input [(0, 5, 0), (2, 1, 0)]) = Some (Inr s)" ..
  show ?thesis using r sjfPreempt_completes_all [OF r] by blast
qed

theorem rr_completes_all_witness:
  "\<exists>s. roundRobin 2 (input [(0, 4, 0), (0, 3, 0)]) = Some (Inr s) \<and>
     map static (procs s) = map static (input [(0, 4, 0), (0, 3, 0)]) \<and>
     (\<forall>i < length (procs s). \<not> is_interrupt (procs s ! i) \<longrightarrow>
        isTerminated (procs s ! i) \<and> finished_ok (procs s ! i))"
proof -
  have "\<exists>s. roundRobin 2 (input [(0, 4, 0), (0, 3, 0)]) = Some (Inr s)"
    by (simp add: sched_simps)
  then obtain s where r: "roundRobin 2 (input [(0, 4, 0), (0, 3, 0)]) = Some (Inr s)" ..
  show ?thesis using r rr_completes_all [OF r] by blast
qed

theorem stale_arrival_runs_clock_witness:
  "idle_reach \<lparr>procs = input [(1, 1, 0)], data = 0, ref = None, rq = [], bq = [], SYSTEM_TIME = 2,
                IS_CPU_IDLE = True, quantum = 0\<rparr>
     \<lparr>procs = input [(1, 1, 0)], data = 0, ref = None, rq = [], bq = [], SYSTEM_TIME = 2147483647,
      IS_CPU_IDLE = True, quantum = 0\<rparr>"
  using stale_arrival_runs_clock [of "\<lparr>procs = input [(1, 1, 0)], data = 0, ref = None, rq = [], bq = [],
      SYSTEM_TIME = 2, IS_CPU_IDLE = True, quantum = 0\<rparr>" 2147483645]
  by (simp add: sched_simps is_interrupt_def)

theorem idle_wait_frozen_witness:
  "idle_wait \<lparr>procs = input [(0, 2, 0), (5, 1, 0)], data = 1, ref = None, rq = [], bq = [0],
              SYSTEM_TIME = 2, IS_CPU_IDLE = True, quantum = 0\<rparr> =
     Some \<lparr>procs = input [(0, 2, 0), (5, 1, 0)], data = 2, ref = Some 1, rq = [], bq = [0],
           SYSTEM_TIME = 5, IS_CPU_IDLE = False, quantum = 0\<rparr> \<and>
   arrivalTime (input [(0, 2, 0), (5, 1, 0)] ! 1) = 5"
proof -
  have r: "idle_wait \<lparr>procs = input [(0, 2, 0), (5, 1, 0)], data = 1, ref = None, rq = [], bq = [0],
              SYSTEM_TIME = 2, IS_CPU_IDLE = True, quantum = 0\<rparr> =
     Some \<lparr>procs = input [(0, 2, 0), (5, 1, 0)], data = 2, ref = Some 1, rq = [], bq = [0],
           SYSTEM_TIME = 5, IS_CPU_IDLE = False, quantum = 0\<rparr>"
    by (simp add: sched_simps)
  show ?thesis
    using r idle_wait_frozen [OF r] by simp
qed

theorem srtn_idle_release_null_witness:
  "srtn_tick \<lparr>procs = [(new_node 1 0 4)\<lparr>remainingTime := 2, blockedTime := 1\<rparr>, new_node 1001 2 3], data = 2, ref = None, rq = [], bq = [0],
              SYSTEM_TIME = 4, IS_CPU_IDLE = True, quantum = 0\<rparr> = Some (Inl NullDeref)"
  by (rule srtn_idle_release_null [where b = 0 and bs = "[]"])
     (simp_all add: sched_simps)

theorem rr_idle_wait_keeps_quantum_witness:
  "rr_idle_wait \<lparr>procs = input [(0, 1, 0), (5, 3, 0)], data = 1, ref = None, rq = [], bq = [],
                 SYSTEM_TIME = 2, IS_CPU_IDLE = True, quantum = 2\<rparr> =
     Some \<lparr>procs = input [(0, 1, 0), (5, 3, 0)], data = 2, ref = Some 1, rq = [], bq = [],
           SYSTEM_TIME = 5, IS_CPU_IDLE = False, quantum = 2\<rparr> \<and>
   quantum \<lparr>procs = input [(0, 1, 0), (5, 3, 0)], data = 2, ref = Some 1, rq = [], bq = [],
           SYSTEM_TIME = 5, IS_CPU_IDLE = False, quantum = 2\<rparr> = 2"
proof -
  have r: "rr_idle_wait \<lparr>procs = input [(0, 1, 0), (5, 3, 0)], data = 1, ref = None, rq = [], bq = [],
                 SYSTEM_TIME = 2, IS_CPU_IDLE = True, quantum = 2\<rparr> =
     Some \<lparr>procs = input [(0, 1, 0), (5, 3, 0)], data = 2, ref = Some 1, rq = [], bq = [],
           SYSTEM_TIME = 5, IS_CPU_IDLE = False, quantum = 2\<rparr>"
    by (simp add: sched_simps)
  show ?thesis
    using r rr_idle_wait_keeps_quantum [OF r] by simp
qed

theorem priorityEnqueue_sorted_witness:
  "sorted (map (\<lambda>j. remainingTime (input [(0, 3, 0), (0, 1, 0), (0, 2, 0)] ! j)) [1, 2]) \<and>
   sorted (map (\<lambda>j. remainingTime (input [(0, 3, 0), (0, 1, 0), (0, 2, 0)] ! j))
     (priorityEnqueue (input [(0, 3, 0), (0, 1, 0), (0, 2, 0)]) [1, 2] 0))"
  using priorityEnqueue_sorted [of "input [(0, 3, 0), (0, 1, 0), (0, 2, 0)]" "[1, 2]" 0]
  by (simp add: sched_simps)

theorem priorityEnqueue_stable_witness:
  "sorted (map (\<lambda>j. remainingTime (input [(0, 2, 0), (0, 1, 0), (0, 2, 0)] ! j)) [1, 2]) \<and>
   filter (\<lambda>j. remainingTime (input [(0, 2, 0), (0, 1, 0), (0, 2, 0)] ! j) = 2)
     (priorityEnqueue (input [(0, 2, 0), (0, 1, 0), (0, 2, 0)]) [1, 2] 0) = [2, 0]"
  using priorityEnqueue_stable [of "input [(0, 2, 0), (0, 1, 0), (0, 2, 0)]" "[1, 2]" 2 0]
  by (simp add: sched_simps)

theorem deduct_keeps_order_witness:
  "sorted (map (\<lambda>i. blockedTime (deduct (map (\<lambda>b. (new_node 1 0 1)\<lparr>blockedTime := b\<rparr>) [3, 1, 2])
     [1, 2, 0] ! i)) [1, 2, 0])"
  using deduct_keeps_order [of "[1, 2, 0]" "map (\<lambda>b. (new_node 1 0 1)\<lparr>blockedTime := b\<rparr>) [3, 1, 2]"]
  by (simp add: sched_simps)

theorem srtn_preempt_strict_witness:
  "srtn_preempt
     (\<lparr>procs = input [(0, 5, 0), (2, 1, 0), (0, 7, 0)], data = 3, ref = Some 0, rq = [2], bq = [],
       SYSTEM_TIME = 2, IS_CPU_IDLE = False, quantum = 0\<rparr>
      \<lparr>rq := priorityEnqueue (input [(0, 5, 0), (2, 1, 0), (0, 7, 0)]) [2] 1\<rparr>) =
   Inr \<lparr>procs = input [(0, 5, 0), (2, 1, 0), (0, 7, 0)], data = 3, ref = Some 1, rq = [0, 2], bq = [],
        SYSTEM_TIME = 2, IS_CPU_IDLE = False, quantum = 0\<rparr>"
  using srtn_preempt_strict [of "\<lparr>procs = input [(0, 5, 0), (2, 1, 0), (0, 7, 0)], data = 3,
      ref = Some 0, rq = [2], bq = [], SYSTEM_TIME = 2, IS_CPU_IDLE = False, quantum = 0\<rparr>" 0 1]
  by (simp add: sched_simps)

theorem input_builds_blocks_witness:
  "processId (input [(0, 5, 0), (2, 3, 1), (1, 3, 0)] ! 2) = 2 \<and>
   arrivalTime (input [(0, 5, 0), (2, 3, 1), (1, 3, 0)] ! 2) = 1 \<and>
   remainingTime (input [(0, 5, 0), (2, 3, 1), (1, 3, 0)] ! 2) = 3"
  using input_builds_blocks [of 2 "[(0, 5, 0), (2, 3, 1), (1, 3, 0)]"] by simp

theorem real_process_taken_for_block_request_witness:
  "is_interrupt (input (replicate 1001 (0, 1, 0)) ! 1000)"
  using real_process_taken_for_block_request [of 1000 "replicate 1001 (0, 1, 0)"] by simp

theorem exhausted_process_runs_clock_witness:
  "\<exists>t. reach (np_tick (\<lambda>ps. enqueue))
        \<lparr>procs = input [(0, 0, 0)], data = 1, ref = Some 0, rq = [], bq = [], SYSTEM_TIME = 1,
         IS_CPU_IDLE = False, quantum = 0\<rparr> t \<and> loop_cond t \<and>
      sched_loop (np_tick (\<lambda>ps. enqueue))
        \<lparr>procs = input [(0, 0, 0)], data = 1, ref = Some 0, rq = [], bq = [], SYSTEM_TIME = 1,
         IS_CPU_IDLE = False, quantum = 0\<rparr> = sched_loop (np_tick (\<lambda>ps. enqueue)) t \<and>
      ref t = Some 0 \<and> SYSTEM_TIME t = 2147483647 \<and> remainingTime (procs t ! 0) = - 2147483646"
proof -
  let ?s = "\<lparr>procs = input [(0, 0, 0)], data = 1, ref = Some 0, rq = [], bq = [], SYSTEM_TIME = 1,
             IS_CPU_IDLE = False, quantum = 0\<rparr>"
  have h: "\<not> has_data ?s" "0 < length (procs ?s)" "remainingTime (procs ?s ! 0) = 0"
    by (simp_all add: sched_simps)
  show ?thesis
    using exhausted_process_runs_clock [of ?s 0 "\<lambda>ps. enqueue" 2147483646] h by simp
qed

theorem output_no_process_nan_text_witness:
  "output_file 1 0 (input [(0, 3, 1)]) =
     Inr (policy_header 1 0 @ column_header 1 @ [CHR 0x0A] @ ''Average Waiting Time: -nan'' @
          [CHR 0x0A] @ ''Average Turn Around Time: -nan'' @ [CHR 0x0A])"
  by (rule output_no_process_nan_text) (simp add: sched_simps)

theorem averages_text_readback_witness:
  "\<exists>rep. output_report [(new_node 1 0 4)\<lparr>completionTime := Some 6, turnAroundTime := Some 6\<rparr>,
                        (new_node 2 0 3)\<lparr>completionTime := Some 7, turnAroundTime := Some 7\<rparr>] = Inr rep \<and>
     rows rep \<noteq> [] \<and> length (rows rep) < 2 ^ 24 \<and>
     sum_list (map abs (map row_waiting (rows rep))) < 2 ^ 24 \<and>
     sum_list (map abs (map row_turnaround (rows rep))) < 2 ^ 24 \<and>
     (\<exists>tw tt aw ta.
        averages_text rep = [CHR 0x0A] @ ''Average Waiting Time: '' @ tw @ [CHR 0x0A] @
                            ''Average Turn Around Time: '' @ tt @ [CHR 0x0A] \<and>
        avgWaiting rep = Some aw \<and> avgTurnAround rep = Some ta \<and>
        \<bar>read_2f tw - aw\<bar> \<le> 1 / 200 + \<bar>aw\<bar> / 2 ^ 24 \<and>
        \<bar>read_2f tt - ta\<bar> \<le> 1 / 200 + \<bar>ta\<bar> / 2 ^ 24)"
proof -
  let ?ps = "[(new_node 1 0 4)\<lparr>completionTime := Some 6, turnAroundTime := Some 6\<rparr>,
              (new_node 2 0 3)\<lparr>completionTime := Some 7, turnAroundTime := Some 7\<rparr>]"
  let ?rep = "\<lparr>rows = [\<lparr>row_id = 1, row_arrival = 0, row_burst = 4, row_completion = 6,
                        row_waiting = 2, row_turnaround = 6, row_response = 0\<rparr>,
                      \<lparr>row_id = 2, row_arrival = 0, row_burst = 3, row_completion = 7,
                        row_waiting = 4, row_turnaround = 7, row_response = 0\<rparr>],
              avgWaiting = Some 3, avgTurnAround = Some (13 / 2)\<rparr>"
  have o: "output_report ?ps = Inr ?rep"
    by (simp add: output_report_def new_node_def average_def)
  show ?thesis
    using o averages_text_readback [OF o] by simp
qed

theorem float_average_refines_witness:
  "[0, 4] \<noteq> [] \<and> sum_list (map abs [0, 4 :: int]) < 2 ^ 24 \<and> length [0, 4 :: int] < 2 ^ 24 \<and>
   (\<exists>a f. average [0, 4] = Some a \<and> float_average [0, 4] = Some f \<and> closest_f32 a (fval f) \<and>
      \<bar>fval f - a\<bar> \<le> \<bar>a\<bar> / 2 ^ 24)"
  using float_average_refines [of "[0, 4]"] by simp

theorem invalid_policy_reads_uninitialised_witness:
  "run_main 5 0 [(0, 5, 0)] = Some (Inl UninitRead)"
  by (rule invalid_policy_reads_uninitialised) simp_all

theorem sjf_ready_queue_sorted_witness:
  "\<exists>s. reach (np_tick priorityEnqueue) (init_sim (input [(0, 5, 0), (1, 3, 0), (1, 1, 0)]) 0) s \<and>
     rq s = [2, 1] \<and> sorted (map (\<lambda>j. remainingTime (procs s ! j)) (rq s))"
  using sjf_reach_example sjf_ready_queue_sorted by blast

theorem reachable_sim_inv_witness:
  "\<exists>s. reach (np_tick priorityEnqueue) (init_sim (input [(0, 5, 0), (1, 3, 0), (1, 1, 0)]) 0) s \<and>
     rq s = [2, 1] \<and> sim_inv s"
  using sjf_reach_example reachable_sim_inv [OF enq_ok_priorityEnqueue] by blast

theorem fcfs_sjf_terminate_witness:
  "wf_input [(0, 5, 0), (1, 3, 0), (1, 1, 0)] \<and>
   (\<exists>s. sjf (input [(0, 5, 0), (1, 3, 0), (1, 1, 0)]) = Some (Inr s) \<and>
     (\<forall>i < length (procs s). isTerminated (procs s ! i) \<and> finished_ok (procs s ! i)))"
proof -
  have wf: "wf_input [(0, 5, 0), (1, 3, 0), (1, 1, 0)]"
    by (simp add: wf_input_def)
  show ?thesis using wf fcfs_sjf_terminate [OF wf] by blast
qed


theorem priority_queue_refines_witness:
  "sorted (map (\<lambda>j. remainingTime (input [(0, 3, 0), (0, 1, 0), (0, 2, 0)] ! j)) [1, 2]) \<and>
   map_option (\<lambda>(h, t). (remainingTime (input [(0, 3, 0), (0, 1, 0), (0, 2, 0)] ! h),
                         pq_abs (input [(0, 3, 0), (0, 1, 0), (0, 2, 0)]) t))
     (dequeue (priorityEnqueue (input [(0, 3, 0), (0, 1, 0), (0, 2, 0)]) [1, 2] 0)) =
   Some (pq_pop (add_mset (remainingTime (input [(0, 3, 0), (0, 1, 0), (0, 2, 0)] ! 0))
     (pq_abs (input [(0, 3, 0), (0, 1, 0), (0, 2, 0)]) [1, 2])))"
proof -
  have s: "sorted (map (\<lambda>j. remainingTime (input [(0, 3, 0), (0, 1, 0), (0, 2, 0)] ! j)) [1, 2])"
    by (simp add: sched_simps)
  show ?thesis using s priority_queue_refines [OF s] by blast
qed

theorem input_ids_distinct_witness:
  "length (filter (\<lambda>r. snd (snd r) = 0) [(0::int, 5::int, 0::int), (2, 3, 1), (1, 3, 0)]) \<le> 1000 \<and>
   distinct (map processId (input [(0, 5, 0), (2, 3, 1), (1, 3, 0)]))"
proof -
  have h: "length (filter (\<lambda>r. snd (snd r) = 0) [(0::int, 5::int, 0::int), (2, 3, 1), (1, 3, 0)]) \<le> 1000"
    by simp
  show ?thesis using h input_ids_distinct [OF h] by blast
qed

theorem input_partial_record_stale_witness:
  "[(0::int, 3::int, 1::int)] \<noteq> [] \<and>
   input_file (concat (map rec_tokens [(0, 3, 1)]) @ [TInt 1, TInt 2]) =
     Some (Inr (input [(0, 3, 1), (1, 2, 1)]))"
proof -
  have h: "[(0::int, 3::int, 1::int)] \<noteq> []"
    by simp
  show ?thesis using input_partial_record_stale [OF h, of 1 2] by simp
qed

theorem input_partial_first_record_uninit_witness:
  "[1::int, 2] \<noteq> [] \<and> length [1::int, 2] < 3 \<and> input_file (map TInt [1, 2]) = Some (Inl UninitRead)"
  using input_partial_first_record_uninit [of "[1, 2]"] by simp

theorem input_bad_token_hangs_witness:
  "[(0::int, 3::int, 0::int)] \<noteq> [] \<and> input_file (concat (map rec_tokens [(0, 3, 0)]) @ [TBad]) = None"
  using input_bad_token_hangs [of "[(0, 3, 0)]" "[]"] by simp

theorem main_wellformed_report_witness:
  "wf_input [(0, 5, 0), (1, 3, 0)] \<and> (1::int) \<in> {1, 2, 3, 4} \<and>
   (\<exists>rep. main (Some (render_file 1 0 [(0, 5, 0), (1, 3, 0)])) = Some (Completed (Inr rep)) \<and>
     map (\<lambda>w. (row_id w, row_arrival w, row_burst w)) (rows rep) = [(1, 0, 5), (2, 1, 3)] \<and>
     (\<forall>w \<in> set (rows rep). row_waiting w = row_turnaround w - row_burst w \<and>
                           row_turnaround w = row_completion w - row_arrival w))"
proof -
  have wf: "wf_input [(0, 5, 0), (1, 3, 0)]"
    by (simp add: wf_input_def)
  have "map (\<lambda>i. (int i + 1, fst ([(0::int, 5::int, 0::int), (1, 3, 0)] ! i),
                  fst (snd ([(0::int, 5::int, 0::int), (1, 3, 0)] ! i)))) [0..<2] = [(1, 0, 5), (2, 1, 3)]"
    by (simp add: upt_rec)
  with main_wellformed_report [OF wf, of 1 0] show ?thesis
    using wf by simp
qed

theorem sjfPreempt_terminates_witness:
  "wf_input [(0, 5, 0), (2, 1, 0)] \<and>
   (\<exists>s. sjfPreempt (input [(0, 5, 0), (2, 1, 0)]) = Some (Inr s) \<and>
     (\<forall>i < length (procs s). isTerminated (procs s ! i) \<and> finished_ok (procs s ! i)))"
proof -
  have wf: "wf_input [(0, 5, 0), (2, 1, 0)]"
    by (simp add: wf_input_def)
  show ?thesis using wf sjfPreempt_terminates [OF wf] by blast
qed

theorem roundRobin_terminates_witness:
  "wf_input [(0, 5, 0), (2, 1, 0)] \<and>
   (\<exists>s. roundRobin 2 (input [(0, 5, 0), (2, 1, 0)]) = Some (Inr s) \<and>
     (\<forall>i < length (procs s). isTerminated (procs s ! i) \<and> finished_ok (procs s ! i)))"
proof -
  have wf: "wf_input [(0, 5, 0), (2, 1, 0)]"
    by (simp add: wf_input_def)
  show ?thesis using wf roundRobin_terminates [OF wf, of 2] by blast
qed

theorem row_line_readback_witness:
  "map int_of_dec (words_of (row_line 4 \<lparr>row_id = 2, row_arrival = 1, row_burst = 3, row_completion = 7,
      row_waiting = 3, row_turnaround = 6, row_response = -1\<rparr>)) = [2, 1, 3, 7, 3, 6, -1] \<and>
   length (row_line 4 \<lparr>row_id = 2, row_arrival = 1, row_burst = 3, row_completion = 7,
      row_waiting = 3, row_turnaround = 6, row_response = -1\<rparr>) = 111"
  using row_line_readback [of "\<lparr>row_id = 2, row_arrival = 1, row_burst = 3, row_completion = 7,
      row_waiting = 3, row_turnaround = 6, row_response = -1\<rparr>" 4]
  by simp

end
